(* ===== verification/Prelude.thy ===== *)
theory Prelude
  imports Complex_Main "HOL-Library.Word"
begin

text \<open>
  Shared vocabulary of the development: Rust's machine integers and the saturating
  operations the sources use, the collections of simplification rules that the component
  theories extend, and generic facts on lists, options and association lists.

  A value of type \<open>'a option\<close> that stands for the outcome of a computation (as opposed to
  Rust's own \<open>Option\<close>) is \<open>None\<close> exactly when the code does not return: unbounded recursion,
  which ends in a stack overflow, a spin loop that nothing ends, or a panic that unwinds.
\<close>

type_synonym u8 = "8 word"
type_synonym u32 = "32 word"
type_synonym u64 = "64 word"
type_synonym usize = "64 word"

named_theorems node_simps \<open>unfolding rules for single node and slot operations\<close>
named_theorems wf_intros \<open>introduction rules for the well-formedness invariants\<close>

subsection \<open>Saturating arithmetic on usize values\<close>

definition usize_max :: nat where
  "usize_max = 2 ^ 64 - 1"

text \<open>Rust's \<^verbatim>\<open>usize::saturating_mul\<close> and \<^verbatim>\<open>usize::saturating_sub\<close>.\<close>

definition saturating_mul :: "nat \<Rightarrow> nat \<Rightarrow> nat" where
  "saturating_mul a b = min (a * b) usize_max"

definition saturating_sub :: "nat \<Rightarrow> nat \<Rightarrow> nat" where
  "saturating_sub a b = a - b"

lemma saturating_mul_le: "saturating_mul a b \<le> usize_max"
  by (simp add: saturating_mul_def)

subsection \<open>Lists of pairs read as maps\<close>

abbreviation sorted_keys :: "('k::linorder \<times> 'v) list \<Rightarrow> bool" where
  "sorted_keys ps \<equiv> sorted_wrt (<) (map fst ps)"

lemma strict_sorted_distinct: "sorted_wrt (<) (xs :: 'k::linorder list) \<Longrightarrow> distinct xs"
  by (induction xs) auto

lemma sorted_keys_append:
  "sorted_keys (ps @ qs) \<longleftrightarrow>
     sorted_keys ps \<and> sorted_keys qs \<and> (\<forall>p\<in>set ps. \<forall>q\<in>set qs. fst p < fst q)"
  by (auto simp: sorted_wrt_append)

lemma sorted_keys_hd_last:
  assumes "sorted_keys (ps :: ('k::linorder \<times> 'v) list)" "p \<in> set ps"
  shows "fst (hd ps) \<le> fst p" "fst p \<le> fst (last ps)"
proof -
  obtain as bs where ps: "ps = as @ p # bs" using assms(2) by (meson split_list)
  show "fst (hd ps) \<le> fst p"
    using assms(1) by (cases as) (auto simp: ps sorted_wrt_append)
  show "fst p \<le> fst (last ps)"
    using assms(1) by (cases bs rule: rev_cases) (auto simp: ps sorted_wrt_append)
qed

lemma sorted_keys_filter: "sorted_keys ps \<Longrightarrow> sorted_keys (filter P ps)"
  by (induction ps) auto

lemma map_of_append_left: "k \<notin> fst ` set qs \<Longrightarrow> map_of (ps @ qs) k = map_of ps k"
  by (induction ps) (auto simp: map_of_eq_None_iff)

lemma map_of_append_right: "k \<notin> fst ` set ps \<Longrightarrow> map_of (ps @ qs) k = map_of qs k"
  by (simp add: map_add_dom_app_simps(3) dom_map_of_conv_image_fst map_of_append
      map_add_def split: option.splits)
    (metis domI dom_map_of_conv_image_fst)

text \<open>
  Keys are spread over the slots of a node so that each key has one home slot: looking a key
  up in the concatenation of all slots is looking it up in its home slot.
\<close>

lemma map_of_concat_home:
  assumes home: "\<And>i p. i < length xss \<Longrightarrow> p \<in> set (xss ! i) \<Longrightarrow> h (fst p) = i"
  shows "map_of (concat xss) k = (if h k < length xss then map_of (xss ! h k) k else None)"
  using home
proof (induction xss arbitrary: h rule: rev_induct)
  case Nil
  then show ?case by simp
next
  case (snoc xs xss)
  have init: "h (fst p) = i" if "i < length xss" "p \<in> set (xss ! i)" for i p
    using snoc.prems [of i p] that by (simp add: nth_append)
  have last: "h (fst p) = length xss" if "p \<in> set xs" for p
    using snoc.prems [of "length xss" p] that by simp
  have IH: "map_of (concat xss) k = (if h k < length xss then map_of (xss ! h k) k else None)"
    by (rule snoc.IH) (rule init)
  show ?case
  proof (cases "h k = length xss")
    case True
    then have "map_of (concat xss) k = None" using IH by simp
    then show ?thesis using True by (simp add: map_add_def split: option.splits)
  next
    case False
    then have "k \<notin> fst ` set xs" using last by force
    then have "map_of (concat xss @ xs) k = map_of (concat xss) k"
      by (rule map_of_append_left)
    then show ?thesis using IH False by (auto simp: nth_append)
  qed
qed

lemma map_of_eq_iff_set:
  "sorted_keys ps \<Longrightarrow> map_of ps k = Some v \<longleftrightarrow> (k, v) \<in> set ps"
  by (simp add: map_of_eq_Some_iff strict_sorted_distinct)

text \<open>A strictly sorted association list is determined by its map.\<close>

lemma sorted_keys_unique:
  assumes "sorted_keys (ps :: ('k::linorder \<times> 'v) list)" "sorted_keys qs"
    and "map_of ps = map_of qs"
  shows "ps = qs"
proof -
  have "set ps = set qs"
    using assms by (auto simp: set_eq_iff simp flip: map_of_eq_iff_set)
  then have "sorted_list_of_set (fst ` set ps) = map fst ps"
    "sorted_list_of_set (fst ` set ps) = map fst qs"
    using assms(1,2)
    by (metis list.set_map sorted_list_of_set.idem_if_sorted_distinct strict_sorted_iff)+
  then have keys: "map fst ps = map fst qs" by simp
  have "snd (ps ! i) = snd (qs ! i)" if "i < length ps" for i
  proof -
    have len: "length ps = length qs" using keys map_eq_imp_length_eq by blast
    then have "fst (ps ! i) = fst (qs ! i)" using keys that by (metis nth_map)
    moreover have "ps ! i \<in> set qs" using that \<open>set ps = set qs\<close> nth_mem by blast
    moreover have "qs ! i \<in> set qs" using that len by simp
    ultimately show ?thesis
      using map_of_eq_iff_set [OF assms(2)] by (metis option.inject prod.collapse)
  qed
  then show ?thesis
    using keys by (metis (no_types, lifting) length_map list_eq_iff_nth_eq nth_map prod_eqI)
qed

subsection \<open>Loops whose body may not return\<close>

text \<open>
  \<^verbatim>\<open>for x in xs { body }\<close> over a state: the whole does not return when one run of the body
  does not.
\<close>

fun fold_returns :: "('a \<Rightarrow> 's \<Rightarrow> 's option) \<Rightarrow> 'a list \<Rightarrow> 's \<Rightarrow> 's option" where
  "fold_returns f [] s = Some s"
| "fold_returns f (x # xs) s = Option.bind (f x s) (fold_returns f xs)"

lemma fold_returns_cong [fundef_cong]:
  "xs = ys \<Longrightarrow> s = t \<Longrightarrow> (\<And>x s. x \<in> set ys \<Longrightarrow> f x s = g x s) \<Longrightarrow>
     fold_returns f xs s = fold_returns g ys t"
proof (induction xs arbitrary: ys s t)
  case Nil
  then show ?case by auto
next
  case (Cons x xs)
  have "Option.bind (f x s) (fold_returns f xs) = Option.bind (g x s) (fold_returns g xs)"
    if "f x s = g x s" "\<And>x s. x \<in> set xs \<Longrightarrow> f x s = g x s"
    using Cons.IH [OF refl refl that(2)] that(1) by (cases "g x s") simp_all
  then show ?case using Cons.prems by auto
qed

lemma fold_returns_mono [partial_function_mono]:
  "(\<And>x s. mono_option (\<lambda>f. B f x s)) \<Longrightarrow> mono_option (\<lambda>f. fold_returns (B f) xs s)"
proof (induction xs arbitrary: s)
  case Nil
  then show ?case by (simp add: option.const_mono)
next
  case (Cons x xs)
  have "mono_option (\<lambda>f. Option.bind (B f x s) (fold_returns (B f) xs))"
    by (intro bind_mono Cons.prems Cons.IH)
  then show ?case by simp
qed

lemma fold_returns_append:
  "fold_returns f (xs @ ys) s = Option.bind (fold_returns f xs s) (fold_returns f ys)"
proof (induction xs arbitrary: s)
  case (Cons x xs)
  then show ?case by (cases "f x s") simp_all
qed simp

text \<open>An invariant over the elements processed so far.\<close>

lemma fold_returns_invariant:
  assumes "fold_returns f xs s = Some t" and "I [] s"
    and step: "\<And>ys x zs s t. xs = ys @ x # zs \<Longrightarrow> I ys s \<Longrightarrow> f x s = Some t \<Longrightarrow> I (ys @ [x]) t"
  shows "I xs t"
  using assms(1) step
proof (induction xs arbitrary: t rule: rev_induct)
  case Nil
  then show ?case using assms(2) by simp
next
  case (snoc x xs)
  then obtain u where u: "fold_returns f xs s = Some u" "f x u = Some t"
    by (auto simp: fold_returns_append bind_eq_Some_conv)
  have "I xs u"
  proof (rule snoc.IH [OF u(1)])
    fix ys y zs s t
    assume "xs = ys @ y # zs" "I ys s" "f y s = Some t"
    then show "I (ys @ [y]) t" using snoc.prems(2) [of ys y "zs @ [x]" s t] by simp
  qed
  then show ?case using snoc.prems(2) [of xs x "[]" u t] u(2) by simp
qed

lemma fold_returns_total:
  assumes "\<And>x s. x \<in> set xs \<Longrightarrow> \<exists>t. f x s = Some t"
  shows "\<exists>t. fold_returns f xs s = Some t"
  using assms
proof (induction xs arbitrary: s)
  case (Cons x xs)
  then obtain u where "f x s = Some u" by (meson list.set_intros(1))
  moreover have "\<exists>t. fold_returns f xs u = Some t" using Cons by simp
  ultimately show ?case by simp
qed simp

end
