(* ===== verification/F64_Facts.thy ===== *)
theory F64_Facts
  imports F64
begin

text \<open>
  Facts about binary64 rounding. \<open>round53_mono\<close>, \<open>fl_mono\<close> and the monotonicity of the
  operations give the order properties of the linear models; \<open>round53_error\<close> and
  \<open>f64_gap\<close> bound the rounding errors and the distance of neighbouring values, from which
  the separation of two conflicting keys follows.
\<close>

subsection \<open>Powers of two\<close>

lemma pow2_pos [simp]: "0 < pow2 k"
  by (simp add: pow2_def)

lemma pow2_nonneg [simp]: "0 \<le> pow2 k"
  by (rule less_imp_le) simp

lemma pow2_neq_0 [simp]: "pow2 k \<noteq> 0"
  using pow2_pos [of k] by linarith

lemma pow2_0 [simp]: "pow2 0 = 1"
  by (simp add: pow2_def)

lemma pow2_eq_powi: "pow2 k = 2 powi k"
  by (auto simp: pow2_def power_int_def power_one_over inverse_eq_divide)

lemma pow2_add: "pow2 (a + b) = pow2 a * pow2 b"
  by (simp add: pow2_eq_powi power_int_add)

lemma pow2_diff: "pow2 (a - b) = pow2 a / pow2 b"
  by (simp add: pow2_eq_powi power_int_diff)

lemma pow2_1 [simp]: "pow2 1 = 2"
  by (simp add: pow2_def)

lemma pow2_Suc: "pow2 (a + 1) = 2 * pow2 a"
  by (simp add: pow2_add)

lemma pow2_mono: "a \<le> b \<Longrightarrow> pow2 a \<le> pow2 b"
  by (simp add: pow2_eq_powi power_int_increasing)

lemma pow2_strict_mono: "a < b \<Longrightarrow> pow2 a < pow2 b"
  by (simp add: pow2_eq_powi power_int_strict_increasing)

lemma pow2_le_iff [simp]: "pow2 a \<le> pow2 b \<longleftrightarrow> a \<le> b"
  by (metis linorder_not_less pow2_mono pow2_strict_mono)

lemma pow2_less_iff [simp]: "pow2 a < pow2 b \<longleftrightarrow> a < b"
  by (metis linorder_not_less pow2_le_iff)

lemma pow2_nat: "0 \<le> k \<Longrightarrow> pow2 k = of_int (2 ^ nat k)"
  by (simp add: pow2_def)

subsection \<open>The binary exponent\<close>

lemma bitlen_pow2:
  assumes "0 < n" shows "pow2 (bitlen n - 1) \<le> of_int n" "of_int n < pow2 (bitlen n)"
proof -
  have b: "0 < bitlen n" using assms bitlen_nonneg [of n] bitlen_eq_zero_iff [of n] by linarith
  from bitlen_bounds [OF assms] have lo: "2 ^ nat (bitlen n - 1) \<le> n"
    and hi: "n < 2 ^ nat (bitlen n)" by simp_all
  from lo have "of_int (2 ^ nat (bitlen n - 1)) \<le> (of_int n :: rat)"
    by (simp only: of_int_le_iff)
  then show "pow2 (bitlen n - 1) \<le> of_int n" using b by (simp add: pow2_def)
  from hi have "(of_int n :: rat) < of_int (2 ^ nat (bitlen n))"
    by (simp only: of_int_less_iff)
  then show "of_int n < pow2 (bitlen n)" using b by (simp add: pow2_def)
qed

lemma ilog2_bounds:
  assumes "0 < x" shows "pow2 (ilog2 x) \<le> x" "x < pow2 (ilog2 x + 1)"
proof -
  obtain n d where q: "quotient_of x = (n, d)" by fastforce
  have d: "0 < d" and x: "x = of_int n / of_int d"
    using q by (rule quotient_of_denom_pos, rule quotient_of_div)
  have n: "0 < n" using assms x d by (simp add: zero_less_divide_iff)
  let ?e = "bitlen n - bitlen d"
  have "of_int n < pow2 (bitlen n - (bitlen d - 1)) * pow2 (bitlen d - 1)"
    using bitlen_pow2(2) [OF n] by (simp flip: pow2_add)
  also have "\<dots> \<le> pow2 (bitlen n - (bitlen d - 1)) * of_int d"
    using bitlen_pow2(1) [OF d] by (simp add: mult_left_mono)
  finally have up: "x < pow2 (?e + 1)" using d x
    by (simp add: pos_divide_less_eq algebra_simps)
  have "pow2 (?e - 1) * of_int d < pow2 (?e - 1) * pow2 (bitlen d)"
    using bitlen_pow2(2) [OF d] by simp
  also have "\<dots> \<le> of_int n"
    using bitlen_pow2(1) [OF n] by (simp flip: pow2_add)
  finally have lo: "pow2 (?e - 1) < x" using d x by (simp add: pos_less_divide_eq)
  show "pow2 (ilog2 x) \<le> x" using lo by (simp add: ilog2_def q Let_def)
  show "x < pow2 (ilog2 x + 1)" using up by (simp add: ilog2_def q Let_def)
qed

lemma ilog2_unique: "pow2 e \<le> x \<Longrightarrow> x < pow2 (e + 1) \<Longrightarrow> ilog2 x = e"
proof -
  assume lo: "pow2 e \<le> x" and hi: "x < pow2 (e + 1)"
  have x: "0 < x" using lo pow2_pos [of e] by linarith
  have "pow2 e < pow2 (ilog2 x + 1)" "pow2 (ilog2 x) < pow2 (e + 1)"
    using ilog2_bounds [OF x] lo hi by linarith+
  then show ?thesis by simp
qed

lemma ilog2_mono: "0 < x \<Longrightarrow> x \<le> y \<Longrightarrow> ilog2 x \<le> ilog2 y"
proof -
  assume "0 < x" "x \<le> y"
  then have "pow2 (ilog2 x) < pow2 (ilog2 y + 1)"
    using ilog2_bounds(1) [of x] ilog2_bounds(2) [of y] by linarith
  then show ?thesis by simp
qed

lemma ilog2_ge: "pow2 e \<le> x \<Longrightarrow> e \<le> ilog2 x"
proof -
  assume a: "pow2 e \<le> x"
  then have x: "0 < x" using pow2_pos [of e] by linarith
  have "pow2 e < pow2 (ilog2 x + 1)" using a ilog2_bounds(2) [OF x] by linarith
  then show ?thesis by simp
qed

lemma ilog2_less: "0 < x \<Longrightarrow> x < pow2 e \<Longrightarrow> ilog2 x < e"
  using ilog2_bounds(1) [of x] by (metis order_le_less_trans pow2_less_iff)

subsection \<open>Rounding to an integer\<close>

lemma round_half_even_near: "\<bar>of_int (round_half_even x) - x\<bar> \<le> 1 / 2"
proof -
  have "of_int \<lfloor>x\<rfloor> \<le> x" "x < of_int \<lfloor>x\<rfloor> + 1" by linarith+
  then show ?thesis unfolding round_half_even_def Let_def abs_le_iff
    by (simp split: if_split) linarith
qed

lemma round_half_even_of_int [simp]: "round_half_even (of_int n) = n"
  by (simp add: round_half_even_def)

lemma round_half_even_0 [simp]: "round_half_even 0 = 0"
  using round_half_even_of_int [of 0] by simp

lemma round_half_even_le: "round_half_even x \<le> \<lfloor>x\<rfloor> + 1" "\<lfloor>x\<rfloor> \<le> round_half_even x"
  by (auto simp: round_half_even_def Let_def)

lemma round_half_even_mono: "x \<le> y \<Longrightarrow> round_half_even x \<le> round_half_even y"
proof -
  assume xy: "x \<le> y"
  show ?thesis
  proof (cases "\<lfloor>x\<rfloor> = \<lfloor>y\<rfloor>")
    case True
    then show ?thesis using xy by (auto simp: round_half_even_def Let_def)
  next
    case False
    then have "\<lfloor>x\<rfloor> + 1 \<le> \<lfloor>y\<rfloor>" using floor_mono [OF xy] by linarith
    then show ?thesis using round_half_even_le [of x] round_half_even_le [of y] by linarith
  qed
qed

lemma round_half_even_minus: "round_half_even (- x) = - round_half_even x"
proof (cases "x \<in> \<int>")
  case True
  then obtain n where "x = of_int n" by (auto elim: Ints_cases)
  then show ?thesis using round_half_even_of_int [of "- n"] by simp
next
  case False
  then have "\<lceil>x\<rceil> = \<lfloor>x\<rfloor> + 1" by (metis Ints_of_int ceiling_altdef)
  then have c: "\<lfloor>- x\<rfloor> = - \<lfloor>x\<rfloor> - 1" by (simp add: ceiling_def)
  show ?thesis
    unfolding round_half_even_def Let_def c by auto
qed

subsection \<open>Rounding to 53 significant bits\<close>

lemma round53_0 [simp]: "round53 0 = 0"
  by (simp add: round53_def)

lemma ulp_exp_minus [simp]: "ulp_exp (- x) = ulp_exp x"
  by (simp add: ulp_exp_def)

lemma ulp_exp_ge: "- 1074 \<le> ulp_exp x"
  by (simp add: ulp_exp_def)

lemma ulp_exp_mono: "x \<noteq> 0 \<Longrightarrow> \<bar>x\<bar> \<le> \<bar>y\<bar> \<Longrightarrow> ulp_exp x \<le> ulp_exp y"
  using ilog2_mono [of "\<bar>x\<bar>" "\<bar>y\<bar>"] by (auto simp: ulp_exp_def)

lemma round53_minus: "round53 (- x) = - round53 x"
  by (simp add: round53_def round_half_even_minus)

lemma round53_on_grid: "\<exists>m. round53 x = of_int m * pow2 (ulp_exp x)"
  by (cases "x = 0") (auto simp: round53_def intro: exI [of _ 0])

lemma round53_exact: "x = of_int m * pow2 (ulp_exp x) \<Longrightarrow> round53 x = x"
proof (cases "x = 0")
  case False
  assume "x = of_int m * pow2 (ulp_exp x)"
  then have "x / pow2 (ulp_exp x) = of_int m" by (metis nonzero_mult_div_cancel_right pow2_neq_0)
  then show ?thesis using False \<open>x = of_int m * pow2 (ulp_exp x)\<close>
    by (simp add: round53_def)
qed simp

lemma pow2_on_grid: "k \<le> j \<Longrightarrow> pow2 j = of_int (2 ^ nat (j - k)) * pow2 k"
  using pow2_add [of "j - k" k] pow2_nat [of "j - k"] by simp

lemma round53_bounds_pow2:
  assumes "0 < x" "ulp_exp x \<le> j"
  shows "x \<le> pow2 j \<Longrightarrow> round53 x \<le> pow2 j" "pow2 j \<le> x \<Longrightarrow> pow2 j \<le> round53 x"
proof -
  let ?k = "ulp_exp x" and ?n = "2 ^ nat (j - ulp_exp x) :: int"
  have j: "pow2 j = of_int ?n * pow2 ?k" using assms(2) by (rule pow2_on_grid)
  have r: "round53 x = of_int (round_half_even (x / pow2 ?k)) * pow2 ?k"
    using assms(1) by (simp add: round53_def)
  show "round53 x \<le> pow2 j" if "x \<le> pow2 j"
  proof -
    have "x / pow2 ?k \<le> of_int ?n" using that j by (simp add: pos_divide_le_eq)
    then have "round_half_even (x / pow2 ?k) \<le> ?n"
      using round_half_even_mono round_half_even_of_int by metis
    then show ?thesis unfolding r j by (intro mult_right_mono) (simp_all only: of_int_le_iff pow2_nonneg)
  qed
  show "pow2 j \<le> round53 x" if "pow2 j \<le> x"
  proof -
    have "of_int ?n \<le> x / pow2 ?k" using that j by (simp add: pos_le_divide_eq)
    then have "?n \<le> round_half_even (x / pow2 ?k)"
      using round_half_even_mono round_half_even_of_int by metis
    then show ?thesis unfolding r j by (intro mult_right_mono) (simp_all only: of_int_le_iff pow2_nonneg)
  qed
qed

lemma round53_nonneg: "0 \<le> x \<Longrightarrow> 0 \<le> round53 x"
  using round_half_even_mono [of 0 "x / pow2 (ulp_exp x)"] by (simp add: round53_def)

lemma round53_mono_pos:
  assumes "0 < x" "x \<le> y" shows "round53 x \<le> round53 y"
proof (cases "ulp_exp x = ulp_exp y")
  case True
  have "x / pow2 (ulp_exp y) \<le> y / pow2 (ulp_exp y)" using assms by (simp add: divide_right_mono)
  then show ?thesis using True assms
    by (auto simp: round53_def intro!: mult_right_mono round_half_even_mono)
next
  case False
  let ?j = "ilog2 y"
  have lt: "ulp_exp x < ulp_exp y" using False assms ulp_exp_mono [of x y] by simp
  then have y: "ulp_exp y = ?j - 52"
    using assms ulp_exp_ge [of x] by (simp add: ulp_exp_def max_def split: if_splits)
  then have "ilog2 x < ?j" using lt assms by (simp add: ulp_exp_def)
  then have "x \<le> pow2 ?j"
    using ilog2_bounds(2) [OF assms(1)] pow2_mono [of "ilog2 x + 1" ?j] by linarith
  then have "round53 x \<le> pow2 ?j" using lt y assms by (intro round53_bounds_pow2) simp_all
  also have "\<dots> \<le> round53 y"
    using y assms ilog2_bounds(1) [of y] by (intro round53_bounds_pow2) simp_all
  finally show ?thesis .
qed

lemma round53_mono: "x \<le> y \<Longrightarrow> round53 x \<le> round53 y"
proof -
  assume xy: "x \<le> y"
  consider "0 < x" | "x \<le> 0" "0 \<le> y" | "y < 0" using xy by linarith
  then show ?thesis
  proof cases
    case 1
    then show ?thesis using xy by (rule round53_mono_pos)
  next
    case 2
    then have "round53 x \<le> 0" using round53_nonneg [of "- x"] by (simp add: round53_minus)
    then show ?thesis using round53_nonneg [OF 2(2)] by linarith
  next
    case 3
    then show ?thesis using round53_mono_pos [of "- y" "- x"] xy by (simp add: round53_minus)
  qed
qed

subsection \<open>Rounding errors\<close>

lemma round53_error: "\<bar>round53 x - x\<bar> \<le> pow2 (ulp_exp x - 1)"
proof (cases "x = 0")
  case False
  let ?p = "pow2 (ulp_exp x)"
  have "round53 x - x = (of_int (round_half_even (x / ?p)) - x / ?p) * ?p"
    using False by (simp add: round53_def algebra_simps)
  then have "\<bar>round53 x - x\<bar> = \<bar>of_int (round_half_even (x / ?p)) - x / ?p\<bar> * ?p"
    by (simp add: abs_mult)
  also have "\<dots> \<le> 1 / 2 * ?p" by (intro mult_right_mono round_half_even_near) simp
  also have "\<dots> = pow2 (ulp_exp x - 1)" by (simp add: pow2_diff)
  finally show ?thesis .
qed simp

lemma round53_error_below:
  assumes "\<bar>x\<bar> < pow2 e" "- 1021 \<le> e" shows "\<bar>round53 x - x\<bar> \<le> pow2 (e - 54)"
proof (cases "x = 0")
  case False
  then have "ilog2 \<bar>x\<bar> < e" using assms(1) by (intro ilog2_less) simp_all
  then have "ulp_exp x - 1 \<le> e - 54" using assms(2) by (simp add: ulp_exp_def)
  then show ?thesis using round53_error [of x] pow2_mono by (meson order_trans)
qed simp

lemma round53_error_rel:
  assumes "pow2 (- 1022) \<le> \<bar>x\<bar>" shows "\<bar>round53 x - x\<bar> \<le> pow2 (- 53) * \<bar>x\<bar>"
proof -
  let ?e = "ilog2 \<bar>x\<bar>"
  have x: "0 < \<bar>x\<bar>" using assms pow2_pos [of "- 1022"] by linarith
  have "- 1022 \<le> ?e" using assms by (rule ilog2_ge)
  then have "\<bar>round53 x - x\<bar> \<le> pow2 (?e + 1 - 54)"
    using ilog2_bounds(2) [OF x] by (intro round53_error_below) simp_all
  also have "\<dots> = pow2 (- 53) * pow2 ?e" by (simp flip: pow2_add)
  also have "\<dots> \<le> pow2 (- 53) * \<bar>x\<bar>" using ilog2_bounds(1) [OF x] by simp
  finally show ?thesis .
qed


subsection \<open>Representable values\<close>

lemma round53_multiple:
  assumes x: "x = of_int m * pow2 k" and m: "\<bar>m\<bar> \<le> 2 ^ 53" and k: "- 1074 \<le> k"
  shows "round53 x = x"
proof (cases "x = 0")
  case False
  then have "m \<noteq> 0" using x by auto
  have ax: "\<bar>x\<bar> = of_int \<bar>m\<bar> * pow2 k" using x by (simp add: abs_mult)
  show ?thesis
  proof (cases "\<bar>m\<bar> = 2 ^ 53")
    case True
    have big: "\<bar>x\<bar> = pow2 (k + 53)" unfolding ax True by (simp add: pow2_add) (simp add: pow2_def)
    have "ilog2 \<bar>x\<bar> = k + 53" unfolding big by (rule ilog2_unique) simp_all
    then have u: "ulp_exp x = k + 1" using k by (simp add: ulp_exp_def)
    have "x = of_int (sgn m * 2 ^ 52) * pow2 (ulp_exp x)"
    proof -
      have "m = sgn m * 2 ^ 53" using True \<open>m \<noteq> 0\<close> by (auto simp: sgn_if abs_if split: if_splits)
      then have "x = of_int (sgn m * 2 ^ 53) * pow2 k" using x by simp
      then show ?thesis unfolding u pow2_Suc by simp
    qed
    then show ?thesis by (rule round53_exact)
  next
    case False
    have "of_int \<bar>m\<bar> < (of_int (2 ^ 53) :: rat)" using m False by (simp only: of_int_less_iff)
    then have "of_int \<bar>m\<bar> * pow2 k < of_int (2 ^ 53) * pow2 k"
      by (intro mult_strict_right_mono) simp_all
    also have "of_int (2 ^ 53) * pow2 k = pow2 (k + 53)" by (simp add: pow2_add) (simp add: pow2_def)
    finally have "\<bar>x\<bar> < pow2 (k + 53)" by (simp only: ax)
    then have "ilog2 \<bar>x\<bar> < k + 53" using \<open>x \<noteq> 0\<close> by (intro ilog2_less) simp_all
    then have u: "ulp_exp x \<le> k" using k by (simp add: ulp_exp_def)
    have "x = of_int (m * 2 ^ nat (k - ulp_exp x)) * pow2 (ulp_exp x)"
      using x pow2_on_grid [OF u] by simp
    then show ?thesis by (rule round53_exact)
  qed
qed simp

lemma round53_idem [simp]: "round53 (round53 x) = round53 x"
proof (cases "x = 0")
  case False
  let ?k = "ulp_exp x" and ?m = "round_half_even (x / pow2 (ulp_exp x))"
  have "\<bar>x\<bar> < pow2 (ilog2 \<bar>x\<bar> + 1)" using False by (intro ilog2_bounds) simp
  also have "\<dots> \<le> pow2 (?k + 53)" by (intro pow2_mono) (simp add: ulp_exp_def)
  also have "\<dots> = of_int (2 ^ 53) * pow2 ?k" by (simp add: pow2_add) (simp add: pow2_def)
  finally have "\<bar>x / pow2 ?k\<bar> < of_int (2 ^ 53)" by (simp add: abs_divide pos_divide_less_eq)
  then have "x / pow2 ?k \<le> of_int (2 ^ 53)" "of_int (- (2 ^ 53)) \<le> x / pow2 ?k"
    by (simp_all only: of_int_minus abs_less_iff less_imp_le minus_le_iff)
  then have "?m \<le> 2 ^ 53" "- (2 ^ 53) \<le> ?m"
    using round_half_even_mono round_half_even_of_int by metis+
  then have "\<bar>?m\<bar> \<le> 2 ^ 53" by linarith
  moreover have "round53 x = of_int ?m * pow2 ?k" using False by (simp add: round53_def)
  ultimately show ?thesis using ulp_exp_ge by (intro round53_multiple)
qed simp

lemma fl_eq_Fin: "fl x = Fin y \<longleftrightarrow> y = round53 x \<and> \<bar>round53 x\<bar> < pow2 1024"
  by (auto simp: fl_def Let_def abs_less_iff)

lemma is_f64_iff: "is_f64 x \<longleftrightarrow> round53 x = x \<and> \<bar>x\<bar> < pow2 1024"
  by (auto simp: is_f64_def fl_eq_Fin)

lemma fl_not_NaN [simp]: "fl x \<noteq> NaN"
  by (simp add: fl_def Let_def)

lemma fl_is_f64: "fl x = Fin y \<Longrightarrow> is_f64 y"
  by (simp add: is_f64_iff fl_eq_Fin)

lemma fl_finite: "\<bar>x\<bar> \<le> pow2 1023 \<Longrightarrow> fl x = Fin (round53 x)"
proof -
  assume x: "\<bar>x\<bar> \<le> pow2 1023"
  have "round53 (pow2 1023) = pow2 1023" using round53_multiple [of _ 1 1023] by simp
  then have "round53 x \<le> pow2 1023" "- pow2 1023 \<le> round53 x"
    using round53_mono [of x "pow2 1023"] round53_mono [of "- pow2 1023" x] x
    by (simp_all add: round53_minus abs_le_iff)
  moreover have "pow2 1023 < pow2 1024" by simp
  ultimately show ?thesis unfolding fl_eq_Fin abs_less_iff by linarith
qed

lemma is_f64_multiple:
  assumes "x = of_int m * pow2 k" "\<bar>m\<bar> \<le> 2 ^ 53" "- 1074 \<le> k" "k \<le> 900"
  shows "is_f64 x"
proof -
  have "of_int \<bar>m\<bar> \<le> (of_int (2 ^ 53) :: rat)" using assms(2) by (simp only: of_int_le_iff)
  then have "\<bar>x\<bar> \<le> of_int (2 ^ 53) * pow2 k"
    unfolding assms(1) abs_mult by (intro mult_mono) simp_all
  also have "\<dots> = pow2 (k + 53)" by (simp add: pow2_add) (simp add: pow2_def)
  also have "\<dots> < pow2 1024" using assms(4) by simp
  finally show ?thesis using round53_multiple [OF assms(1-3)] by (simp add: is_f64_iff)
qed

lemma fl_of_int: "\<bar>n\<bar> \<le> 2 ^ 53 \<Longrightarrow> fl (of_int n) = Fin (of_int n)"
  using is_f64_multiple [of "of_int n" n 0] by (simp add: is_f64_def)

lemma fl_0 [simp]: "fl 0 = Fin 0"
  using fl_of_int [of 0] by simp

lemma fl_1 [simp]: "fl 1 = Fin 1"
  using fl_of_int [of 1] by simp

lemma fl_numeral: "numeral n \<le> (2 ^ 53 :: int) \<Longrightarrow> fl (numeral n) = Fin (numeral n)"
  using fl_of_int [of "numeral n"] by simp

lemma fl_neg_numeral: "numeral n \<le> (2 ^ 53 :: int) \<Longrightarrow> fl (- numeral n) = Fin (- numeral n)"
  using fl_of_int [of "- numeral n"] by simp

text \<open>The overflow test of \<^const>\<open>fl\<close> without building the number \<open>2^1024\<close>.\<close>

lemma fl_code [code]:
  "fl x = (let y = round53 x
     in if y \<noteq> 0 \<and> 1024 \<le> ilog2 \<bar>y\<bar> then if 0 < y then PInf else NInf else Fin y)"
proof (cases "round53 x = 0")
  case True
  have "\<not> pow2 1024 \<le> 0" by (simp add: not_le)
  then show ?thesis using True by (simp add: fl_def Let_def)
next
  case False
  then have "1024 \<le> ilog2 \<bar>round53 x\<bar> \<longleftrightarrow> pow2 1024 \<le> \<bar>round53 x\<bar>"
    using ilog2_ge [of 1024 "\<bar>round53 x\<bar>"] ilog2_less [of "\<bar>round53 x\<bar>" 1024]
    by (metis linorder_not_less zero_less_abs_iff)
  moreover have "\<not> (round53 x < 0 \<and> pow2 1024 \<le> round53 x)"
    "\<not> (0 < round53 x \<and> round53 x \<le> - pow2 1024)"
    using pow2_pos [of 1024] by linarith+
  ultimately show ?thesis using False unfolding fl_def Let_def by (auto simp: abs_if)
qed


subsection \<open>The distance of neighbouring values\<close>

lemma is_f64_on_grid: "is_f64 x \<Longrightarrow> \<exists>m. x = of_int m * pow2 (ulp_exp x)"
  using round53_on_grid [of x] by (simp add: is_f64_iff)

lemma grid_gap: "x = of_int m * q \<Longrightarrow> 0 < q \<Longrightarrow> x \<noteq> 0 \<Longrightarrow> q \<le> \<bar>x :: rat\<bar>"
proof -
  assume x: "x = of_int m * q" and q: "0 < q" and "x \<noteq> 0"
  then have "1 \<le> \<bar>m\<bar>" by auto
  then have "(1 :: rat) \<le> of_int \<bar>m\<bar>" by (simp only: of_int_1_le_iff)
  then have "1 * q \<le> of_int \<bar>m\<bar> * q" using q by (intro mult_right_mono) simp_all
  then show ?thesis using x q by (simp add: abs_mult)
qed

lemma grid_diff:
  assumes "a = of_int m * pow2 j" "b = of_int n * pow2 k" "j \<le> k" "a \<noteq> b"
  shows "pow2 j \<le> \<bar>b - a\<bar>"
proof (rule grid_gap)
  show "b - a = of_int (n * 2 ^ nat (k - j) - m) * pow2 j"
    using assms(1,2) pow2_on_grid [OF assms(3)] by (simp add: algebra_simps)
qed (use assms(4) in simp_all)

text \<open>
  Two different representable values differ by at least \<open>2^-53\<close> of the larger magnitude.
\<close>

lemma f64_gap_ordered:
  assumes a: "is_f64 a" and b: "is_f64 b" and ab: "\<bar>a\<bar> \<le> \<bar>b\<bar>" "a \<noteq> b" "a \<noteq> 0"
  shows "pow2 (- 53) * \<bar>b\<bar> \<le> \<bar>b - a\<bar>"
proof -
  let ?e = "ilog2 \<bar>b\<bar>"
  have b0: "0 < \<bar>b\<bar>" using ab by linarith
  have bup: "\<bar>b\<bar> < pow2 (?e + 1)" and blow: "pow2 ?e \<le> \<bar>b\<bar>" using ilog2_bounds [OF b0] by auto
  obtain m where m: "a = of_int m * pow2 (ulp_exp a)" using is_f64_on_grid [OF a] by blast
  obtain n where n: "b = of_int n * pow2 (ulp_exp b)" using is_f64_on_grid [OF b] by blast
  have diff: "pow2 (ulp_exp a) \<le> \<bar>b - a\<bar>"
    using m n ulp_exp_mono [OF ab(3,1)] ab(2) by (rule grid_diff)
  have half: "pow2 (- 53) * \<bar>b\<bar> \<le> pow2 (?e - 52)"
    using bup mult_left_mono [of "\<bar>b\<bar>" "pow2 (?e + 1)" "pow2 (- 53)"]
    by (simp flip: pow2_add)
  consider "pow2 ?e \<le> \<bar>a\<bar>" | "\<bar>a\<bar> < pow2 ?e" "pow2 ?e < \<bar>b\<bar>"
    | "pow2 (?e - 1) \<le> \<bar>a\<bar>" "\<bar>b\<bar> = pow2 ?e" | "\<bar>a\<bar> < pow2 (?e - 1)"
    using blow by linarith
  then show ?thesis
  proof cases
    case 1
    then have "?e - 52 \<le> ulp_exp a" using ilog2_ge by (fastforce simp: ulp_exp_def)
    then show ?thesis using half diff pow2_mono by (meson order_trans)
  next
    case 2
    have "pow2 (ulp_exp b) \<le> \<bar>b\<bar>" using n b0 by (intro grid_gap [of b n]) auto
    then have "ulp_exp b \<le> ?e" by (rule ilog2_ge)
    then have e: "pow2 ?e = of_int (2 ^ nat (?e - ulp_exp b)) * pow2 (ulp_exp b)"
      by (rule pow2_on_grid)
    have "pow2 (ulp_exp b) \<le> \<bar>\<bar>b\<bar> - pow2 ?e\<bar>"
    proof (rule grid_diff [OF e _ order_refl])
      show "\<bar>b\<bar> = of_int \<bar>n\<bar> * pow2 (ulp_exp b)" by (subst n) (simp add: abs_mult)
    qed (use 2 in simp)
    moreover have "pow2 (?e - 52) \<le> pow2 (ulp_exp b)" by (intro pow2_mono) (simp add: ulp_exp_def)
    ultimately show ?thesis using half 2 by linarith
  next
    case 3
    then have "?e - 53 \<le> ulp_exp a" using ilog2_ge by (fastforce simp: ulp_exp_def)
    then have "pow2 (?e - 53) \<le> \<bar>b - a\<bar>" using diff pow2_mono by (meson order_trans)
    moreover have "pow2 (- 53) * \<bar>b\<bar> = pow2 (?e - 53)"
      by (subst 3(2)) (simp flip: pow2_add)
    ultimately show ?thesis by linarith
  next
    case 4
    then have "\<bar>b\<bar> / 2 \<le> \<bar>b - a\<bar>" 
      using blow abs_triangle_ineq2 [of b a] by (simp add: pow2_diff)
    moreover have "pow2 (- 53) * \<bar>b\<bar> \<le> 1 / 2 * \<bar>b\<bar>"
      by (intro mult_right_mono) (simp_all add: pow2_def)
    ultimately show ?thesis by linarith
  qed
qed

lemma f64_gap:
  assumes "is_f64 a" "is_f64 b" "a \<noteq> b"
  shows "pow2 (- 53) * \<bar>a\<bar> \<le> \<bar>b - a\<bar>" "pow2 (- 53) * \<bar>b\<bar> \<le> \<bar>b - a\<bar>"
proof -
  have small: "pow2 (- 53) * \<bar>x\<bar> \<le> \<bar>x\<bar>" for x
    using mult_right_mono [of "pow2 (- 53)" 1 "\<bar>x\<bar>"] by (simp add: pow2_def)
  have key: "pow2 (- 53) * \<bar>x\<bar> \<le> \<bar>y - x\<bar>" "pow2 (- 53) * \<bar>y\<bar> \<le> \<bar>y - x\<bar>"
    if "is_f64 x" "is_f64 y" "x \<noteq> y" "\<bar>x\<bar> \<le> \<bar>y\<bar>" for x y
  proof -
    show 1: "pow2 (- 53) * \<bar>y\<bar> \<le> \<bar>y - x\<bar>"
      using f64_gap_ordered [of x y] that small [of y] by (cases "x = 0") auto
    have "pow2 (- 53) * \<bar>x\<bar> \<le> pow2 (- 53) * \<bar>y\<bar>" using that(4) by simp
    then show "pow2 (- 53) * \<bar>x\<bar> \<le> \<bar>y - x\<bar>" using 1 by linarith
  qed
  show "pow2 (- 53) * \<bar>a\<bar> \<le> \<bar>b - a\<bar>" "pow2 (- 53) * \<bar>b\<bar> \<le> \<bar>b - a\<bar>"
    using key [of a b] key [of b a] assms by (auto simp: abs_minus_commute)
      (metis linorder_linear)+
qed


subsection \<open>Order and monotone operations\<close>

lemma f64_le_refl [simp]: "x \<noteq> NaN \<Longrightarrow> f64_le x x"
  by (cases x) auto

lemma f64_le_trans: "f64_le x y \<Longrightarrow> f64_le y z \<Longrightarrow> f64_le x z"
  by (cases x; cases y; cases z) auto

lemma f64_le_not_NaN: "f64_le x y \<Longrightarrow> x \<noteq> NaN \<and> y \<noteq> NaN"
  by (cases x; cases y) auto

lemma f64_le_linear: "x \<noteq> NaN \<Longrightarrow> y \<noteq> NaN \<Longrightarrow> f64_le x y \<or> f64_le y x"
  by (cases x; cases y) auto

lemma fl_mono: "x \<le> y \<Longrightarrow> f64_le (fl x) (fl y)"
proof -
  assume "x \<le> y"
  then have "round53 x \<le> round53 y" by (rule round53_mono)
  moreover have "\<not> (pow2 1024 \<le> z \<and> z \<le> - pow2 1024)" for z
    using pow2_pos [of 1024] by linarith
  ultimately show ?thesis by (auto simp: fl_def Let_def)
qed

lemma round_half_away_mono: "x \<le> y \<Longrightarrow> round_half_away x \<le> round_half_away y"
proof -
  assume xy: "x \<le> y"
  consider "0 \<le> x" | "x < 0" "0 \<le> y" | "y < 0" using xy by linarith
  then show ?thesis
  proof cases
    case 1
    then show ?thesis using xy by (simp add: round_half_away_def floor_mono)
  next
    case 2
    have "0 \<le> \<lfloor>1 / 2 - x\<rfloor>" "0 \<le> \<lfloor>y + 1 / 2\<rfloor>" using 2 by simp_all
    moreover have "round_half_away x = - \<lfloor>1 / 2 - x\<rfloor>" "round_half_away y = \<lfloor>y + 1 / 2\<rfloor>"
      using 2 by (simp_all add: round_half_away_def)
    ultimately show ?thesis by linarith
  next
    case 3
    have "\<lfloor>1 / 2 - y\<rfloor> \<le> \<lfloor>1 / 2 - x\<rfloor>" using xy by (intro floor_mono) simp
    then show ?thesis using 3 xy by (simp add: round_half_away_def)
  qed
qed

lemma round_half_away_of_int [simp]: "round_half_away (of_int n) = n"
proof (cases "0 \<le> n")
  case True
  then show ?thesis by (simp add: round_half_away_def floor_eq_iff)
next
  case False
  have "\<lfloor>1 / 2 - (of_int n :: rat)\<rfloor> = - n" by (simp add: floor_eq_iff)
  then show ?thesis using False by (simp add: round_half_away_def)
qed

lemma f64_round_mono: "f64_le x y \<Longrightarrow> f64_le (f64_round x) (f64_round y)"
  by (cases x; cases y) (auto simp: round_half_away_mono)

lemma f64_max_mono: "f64_le x y \<Longrightarrow> z \<noteq> NaN \<Longrightarrow> f64_le (f64_max x z) (f64_max y z)"
  by (cases x; cases y; cases z) (auto simp: f64_max_def)

lemma usize_max_int: "int usize_max = 2 ^ 64 - 1"
  by (simp add: usize_max_def)

lemma f64_to_usize_le: "f64_to_usize x \<le> usize_max"
proof (cases x)
  case (Fin a)
  have "int (f64_to_usize x) \<le> int usize_max" unfolding usize_max_int Fin by simp
  then show ?thesis by (simp only: of_nat_le_iff)
qed simp_all

lemma f64_to_usize_mono: "f64_le x y \<Longrightarrow> f64_to_usize x \<le> f64_to_usize y"
proof (cases "(\<exists>a. x = Fin a) \<and> (\<exists>b. y = Fin b)")
  case True
  then obtain a b where [simp]: "x = Fin a" "y = Fin b" by blast
  assume "f64_le x y"
  then have "\<lfloor>a\<rfloor> \<le> \<lfloor>b\<rfloor>" by (simp add: floor_mono)
  then show ?thesis by (auto simp del: power_numeral intro!: nat_mono)
next
  case False
  assume "f64_le x y"
  then show ?thesis using False f64_to_usize_le [of x] by (cases x; cases y) (auto simp del: f64_to_usize.simps(1))
qed

lemma f64_mul_add_mono:
  "0 \<le> s \<Longrightarrow> a \<le> b \<Longrightarrow>
     f64_le (f64_mul_add (Fin s) (Fin a) (Fin c)) (f64_mul_add (Fin s) (Fin b) (Fin c))"
  by (simp add: fl_mono mult_left_mono)

end
