(* ===== verification/Keys.thy ===== *)
theory Keys
  imports F64_Facts "HOL-Library.List_Lexorder"
begin

unbundle bit_operations_syntax

text \<open>
  \<^verbatim>\<open>src/key.rs\<close>: the \<^verbatim>\<open>Key\<close> trait and its implementations. A trait implementation is a
  record of its two methods; \<^verbatim>\<open>Ord\<close> is the \<open>linorder\<close> class of the key type. \<^verbatim>\<open>i128\<close>
  values are integers, read off a 128-bit word by \<open>sint\<close>. The locale \<open>key_contract\<close> is the
  documented contract of the trait (monotone, finite model inputs and monotone ordinals), with
  what the built-in implementations have in common made explicit (integral model inputs, the
  ranges); every built-in implementation is an interpretation of it.
\<close>

subsection \<open>The trait and its integer implementations\<close>

record 'k key_impl =
  to_model_input :: "'k \<Rightarrow> f64"
  to_exact_ordinal :: "'k \<Rightarrow> int"

text \<open>\<^verbatim>\<open>impl_key_unsigned!(u8, u16, u32, u64)\<close>.\<close>

definition unsigned_key :: "'a::len word key_impl" where
  "unsigned_key =
     \<lparr>to_model_input = (\<lambda>k. f64_of_int (uint k)),
      to_exact_ordinal = (\<lambda>k. uint k)\<rparr>"

text \<open>Signed integers: the words of a width in their signed order.\<close>

typedef (overloaded) 'a signed = "UNIV :: 'a::len word set"
  morphisms signed_word Signed
  by simp

lemma signed_word_Signed [simp]: "signed_word (Signed w) = w"
  by (rule Signed_inverse) simp

lemma Signed_signed_word [code abstype]: "Signed (signed_word k) = k"
  by (rule signed_word_inverse)

lemma signed_eq_iff: "a = b \<longleftrightarrow> sint (signed_word a) = sint (signed_word b)"
proof
  assume "sint (signed_word a) = sint (signed_word b)"
  then have "signed_word a = signed_word b" by (rule signed_word_eqI)
  then show "a = b" by (simp only: signed_word_inject)
qed simp

instantiation signed :: (len) linorder
begin

definition less_eq_signed :: "'a signed \<Rightarrow> 'a signed \<Rightarrow> bool" where
  "less_eq_signed a b \<longleftrightarrow> sint (signed_word a) \<le> sint (signed_word b)"

definition less_signed :: "'a signed \<Rightarrow> 'a signed \<Rightarrow> bool" where
  "less_signed a b \<longleftrightarrow> sint (signed_word a) < sint (signed_word b)"

instance
  by standard (auto simp: less_eq_signed_def less_signed_def signed_eq_iff)

end

text \<open>\<^verbatim>\<open>impl_key_signed!(i8, i16, i32, i64)\<close>.\<close>

definition signed_key :: "'a::len signed key_impl" where
  "signed_key =
     \<lparr>to_model_input = (\<lambda>k. f64_of_int (sint (signed_word k))),
      to_exact_ordinal = (\<lambda>k. sint (signed_word k))\<rparr>"

text \<open>\<^verbatim>\<open>(x as i128) ^ i128::MIN\<close>.\<close>

definition flip_sign :: "128 word \<Rightarrow> int" where
  "flip_sign x = sint (x XOR push_bit 127 1)"

definition u128_key :: "128 word key_impl" where
  "u128_key =
     \<lparr>to_model_input = (\<lambda>k. f64_of_int (uint k)),
      to_exact_ordinal = (\<lambda>k. flip_sign k)\<rparr>"

definition i128_key :: "128 signed key_impl" where
  "i128_key =
     \<lparr>to_model_input = (\<lambda>k. f64_of_int (sint (signed_word k))),
      to_exact_ordinal = (\<lambda>k. sint (signed_word k))\<rparr>"

subsection \<open>Byte strings\<close>

text \<open>\<^verbatim>\<open>from_be_bytes\<close> on a buffer of any length.\<close>

definition from_be_bytes :: "u8 list \<Rightarrow> int" where
  "from_be_bytes bs = foldl (\<lambda>acc b. acc * 256 + uint b) 0 bs"

text \<open>The first \<open>n\<close> bytes, padded with zeros on the right.\<close>

definition pad_prefix :: "nat \<Rightarrow> u8 list \<Rightarrow> u8 list" where
  "pad_prefix n bytes = (let len = min (length bytes) n in take len bytes @ replicate (n - len) 0)"

definition bytes_to_model_input :: "u8 list \<Rightarrow> f64" where
  "bytes_to_model_input bytes = f64_of_int (from_be_bytes (pad_prefix 8 bytes))"

definition bytes_to_exact_ordinal :: "u8 list \<Rightarrow> int" where
  "bytes_to_exact_ordinal bytes = flip_sign (word_of_int (from_be_bytes (pad_prefix 16 bytes)))"

text \<open>
  \<^verbatim>\<open>[u8; N]\<close>, \<^verbatim>\<open>String\<close> (through its UTF-8 bytes) and \<^verbatim>\<open>Vec<u8>\<close>: all three are ordered
  lexicographically by their bytes and share the two helpers.
\<close>

definition byte_array_key :: "u8 list key_impl" where
  "byte_array_key =
     \<lparr>to_model_input = bytes_to_model_input, to_exact_ordinal = bytes_to_exact_ordinal\<rparr>"

definition string_key :: "u8 list key_impl" where
  "string_key =
     \<lparr>to_model_input = bytes_to_model_input, to_exact_ordinal = bytes_to_exact_ordinal\<rparr>"

definition vec_u8_key :: "u8 list key_impl" where
  "vec_u8_key =
     \<lparr>to_model_input = bytes_to_model_input, to_exact_ordinal = bytes_to_exact_ordinal\<rparr>"

subsection \<open>The contract of the trait\<close>

fun f64_val :: "f64 \<Rightarrow> rat" where
  "f64_val (Fin q) = q"
| "f64_val _ = 0"

locale key_contract =
  fixes K :: "'k::linorder key_impl"
  assumes input_integer:
      "\<exists>z. to_model_input K k = Fin (of_int z) \<and> is_f64 (of_int z) \<and> \<bar>of_int z\<bar> \<le> pow2 128"
    and input_mono: "k \<le> k' \<Longrightarrow> f64_le (to_model_input K k) (to_model_input K k')"
    and ordinal_mono: "k \<le> k' \<Longrightarrow> to_exact_ordinal K k \<le> to_exact_ordinal K k'"
    and ordinal_range: "- (2 ^ 127) \<le> to_exact_ordinal K k \<and> to_exact_ordinal K k < 2 ^ 127"
    and ordinal_near:
      "k \<le> k' \<Longrightarrow>
         f64_lt (f64_abs (f64_sub (to_model_input K k') (to_model_input K k))) f64_epsilon \<Longrightarrow>
         to_exact_ordinal K k' - to_exact_ordinal K k < 2 ^ 127"
begin

lemma input_finite: "\<exists>q. to_model_input K k = Fin q \<and> is_f64 q \<and> \<bar>q\<bar> \<le> pow2 128"
  using input_integer [of k] by blast

lemma input_Fin: "to_model_input K k = Fin (f64_val (to_model_input K k))"
  using input_finite [of k] by auto

lemma input_is_f64: "is_f64 (f64_val (to_model_input K k))"
  using input_finite [of k] by auto

lemma input_bound: "\<bar>f64_val (to_model_input K k)\<bar> \<le> pow2 128"
  using input_finite [of k] by auto

lemma input_val_mono: "k \<le> k' \<Longrightarrow> f64_val (to_model_input K k) \<le> f64_val (to_model_input K k')"
  using input_mono [of k k'] input_finite [of k] input_finite [of k'] by auto

end


subsection \<open>Integers as model inputs\<close>

lemma round53_of_int: "\<exists>m. round53 (of_int n) = of_int m"
proof (cases "\<bar>n\<bar> \<le> 2 ^ 53")
  case True
  then show ?thesis using fl_of_int [of n] by (metis fl_eq_Fin)
next
  case False
  then have "pow2 53 \<le> \<bar>of_int n\<bar>"
    by (simp add: pow2_nat flip: of_int_abs of_int_power)
  then have "53 \<le> ilog2 \<bar>of_int n\<bar>" by (rule ilog2_ge)
  then have k: "0 \<le> ulp_exp (of_int n)" by (simp add: ulp_exp_def)
  obtain m where "round53 (of_int n) = of_int m * pow2 (ulp_exp (of_int n))"
    using round53_on_grid by blast
  then show ?thesis using k by (metis of_int_mult pow2_nat)
qed

lemma abs_of_int_le_pow2: "\<bar>n\<bar> \<le> 2 ^ e \<Longrightarrow> \<bar>of_int n\<bar> \<le> pow2 (int e)"
proof -
  assume "\<bar>n\<bar> \<le> 2 ^ e"
  then have "(of_int \<bar>n\<bar> :: rat) \<le> of_int (2 ^ e)" by (simp only: of_int_le_iff)
  then show ?thesis by (simp add: pow2_def)
qed

lemma f64_of_int_Fin:
  assumes "\<bar>n\<bar> \<le> 2 ^ 128"
  shows "f64_of_int n = Fin (round53 (of_int n))" "\<bar>round53 (of_int n)\<bar> \<le> pow2 128"
proof -
  have n: "\<bar>of_int n\<bar> \<le> pow2 128" using abs_of_int_le_pow2 [OF assms] by simp
  have "pow2 128 \<le> pow2 1023" by simp
  then show "f64_of_int n = Fin (round53 (of_int n))"
    using n unfolding f64_of_int_def by (intro fl_finite) linarith
  have "round53 (pow2 128) = pow2 128" by (rule round53_multiple [of _ 1 128]) simp_all
  then show "\<bar>round53 (of_int n)\<bar> \<le> pow2 128"
    using n round53_mono [of "of_int n" "pow2 128"] round53_mono [of "- pow2 128" "of_int n"]
    by (simp add: round53_minus abs_le_iff)
qed

lemma f64_of_int_finite:
  "\<bar>n\<bar> \<le> 2 ^ 128 \<Longrightarrow>
     \<exists>z. f64_of_int n = Fin (of_int z) \<and> is_f64 (of_int z) \<and> \<bar>of_int z\<bar> \<le> pow2 128"
  using f64_of_int_Fin [of n] round53_of_int [of n] fl_is_f64 f64_of_int_def by metis

lemma f64_of_int_mono: "n \<le> n' \<Longrightarrow> f64_le (f64_of_int n) (f64_of_int n')"
  by (simp add: f64_of_int_def fl_mono)

text \<open>Integers that the difference of their images cannot tell apart are close.\<close>

lemma f64_of_int_near:
  assumes n: "\<bar>n\<bar> < 2 ^ e" "e \<le> 128" and n': "\<bar>n'\<bar> < 2 ^ e" and "n \<le> n'" and e: "54 \<le> e"
    and near: "f64_lt (f64_abs (f64_sub (f64_of_int n') (f64_of_int n))) f64_epsilon"
  shows "n' - n \<le> 2 ^ (e - 53)"
proof -
  let ?q = "round53 (of_int n)" and ?q' = "round53 (of_int n')"
  have big: "(2 :: int) ^ e \<le> 2 ^ 128" using n(2) by (intro power_increasing) simp_all
  have q: "f64_of_int n = Fin ?q" "\<bar>?q\<bar> \<le> pow2 128" and q': "f64_of_int n' = Fin ?q'" "\<bar>?q'\<bar> \<le> pow2 128"
    using f64_of_int_Fin [of n] f64_of_int_Fin [of n'] n n' big by auto
  have "pow2 129 \<le> pow2 1023" by simp
  moreover have "pow2 129 = 2 * pow2 128" using pow2_Suc [of 128] by simp
  ultimately have "\<bar>?q' - ?q\<bar> \<le> pow2 1023" using q(2) q'(2) by linarith
  then have sub: "f64_sub (f64_of_int n') (f64_of_int n) = Fin (round53 (?q' - ?q))"
    using q(1) q'(1) by (simp add: f64_sub_def fl_finite)
  have "?q \<le> ?q'" using assms(4) by (simp add: round53_mono)
  moreover have "\<not> 1 \<le> ?q' - ?q"
  proof
    assume "1 \<le> ?q' - ?q"
    then have "round53 1 \<le> round53 (?q' - ?q)" by (rule round53_mono)
    moreover have "round53 1 = 1" using fl_1 fl_eq_Fin by metis
    moreover have "pow2 (- 52) \<le> pow2 0" by (rule pow2_mono) simp
    ultimately show False using near sub by (simp add: f64_epsilon_def)
  qed
  moreover obtain m m' where "?q = of_int m" "?q' = of_int m'" using round53_of_int by metis
  ultimately have same: "?q' = ?q" by auto
  have lt: "\<bar>of_int k\<bar> < pow2 (int e)" if "\<bar>k\<bar> < 2 ^ e" for k
  proof -
    have "(of_int \<bar>k\<bar> :: rat) < of_int (2 ^ e)" using that by (simp only: of_int_less_iff)
    then show ?thesis by (simp add: pow2_def)
  qed
  have "\<bar>?q - of_int n\<bar> \<le> pow2 (int e - 54)" "\<bar>?q' - of_int n'\<bar> \<le> pow2 (int e - 54)"
    by (intro round53_error_below lt n n'; use e in simp)+
  then have "of_int (n' - n) \<le> 2 * pow2 (int e - 54)" using same by simp
  also have "\<dots> = pow2 (int (e - 53))" using pow2_Suc [of "int e - 54"] e by (simp add: of_nat_diff)
  also have "\<dots> = of_int (2 ^ (e - 53))" by (simp add: pow2_def)
  finally show ?thesis by (simp only: of_int_le_iff)
qed


subsection \<open>The sign flip keeps the order\<close>

lemma bit_top:
  assumes "0 \<le> u" "u < 2 ^ Suc n" shows "bit (u :: int) n \<longleftrightarrow> 2 ^ n \<le> u"
proof -
  have "u div 2 ^ n = 1" if "2 ^ n \<le> u"
    using that assms by (simp add: div_pos_geq div_pos_pos_trivial)
  then show ?thesis using assms by (cases "2 ^ n \<le> u") (auto simp: bit_iff_odd)
qed

lemma flip_bit_top:
  assumes "0 \<le> u" "u < 2 ^ Suc n"
  shows "flip_bit n (u :: int) = (if 2 ^ n \<le> u then u - 2 ^ n else u + 2 ^ n)"
  using bit_top [OF assms] by (simp add: flip_bit_eq_if set_bit_eq unset_bit_eq)

lemma flip_sign_uint: "flip_sign x = uint x - 2 ^ 127"
proof -
  let ?u = "uint x" and ?v = "flip_bit 127 (uint x)"
  have u: "0 \<le> ?u" "?u < 2 ^ Suc 127" using uint_lt2p [of x] by simp_all
  have f: "uint (x XOR push_bit 127 1) = ?v"
    by (simp add: uint_xor flip_bit_eq_xor)
  have v: "?v = (if 2 ^ 127 \<le> ?u then ?u - 2 ^ 127 else ?u + 2 ^ 127)"
    using u by (rule flip_bit_top)
  then have b: "0 \<le> ?v" "?v < 2 ^ Suc 127" using u by (simp_all split: if_splits)
  have "flip_sign x = signed_take_bit 127 ?v"
    unfolding flip_sign_def sint_uint f by simp
  also have "\<dots> = take_bit (Suc 127) ?v - 2 ^ Suc 127 * of_bool (bit ?v 127)"
    by (rule signed_take_bit_eq_take_bit_minus)
  also have "take_bit (Suc 127) ?v = ?v" using b by (rule take_bit_int_eq_self)
  also have "bit ?v 127 \<longleftrightarrow> 2 ^ 127 \<le> ?v" using b by (rule bit_top)
  finally show ?thesis using v u by (simp split: if_splits)
qed

subsection \<open>Big-endian prefixes\<close>

fun prefix_value :: "nat \<Rightarrow> u8 list \<Rightarrow> int" where
  "prefix_value 0 bs = 0"
| "prefix_value (Suc n) [] = 0"
| "prefix_value (Suc n) (b # bs) = uint b * 256 ^ n + prefix_value n bs"

lemma from_be_bytes_acc:
  "foldl (\<lambda>acc b. acc * 256 + uint (b :: u8)) a bs = a * 256 ^ length bs + from_be_bytes bs"
proof (induction bs arbitrary: a)
  case (Cons b bs)
  show ?case
    using Cons.IH [of "a * 256 + uint b"] Cons.IH [of "uint b"]
    by (simp add: from_be_bytes_def algebra_simps)
qed (simp add: from_be_bytes_def)

lemma from_be_bytes_Cons: "from_be_bytes (b # bs) = uint b * 256 ^ length bs + from_be_bytes bs"
  using from_be_bytes_acc [of "uint b" bs] by (simp add: from_be_bytes_def)

lemma from_be_bytes_zeros: "from_be_bytes (replicate n 0) = 0"
  by (induction n) (simp_all add: from_be_bytes_Cons, simp add: from_be_bytes_def)

lemma from_be_bytes_pad: "from_be_bytes (pad_prefix n bs) = prefix_value n bs"
proof (induction n bs rule: prefix_value.induct)
  case (1 bs)
  then show ?case by (simp add: pad_prefix_def from_be_bytes_def)
next
  case (2 n)
  show ?case using from_be_bytes_zeros [of "Suc n"] by (simp add: pad_prefix_def)
next
  case (3 n b bs)
  have "pad_prefix (Suc n) (b # bs) = b # pad_prefix n bs" by (simp add: pad_prefix_def Let_def)
  moreover have "length (pad_prefix n bs) = n" by (simp add: pad_prefix_def Let_def)
  ultimately show ?case using 3 by (simp add: from_be_bytes_Cons)
qed

lemma uint_u8: "uint (b :: u8) < 256" "0 \<le> uint b"
  using uint_lt2p [of b] by simp_all

lemma prefix_value_nonneg: "0 \<le> prefix_value n bs"
  by (induction n bs rule: prefix_value.induct) simp_all

lemma prefix_value_less: "prefix_value n bs < 256 ^ n"
proof (induction n bs rule: prefix_value.induct)
  case (3 n b bs)
  have "uint b * 256 ^ n \<le> 255 * 256 ^ n" using uint_u8 [of b] by (intro mult_right_mono) simp_all
  with 3 have "uint b * 256 ^ n + prefix_value n bs < 256 * 256 ^ n" by linarith
  then show ?case by simp
qed simp_all

lemma prefix_value_mono: "bs \<le> cs \<Longrightarrow> prefix_value n bs \<le> prefix_value n cs"
proof (induction n bs arbitrary: cs rule: prefix_value.induct)
  case (2 n)
  show ?case using prefix_value_nonneg [of "Suc n" cs] by simp
next
  case (3 n b bs)
  from 3(2) obtain c ds where cs: "cs = c # ds" and lex: "b < c \<or> b = c \<and> bs \<le> ds"
    by (cases cs) auto
  show ?case
  proof (cases "b < c")
    case True
    then have "uint b + 1 \<le> uint c" by (simp add: word_less_def)
    then have "(uint b + 1) * 256 ^ n \<le> uint c * 256 ^ n" by (intro mult_right_mono) simp_all
    then show ?thesis
      using cs prefix_value_less [of n bs] prefix_value_nonneg [of n ds] by (simp add: algebra_simps)
  qed (use 3(1) lex cs in simp)
qed simp

lemma prefix_value_split:
  "prefix_value (m + n) bs = prefix_value m bs * 256 ^ n + prefix_value n (drop m bs)"
proof (induction m bs rule: prefix_value.induct)
  case (2 m)
  show ?case by (cases n) simp_all
qed (simp_all add: power_add algebra_simps)

lemma bytes_to_exact_ordinal_eq:
  "bytes_to_exact_ordinal bs = prefix_value 16 bs - 2 ^ 127"
proof -
  have "prefix_value 16 bs < 2 ^ 128" using prefix_value_less [of 16 bs] by simp
  then have "uint (word_of_int (prefix_value 16 bs) :: 128 word) = prefix_value 16 bs"
    using prefix_value_nonneg by (simp add: uint_word_of_int)
  then show ?thesis by (simp add: bytes_to_exact_ordinal_def flip_sign_uint from_be_bytes_pad)
qed


subsection \<open>The built-in implementations meet the contract\<close>

lemma unsigned_key_contract:
  assumes "LENGTH('a) \<le> 64" shows "key_contract (unsigned_key :: 'a::len word key_impl)"
proof -
  have b: "\<bar>uint (k :: 'a word)\<bar> < 2 ^ 64" for k
  proof -
    have "uint k < 2 ^ LENGTH('a)" by (rule uint_lt2p)
    also have "(2 :: int) ^ LENGTH('a) \<le> 2 ^ 64" using assms by (intro power_increasing) simp_all
    finally show ?thesis by simp
  qed
  have b128: "\<bar>uint (k :: 'a word)\<bar> \<le> 2 ^ 128" for k using b [of k] by simp
  show ?thesis
  proof
    fix k k' :: "'a word"
    show "\<exists>z. to_model_input unsigned_key k = Fin (of_int z) \<and> is_f64 (of_int z) \<and> \<bar>of_int z\<bar> \<le> pow2 128"
      using f64_of_int_finite [OF b128] by (simp add: unsigned_key_def)
    have "0 \<le> uint k" "uint k < 2 ^ 127" "uint k' < 2 ^ 127" using b [of k] b [of k'] by simp_all
    then show "- (2 ^ 127) \<le> to_exact_ordinal unsigned_key k \<and>
        to_exact_ordinal unsigned_key k < 2 ^ 127"
      unfolding unsigned_key_def key_impl.simps by linarith
    have "0 \<le> uint k" "uint k' < 2 ^ 127" using b [of k'] by simp_all
    then show "to_exact_ordinal unsigned_key k' - to_exact_ordinal unsigned_key k < 2 ^ 127"
      unfolding unsigned_key_def key_impl.simps by linarith
    assume "k \<le> k'"
    then show "f64_le (to_model_input unsigned_key k) (to_model_input unsigned_key k')"
      and "to_exact_ordinal unsigned_key k \<le> to_exact_ordinal unsigned_key k'"
      by (simp_all add: unsigned_key_def f64_of_int_mono word_le_def)
  qed
qed

lemma sint_range:
  "LENGTH('a) \<le> 128 \<Longrightarrow> - (2 ^ 127) \<le> sint (w :: 'a::len word) \<and> sint w < 2 ^ 127"
proof -
  assume "LENGTH('a) \<le> 128"
  then have "(2 :: int) ^ (LENGTH('a) - 1) \<le> 2 ^ 127" by (intro power_increasing) simp_all
  then show ?thesis using sint_ge [of w] sint_lt [of w] by linarith
qed

lemma sint_bound:
  "LENGTH('a) \<le> 128 \<Longrightarrow> \<bar>sint (w :: 'a::len word)\<bar> < 2 ^ 128"
proof -
  assume "LENGTH('a) \<le> 128"
  then have "(2 :: int) ^ (LENGTH('a) - 1) \<le> 2 ^ 127" by (intro power_increasing) simp_all
  then show ?thesis using sint_ge [of w] sint_lt [of w] by (simp add: abs_less_iff)
qed

lemma signed_contract:
  assumes "LENGTH('a) \<le> 128"
    and K: "to_model_input K = (\<lambda>k :: 'a::len signed. f64_of_int (sint (signed_word k)))"
      "to_exact_ordinal K = (\<lambda>k. sint (signed_word k))"
  shows "key_contract K"
proof
  fix k k' :: "'a signed"
  have b: "\<bar>sint (signed_word k)\<bar> < 2 ^ 128" "\<bar>sint (signed_word k')\<bar> < 2 ^ 128"
    using assms(1) by (rule sint_bound)+
  then show "\<exists>z. to_model_input K k = Fin (of_int z) \<and> is_f64 (of_int z) \<and> \<bar>of_int z\<bar> \<le> pow2 128"
    unfolding K by (intro f64_of_int_finite) simp
  show "- (2 ^ 127) \<le> to_exact_ordinal K k \<and> to_exact_ordinal K k < 2 ^ 127"
    unfolding K using assms(1) by (rule sint_range)
  assume le: "k \<le> k'"
  then show "f64_le (to_model_input K k) (to_model_input K k')"
    and "to_exact_ordinal K k \<le> to_exact_ordinal K k'"
    by (simp_all add: K f64_of_int_mono less_eq_signed_def)
  assume "f64_lt (f64_abs (f64_sub (to_model_input K k') (to_model_input K k))) f64_epsilon"
  then have "sint (signed_word k') - sint (signed_word k) \<le> 2 ^ (128 - 53)"
    using b le unfolding K less_eq_signed_def by (intro f64_of_int_near) simp_all
  then show "to_exact_ordinal K k' - to_exact_ordinal K k < 2 ^ 127" by (simp add: K)
qed

lemma u128_key_contract: "key_contract u128_key"
proof
  fix k k' :: "128 word"
  have b: "\<bar>uint k\<bar> < 2 ^ 128" "\<bar>uint k'\<bar> < 2 ^ 128"
    using uint_lt2p [of k] uint_lt2p [of k'] by simp_all
  then show "\<exists>z. to_model_input u128_key k = Fin (of_int z) \<and> is_f64 (of_int z) \<and> \<bar>of_int z\<bar> \<le> pow2 128"
    unfolding u128_key_def key_impl.simps by (intro f64_of_int_finite) simp
  show "- (2 ^ 127) \<le> to_exact_ordinal u128_key k \<and> to_exact_ordinal u128_key k < 2 ^ 127"
    using b uint_ge_0 [of k] by (simp add: u128_key_def flip_sign_uint)
  assume le: "k \<le> k'"
  then show "f64_le (to_model_input u128_key k) (to_model_input u128_key k')"
    and "to_exact_ordinal u128_key k \<le> to_exact_ordinal u128_key k'"
    by (simp_all add: u128_key_def f64_of_int_mono word_le_def flip_sign_uint)
  assume "f64_lt (f64_abs (f64_sub (to_model_input u128_key k') (to_model_input u128_key k)))
    f64_epsilon"
  then have "uint k' - uint k \<le> 2 ^ (128 - 53)"
    using b le unfolding u128_key_def key_impl.simps word_le_def
    by (intro f64_of_int_near) simp_all
  then show "to_exact_ordinal u128_key k' - to_exact_ordinal u128_key k < 2 ^ 127"
    by (simp add: u128_key_def flip_sign_uint)
qed

lemma bytes_contract:
  assumes K: "to_model_input K = bytes_to_model_input" "to_exact_ordinal K = bytes_to_exact_ordinal"
  shows "key_contract K"
proof
  fix k k' :: "u8 list"
  have b: "\<bar>prefix_value 8 bs\<bar> < 2 ^ 64" for bs
    using prefix_value_less [of 8 bs] prefix_value_nonneg [of 8 bs] by simp
  have b': "\<bar>prefix_value 8 bs\<bar> \<le> 2 ^ 128" for bs using b [of bs] by simp
  have mi: "to_model_input K bs = f64_of_int (prefix_value 8 bs)" for bs
    by (simp add: K bytes_to_model_input_def from_be_bytes_pad)
  show "\<exists>z. to_model_input K k = Fin (of_int z) \<and> is_f64 (of_int z) \<and> \<bar>of_int z\<bar> \<le> pow2 128"
    unfolding mi using b' by (rule f64_of_int_finite)
  show "- (2 ^ 127) \<le> to_exact_ordinal K k \<and> to_exact_ordinal K k < 2 ^ 127"
    using prefix_value_less [of 16 k] prefix_value_nonneg [of 16 k]
    by (simp add: K bytes_to_exact_ordinal_eq)
  assume "k \<le> k'"
  then have le: "prefix_value n k \<le> prefix_value n k'" for n by (rule prefix_value_mono)
  show "f64_le (to_model_input K k) (to_model_input K k')"
    unfolding mi using le by (rule f64_of_int_mono)
  show "to_exact_ordinal K k \<le> to_exact_ordinal K k'"
    using le by (simp add: K bytes_to_exact_ordinal_eq)
  assume "f64_lt (f64_abs (f64_sub (to_model_input K k') (to_model_input K k))) f64_epsilon"
  then have "prefix_value 8 k' - prefix_value 8 k \<le> 2 ^ (64 - 53)"
    unfolding mi by (intro f64_of_int_near b le) simp_all
  moreover have "prefix_value 16 bs = prefix_value 8 bs * 256 ^ 8 + prefix_value 8 (drop 8 bs)" for bs
    using prefix_value_split [of 8 8 bs] by simp
  ultimately have "prefix_value 16 k' - prefix_value 16 k < 2 ^ 127"
    using b [of "drop 8 k'"] prefix_value_nonneg [of 8 "drop 8 k"] by simp
  then show "to_exact_ordinal K k' - to_exact_ordinal K k < 2 ^ 127"
    by (simp add: K bytes_to_exact_ordinal_eq)
qed

interpretation u8: key_contract "unsigned_key :: 8 word key_impl"
  by (rule unsigned_key_contract) simp

interpretation u16: key_contract "unsigned_key :: 16 word key_impl"
  by (rule unsigned_key_contract) simp

interpretation u32: key_contract "unsigned_key :: 32 word key_impl"
  by (rule unsigned_key_contract) simp

interpretation u64: key_contract "unsigned_key :: 64 word key_impl"
  by (rule unsigned_key_contract) simp

interpretation i8: key_contract "signed_key :: 8 signed key_impl"
  by (rule signed_contract) (simp_all add: signed_key_def)

interpretation i16: key_contract "signed_key :: 16 signed key_impl"
  by (rule signed_contract) (simp_all add: signed_key_def)

interpretation i32: key_contract "signed_key :: 32 signed key_impl"
  by (rule signed_contract) (simp_all add: signed_key_def)

interpretation i64: key_contract "signed_key :: 64 signed key_impl"
  by (rule signed_contract) (simp_all add: signed_key_def)

interpretation u128: key_contract u128_key
  by (rule u128_key_contract)

interpretation i128: key_contract i128_key
  by (rule signed_contract) (simp_all add: i128_key_def)

interpretation byte_array: key_contract byte_array_key
  by (rule bytes_contract) (simp_all add: byte_array_key_def)

interpretation rust_string: key_contract string_key
  by (rule bytes_contract) (simp_all add: string_key_def)

interpretation vec_u8: key_contract vec_u8_key
  by (rule bytes_contract) (simp_all add: vec_u8_key_def)

end
