(* ===== verification/Config.thy ===== *)
theory Config
  imports F64
begin

text \<open>
  \<^verbatim>\<open>src/config.rs\<close> and \<^verbatim>\<open>src/error.rs\<close>: the tuning parameters of a map with their
  checked setters, and the errors of bulk loading. A failing \<^verbatim>\<open>assert!\<close> is the left summand
  of the result, with the panic message (up to the formatted value).
\<close>

type_synonym panic = string

record config =
  expansion_factor :: f64
  auto_rebuild :: bool
  rebuild_depth_threshold :: nat
  tombstone_ratio_threshold :: f64
  range_headroom :: f64

definition config_default :: config where
  "config_default =
     \<lparr>expansion_factor = Fin 2, auto_rebuild = True, rebuild_depth_threshold = 8,
      tombstone_ratio_threshold = Fin (1 / 2), range_headroom = Fin 0\<rparr>"

definition config_new :: config where
  "config_new = config_default"

definition set_expansion_factor :: "config \<Rightarrow> f64 \<Rightarrow> panic + config" where
  "set_expansion_factor c factor =
     (if f64_le (Fin 1) factor then Inr (c\<lparr>expansion_factor := factor\<rparr>)
      else Inl ''expansion_factor must be >= 1.0'')"

definition set_auto_rebuild :: "config \<Rightarrow> bool \<Rightarrow> config" where
  "set_auto_rebuild c enabled = c\<lparr>auto_rebuild := enabled\<rparr>"

definition set_rebuild_depth_threshold :: "config \<Rightarrow> nat \<Rightarrow> config" where
  "set_rebuild_depth_threshold c threshold = c\<lparr>rebuild_depth_threshold := threshold\<rparr>"

definition set_tombstone_ratio_threshold :: "config \<Rightarrow> f64 \<Rightarrow> panic + config" where
  "set_tombstone_ratio_threshold c threshold =
     (if f64_lt (Fin 0) threshold \<and> f64_le threshold (Fin 1)
      then Inr (c\<lparr>tombstone_ratio_threshold := threshold\<rparr>)
      else Inl ''tombstone_ratio_threshold must be in (0.0, 1.0]'')"

definition set_range_headroom :: "config \<Rightarrow> f64 \<Rightarrow> panic + config" where
  "set_range_headroom c headroom =
     (if f64_le (Fin 0) headroom then Inr (c\<lparr>range_headroom := headroom\<rparr>)
      else Inl ''range_headroom must be >= 0.0'')"

text \<open>\<^verbatim>\<open>Error\<close> and its \<^verbatim>\<open>Display\<close> implementation.\<close>

datatype error = EmptyData | NotSorted | InvalidKey string

fun error_display :: "error \<Rightarrow> string" where
  "error_display EmptyData = ''input data is empty''"
| "error_display NotSorted = ''input data is not sorted''"
| "error_display (InvalidKey detail) = ''invalid key: '' @ detail"

text \<open>
  What the setters guarantee, for finite parameters: the condition under which model fitting
  never panics and yields finite models.
\<close>

definition config_ok :: "config \<Rightarrow> bool" where
  "config_ok c \<longleftrightarrow>
     (\<exists>e. expansion_factor c = Fin e \<and> 1 \<le> e) \<and>
     (\<exists>h. range_headroom c = Fin h \<and> 0 \<le> h)"

lemma config_ok_default: "config_ok config_default"
  by (simp add: config_ok_def config_default_def)

lemma config_ok_setters:
  assumes "config_ok c"
  shows "set_expansion_factor c (Fin e) = Inr c' \<Longrightarrow> config_ok c'"
    and "config_ok (set_auto_rebuild c b)"
    and "config_ok (set_rebuild_depth_threshold c n)"
    and "set_tombstone_ratio_threshold c t = Inr c' \<Longrightarrow> config_ok c'"
    and "set_range_headroom c (Fin h) = Inr c' \<Longrightarrow> config_ok c'"
  using assms
  by (auto simp: config_ok_def set_expansion_factor_def set_auto_rebuild_def
      set_rebuild_depth_threshold_def set_tombstone_ratio_threshold_def set_range_headroom_def
      split: if_splits)

lemma error_display_inject: "error_display a = error_display b \<Longrightarrow> a = b"
  by (cases a; cases b) auto

end
