(* ===== verification/LinearModel.thy ===== *)
theory LinearModel
  imports Keys Config
begin

text \<open>
  \<^verbatim>\<open>src/model.rs\<close>: linear models, the slot they predict for a key, and the FMCD fitting of a
  model to sorted keys. Slot indices and array sizes are natural numbers; \<open>f64_to_usize\<close> keeps
  them in the range of \<^verbatim>\<open>usize\<close>.
\<close>

record linear_model =
  slope :: f64
  intercept :: f64
  midpoint :: "int option"

definition linear_new :: "f64 \<Rightarrow> f64 \<Rightarrow> linear_model" where
  "linear_new s i = \<lparr>slope = s, intercept = i, midpoint = None\<rparr>"

definition binary_split :: "int \<Rightarrow> linear_model" where
  "binary_split m = \<lparr>slope = Fin 0, intercept = Fin 0, midpoint = Some m\<rparr>"

definition constant_model :: linear_model where
  "constant_model = \<lparr>slope = Fin 0, intercept = Fin 0, midpoint = None\<rparr>"

definition predict_raw :: "linear_model \<Rightarrow> f64 \<Rightarrow> nat \<Rightarrow> nat" where
  "predict_raw m value array_size =
     (let pos = f64_mul_add (slope m) value (intercept m);
          pos = f64_to_usize (f64_max (f64_round pos) (Fin 0))
      in min pos (saturating_sub array_size 1))"

definition predict :: "'k key_impl \<Rightarrow> linear_model \<Rightarrow> 'k \<Rightarrow> nat \<Rightarrow> nat" where
  "predict K m key array_size =
     (case midpoint m of
        Some mid \<Rightarrow>
          (if to_exact_ordinal K key \<le> mid then 0 else saturating_sub array_size 1)
      | None \<Rightarrow>
          (let pos = f64_mul_add (slope m) (to_model_input K key) (intercept m);
               pos = f64_to_usize (f64_max (f64_round pos) (Fin 0))
           in min pos (saturating_sub array_size 1)))"

subsection \<open>Counting conflicts\<close>

definition count_conflicts_fast ::
    "nat \<Rightarrow> (nat \<Rightarrow> f64) \<Rightarrow> linear_model \<Rightarrow> nat \<Rightarrow> nat" where
  "count_conflicts_fast n key_input m array_size =
     fst (foldl
       (\<lambda>(conflicts, prev_slot) i.
          let slot = predict_raw m (key_input i) array_size
          in (if slot = prev_slot then conflicts + 1 else conflicts, slot))
       (0, predict_raw m (key_input 0) array_size) [1..<n])"

text \<open>The reference count of the tests: a flag per slot.\<close>

definition count_conflicts ::
    "nat \<Rightarrow> (nat \<Rightarrow> f64) \<Rightarrow> linear_model \<Rightarrow> nat \<Rightarrow> nat" where
  "count_conflicts n key_input m array_size =
     snd (foldl
       (\<lambda>(occupied, conflicts) i.
          let slot = predict_raw m (key_input i) array_size
          in if occupied ! slot then (occupied, conflicts + 1)
             else (occupied[slot := True], conflicts))
       (replicate array_size False, 0) [0..<n])"

subsection \<open>FMCD fitting\<close>

record fmcd_result =
  fmcd_model :: linear_model
  fmcd_array_size :: nat
  fmcd_conflicts :: nat

definition max_fmcd_candidates :: nat where
  "max_fmcd_candidates = 32"

definition fmcd_array :: "nat \<Rightarrow> f64 \<Rightarrow> f64 \<Rightarrow> nat" where
  "fmcd_array n expansion headroom_mult =
     f64_to_usize
       (f64_max
         (f64_ceil (f64_mul (f64_mul (f64_of_int (int n)) expansion) headroom_mult))
         (f64_of_int (int n)))"

definition max_key_gap :: "nat \<Rightarrow> (nat \<Rightarrow> f64) \<Rightarrow> f64" where
  "max_key_gap n key_input =
     foldl (\<lambda>g i. f64_max g (f64_sub (key_input (i + 1)) (key_input i))) (Fin 0) [0..<n - 1]"

text \<open>The line of a given slope through \<open>first \<mapsto> 0\<close>.\<close>

definition line_through :: "f64 \<Rightarrow> f64 \<Rightarrow> linear_model" where
  "line_through s first = linear_new s (f64_mul (f64_neg s) first)"

text \<open>The candidate loop, over the remaining values of \<^verbatim>\<open>j\<close>, with its two ways to stop.\<close>

fun fmcd_candidates ::
    "nat \<Rightarrow> (nat \<Rightarrow> f64) \<Rightarrow> nat \<Rightarrow> f64 \<Rightarrow> f64 \<Rightarrow> nat list \<Rightarrow> linear_model \<times> nat
     \<Rightarrow> linear_model \<times> nat" where
  "fmcd_candidates n key_input array_size max_gap max_slope [] best = best"
| "fmcd_candidates n key_input array_size max_gap max_slope (j # js) (best_model, best_conflicts) =
     (let s = f64_div (f64_of_int (int j)) max_gap
      in if f64_lt max_slope s then (best_model, best_conflicts)
         else
           let model = line_through s (key_input 0);
               conflicts = count_conflicts_fast n key_input model array_size;
               best = (if conflicts < best_conflicts then (model, conflicts)
                       else (best_model, best_conflicts))
           in if snd best = 0 then best
              else fmcd_candidates n key_input array_size max_gap max_slope js best)"

definition fit_fmcd :: "nat \<Rightarrow> (nat \<Rightarrow> f64) \<Rightarrow> f64 \<Rightarrow> f64 \<Rightarrow> panic + fmcd_result" where
  "fit_fmcd n key_input expansion headroom =
     (if n = 0 then Inl ''keys must be non-empty''
      else if \<not> f64_le (Fin 1) expansion then Inl ''expansion_factor must be >= 1.0''
      else if n = 1 then
        Inr \<lparr>fmcd_model = constant_model, fmcd_array_size = 1, fmcd_conflicts = 0\<rparr>
      else
        let headroom_mult = f64_add (Fin 1) headroom;
            array_size = fmcd_array n expansion headroom_mult;
            first = key_input 0;
            last = key_input (n - 1);
            key_range = f64_sub last first
        in if f64_lt (f64_abs key_range) f64_epsilon then
             Inr \<lparr>fmcd_model = linear_new (Fin 0) (f64_of_int (int (array_size div 2))),
                  fmcd_array_size = array_size, fmcd_conflicts = n - 1\<rparr>
           else
             let effective_range = f64_mul key_range headroom_mult;
                 lin_slope = f64_div (f64_of_int (int (array_size - 1))) effective_range;
                 lin_model = line_through lin_slope first;
                 lin_conflicts = count_conflicts_fast n key_input lin_model array_size
             in if lin_conflicts = 0 then
                  Inr \<lparr>fmcd_model = lin_model, fmcd_array_size = array_size,
                       fmcd_conflicts = 0\<rparr>
                else
                  let max_gap = max_key_gap n key_input;
                      best =
                        (if f64_lt f64_epsilon max_gap
                         then fmcd_candidates n key_input array_size max_gap
                                (f64_div (f64_of_int (int (array_size - 1))) key_range)
                                [1..<max_fmcd_candidates + 1] (lin_model, lin_conflicts)
                         else (lin_model, lin_conflicts))
                  in Inr \<lparr>fmcd_model = fst best, fmcd_array_size = array_size,
                          fmcd_conflicts = snd best\<rparr>)"

end
