(* ===== verification/LinearModel_Facts.thy ===== *)
theory LinearModel_Facts
  imports LinearModel
begin

text \<open>
  Predictions stay inside the array and are monotone for every model with a finite,
  non-negative slope; the fast conflict count agrees with the reference count on sorted keys;
  fitting returns such a model together with its exact conflict count.
\<close>

subsection \<open>Predictions\<close>

lemma predict_raw_less: "0 < n \<Longrightarrow> predict_raw m v n < n"
  by (simp add: predict_raw_def saturating_sub_def Let_def min_less_iff_disj)

lemma predict_less: "0 < n \<Longrightarrow> predict K m k n < n"
  by (simp add: predict_def saturating_sub_def Let_def min_less_iff_disj split: option.split)

lemma predict_eq_raw:
  "midpoint m = None \<Longrightarrow> predict K m k n = predict_raw m (to_model_input K k) n"
  by (simp add: predict_def predict_raw_def)

definition model_ok :: "linear_model \<Rightarrow> bool" where
  "model_ok m \<longleftrightarrow>
     midpoint m \<noteq> None \<or> (\<exists>s c. slope m = Fin s \<and> 0 \<le> s \<and> intercept m = Fin c)"

lemma model_ok_constant [simp]: "model_ok constant_model"
  by (simp add: model_ok_def constant_model_def)

lemma model_ok_split [simp]: "model_ok (binary_split i)"
  by (simp add: model_ok_def binary_split_def)

lemma model_ok_new [simp]: "0 \<le> s \<Longrightarrow> model_ok (linear_new (Fin s) (Fin c))"
  by (simp add: model_ok_def linear_new_def)

lemma predict_raw_mono:
  assumes "slope m = Fin s" "0 \<le> s" "intercept m = Fin c" "a \<le> b"
  shows "predict_raw m (Fin a) n \<le> predict_raw m (Fin b) n"
proof -
  have "f64_le (f64_mul_add (slope m) (Fin a) (intercept m)) (f64_mul_add (slope m) (Fin b) (intercept m))"
    using assms f64_mul_add_mono by simp
  then show ?thesis unfolding predict_raw_def Let_def
    by (intro min.mono f64_to_usize_mono f64_max_mono f64_round_mono order_refl) simp_all
qed

context key_contract
begin

lemma predict_mono:
  assumes "model_ok m" "k \<le> k'" shows "predict K m k n \<le> predict K m k' n"
proof (cases "midpoint m")
  case None
  then obtain s c where "slope m = Fin s" "0 \<le> s" "intercept m = Fin c"
    using assms(1) by (auto simp: model_ok_def)
  then show ?thesis
    using predict_raw_mono [OF _ _ _ input_val_mono [OF assms(2)]] None
    by (simp add: predict_eq_raw flip: input_Fin)
next
  case (Some mid)
  then show ?thesis using ordinal_mono [OF assms(2)] by (simp add: predict_def)
qed

end

subsection \<open>Conflict counts\<close>

lemma count_conflicts_fast_eq:
  assumes "0 < n"
  shows "count_conflicts_fast n ki m sz =
    card {i. 1 \<le> i \<and> i < n \<and> predict_raw m (ki i) sz = predict_raw m (ki (i - 1)) sz}"
proof -
  let ?p = "\<lambda>i. predict_raw m (ki i) sz"
  let ?A = "\<lambda>n. {i. 1 \<le> i \<and> i < n \<and> ?p i = ?p (i - 1)}"
  have "foldl (\<lambda>(conflicts, prev_slot) i. let slot = ?p i
           in (if slot = prev_slot then conflicts + 1 else conflicts, slot))
         (0, ?p 0) [1..<Suc n] = (card (?A (Suc n)), ?p n)" for n
  proof (induction n)
    case 0
    have "?A (Suc 0) = {}" by auto
    then show ?case by (simp del: Collect_empty_eq)
  next
    case (Suc n)
    have "?A (Suc (Suc n)) = (if ?p (Suc n) = ?p n then insert (Suc n) (?A (Suc n)) else ?A (Suc n))"
      by (auto simp: less_Suc_eq)
    then have "card (?A (Suc (Suc n))) = (if ?p (Suc n) = ?p n then card (?A (Suc n)) + 1 else card (?A (Suc n)))"
      by simp
    moreover have "[1..<Suc (Suc n)] = [1..<Suc n] @ [Suc n]" by simp
    ultimately show ?case using Suc.IH by (simp add: Let_def del: upt_Suc)
  qed
  from this [of "n - 1"] show ?thesis
    using assms by (simp add: count_conflicts_fast_def)
qed

lemma count_conflicts_eq:
  assumes "0 < sz"
  shows "count_conflicts n ki m sz = n - card ((\<lambda>i. predict_raw m (ki i) sz) ` {0..<n})"
proof -
  let ?p = "\<lambda>i. predict_raw m (ki i) sz"
  let ?f = "\<lambda>(occupied, conflicts) i. let slot = ?p i
          in if occupied ! slot then (occupied, conflicts + 1) else (occupied[slot := True], conflicts)"
  have "foldl ?f (replicate sz False, 0) [0..<n] =
      (map (\<lambda>j. j \<in> ?p ` {0..<n}) [0..<sz], n - card (?p ` {0..<n}))" for n
  proof (induction n)
    case 0
    then show ?case by (simp add: map_replicate_const)
  next
    case (Suc n)
    have lt: "?p n < sz" using assms by (rule predict_raw_less)
    have le: "card (?p ` {0..<n}) \<le> n" using card_image_le [of "{0..<n}" ?p] by simp
    have im: "?p ` {0..<Suc n} = insert (?p n) (?p ` {0..<n})" by (auto simp: less_Suc_eq)
    show ?case
    proof (cases "?p n \<in> ?p ` {0..<n}")
      case True
      then have "?p ` {0..<Suc n} = ?p ` {0..<n}" using im by auto
      then show ?thesis using True Suc.IH lt le by (simp add: Let_def Suc_diff_le)
    next
      case False
      have "(map (\<lambda>j. j \<in> ?p ` {0..<n}) [0..<sz])[?p n := True] =
          map (\<lambda>j. j \<in> ?p ` {0..<Suc n}) [0..<sz]"
        unfolding im using lt by (intro nth_equalityI) (auto simp: nth_list_update)
      then show ?thesis using False Suc.IH lt unfolding im by (simp add: Let_def)
    qed
  qed
  then show ?thesis by (simp add: count_conflicts_def)
qed

lemma adjacent_equal_count:
  fixes p :: "nat \<Rightarrow> nat"
  assumes "\<And>i j. i \<le> j \<Longrightarrow> j < Suc n \<Longrightarrow> p i \<le> p j"
  shows "card {i. 1 \<le> i \<and> i < Suc n \<and> p i = p (i - 1)} = Suc n - card (p ` {0..<Suc n})"
  using assms
proof (induction n)
  case 0
  have "{i. 1 \<le> i \<and> i < Suc 0 \<and> p i = p (i - 1)} = {}" by auto
  then show ?case by (simp del: Collect_empty_eq)
next
  case (Suc n)
  let ?A = "{i. 1 \<le> i \<and> i < Suc n \<and> p i = p (i - 1)}"
  have IH: "card ?A = Suc n - card (p ` {0..<Suc n})" using Suc by simp
  have le: "card (p ` {0..<Suc n}) \<le> Suc n" using card_image_le [of "{0..<Suc n}" p] by simp
  have im: "p ` {0..<Suc (Suc n)} = insert (p (Suc n)) (p ` {0..<Suc n})" by (auto simp: less_Suc_eq)
  have home: "p (Suc n) \<in> p ` {0..<Suc n} \<longleftrightarrow> p (Suc n) = p n"
  proof
    assume "p (Suc n) \<in> p ` {0..<Suc n}"
    then obtain i where "i < Suc n" "p (Suc n) = p i" by auto
    then show "p (Suc n) = p n" using Suc.prems [of i n] Suc.prems [of n "Suc n"] by simp
  qed auto
  have "{i. 1 \<le> i \<and> i < Suc (Suc n) \<and> p i = p (i - 1)} =
      (if p (Suc n) = p n then insert (Suc n) ?A else ?A)" by (auto simp: less_Suc_eq)
  then show ?case using IH le home im by (auto simp: card_insert_if Suc_diff_le)
qed

lemma no_conflicts_strict:
  assumes "count_conflicts_fast n ki m sz = 0"
    and mono: "\<And>i j. i \<le> j \<Longrightarrow> j < n \<Longrightarrow> predict_raw m (ki i) sz \<le> predict_raw m (ki j) sz"
    and "i < j" "j < n"
  shows "predict_raw m (ki i) sz < predict_raw m (ki j) sz"
proof -
  have "finite {i. 1 \<le> i \<and> i < n \<and> predict_raw m (ki i) sz = predict_raw m (ki (i - 1)) sz}"
    by simp
  then have "predict_raw m (ki j) sz \<noteq> predict_raw m (ki (j - 1)) sz"
    using assms(1,3,4) by (auto simp: count_conflicts_fast_eq)
  moreover have "predict_raw m (ki (j - 1)) sz \<le> predict_raw m (ki j) sz"
    "predict_raw m (ki i) sz \<le> predict_raw m (ki (j - 1)) sz"
    using assms(3,4) by (auto intro!: mono)
  ultimately show ?thesis by simp
qed


subsection \<open>Fitting\<close>

lemma round53_pow2: "- 1074 \<le> e \<Longrightarrow> round53 (pow2 e) = pow2 e"
  by (rule round53_multiple [of _ 1 e]) simp_all

lemma fl_bound:
  assumes "\<bar>x\<bar> \<le> pow2 e" "- 1074 \<le> e" "e \<le> 1023"
  shows "fl x = Fin (round53 x)" "\<bar>round53 x\<bar> \<le> pow2 e"
proof -
  have "pow2 e \<le> pow2 1023" using assms(3) by simp
  then show "fl x = Fin (round53 x)" using assms(1) by (intro fl_finite) linarith
  show "\<bar>round53 x\<bar> \<le> pow2 e"
    using assms round53_mono [of x "pow2 e"] round53_mono [of "- pow2 e" x]
    by (simp add: round53_minus round53_pow2 abs_le_iff)
qed

lemma round53_ge_pow2: "pow2 e \<le> x \<Longrightarrow> - 1074 \<le> e \<Longrightarrow> pow2 e \<le> round53 x"
  using round53_mono [of "pow2 e" x] round53_pow2 by metis

lemma f64_of_int_usize:
  assumes "n \<le> usize_max"
  shows "\<exists>a. f64_of_int (int n) = Fin a \<and> 0 \<le> a \<and> a \<le> pow2 64 \<and> (0 < n \<longrightarrow> 1 \<le> a)"
proof -
  have "int n \<le> int usize_max" using assms by (simp only: of_nat_le_iff)
  then have "\<bar>int n\<bar> \<le> 2 ^ 64" unfolding usize_max_int by simp
  then have "\<bar>of_int (int n)\<bar> \<le> pow2 64" using abs_of_int_le_pow2 by fastforce
  from fl_bound [OF this] have "f64_of_int (int n) = Fin (round53 (of_int (int n)))"
    "\<bar>round53 (of_int (int n))\<bar> \<le> pow2 64" by (simp_all add: f64_of_int_def)
  moreover have "0 \<le> round53 (of_int (int n))" by (rule round53_nonneg) simp
  moreover have "1 \<le> round53 (of_int (int n))" if "0 < n"
    using round53_ge_pow2 [of 0 "of_int (int n)"] that by simp
  ultimately show ?thesis by auto
qed

text \<open>The slope and the intercept of every candidate line are finite.\<close>

lemma slope_finite:
  assumes "0 \<le> a" "a \<le> pow2 64" and y: "f64_le (Fin (pow2 (- 52))) y"
  shows "\<exists>s. f64_div (Fin a) y = Fin s \<and> 0 \<le> s \<and> s \<le> pow2 116"
proof (cases y)
  case (Fin b)
  then have b: "pow2 (- 52) \<le> b" using y by simp
  then have b0: "0 < b" using pow2_pos [of "- 52"] by linarith
  have "a * 1 \<le> pow2 64 * (pow2 52 * b)"
  proof (intro mult_mono)
    have "1 = pow2 52 * pow2 (- 52)" by (simp flip: pow2_add)
    also have "\<dots> \<le> pow2 52 * b" using b by simp
    finally show "1 \<le> pow2 52 * b" .
  qed (use assms in simp_all)
  then have "a \<le> pow2 116 * b" by (simp add: mult.assoc [symmetric] flip: pow2_add)
  then have "\<bar>a / b\<bar> \<le> pow2 116" using assms(1) b0 by (simp add: pos_divide_le_eq)
  from fl_bound [OF this] round53_nonneg [of "a / b"]
  show ?thesis using Fin b0 assms(1) by simp
qed (use y in simp_all)

lemma line_through_ok:
  assumes "s \<le> pow2 116" "0 \<le> s" "\<bar>q\<bar> \<le> pow2 128"
  shows "model_ok (line_through (Fin s) (Fin q))"
    and "midpoint (line_through (Fin s) (Fin q)) = None"
proof -
  have "s * \<bar>q\<bar> \<le> pow2 116 * pow2 128" using assms by (intro mult_mono) simp_all
  then have "\<bar>- s * q\<bar> \<le> pow2 244" using assms(2) by (simp add: abs_mult flip: pow2_add)
  from fl_bound [OF this] show "model_ok (line_through (Fin s) (Fin q))"
    using assms by (simp add: line_through_def)
qed (simp add: line_through_def linear_new_def)

definition inputs_ok :: "nat \<Rightarrow> (nat \<Rightarrow> f64) \<Rightarrow> bool" where
  "inputs_ok n ki \<longleftrightarrow>
     (\<forall>i<n. \<exists>q. ki i = Fin q \<and> \<bar>q\<bar> \<le> pow2 128) \<and>
     (\<forall>i j. i \<le> j \<and> j < n \<longrightarrow> f64_val (ki i) \<le> f64_val (ki j))"

lemma inputs_okD:
  assumes "inputs_ok n ki" "i < n"
  shows "ki i = Fin (f64_val (ki i))" "\<bar>f64_val (ki i)\<bar> \<le> pow2 128"
  using assms by (auto simp: inputs_ok_def)

lemma f64_sub_inputs:
  assumes "inputs_ok n ki" "i \<le> j" "j < n"
  shows "\<exists>r. f64_sub (ki j) (ki i) = Fin r \<and> 0 \<le> r \<and> r \<le> pow2 129 \<and>
    r = round53 (f64_val (ki j) - f64_val (ki i))"
proof -
  have q: "ki j = Fin (f64_val (ki j))" "ki i = Fin (f64_val (ki i))"
    "\<bar>f64_val (ki j)\<bar> \<le> pow2 128" "\<bar>f64_val (ki i)\<bar> \<le> pow2 128"
    using assms inputs_okD by auto
  have le: "f64_val (ki i) \<le> f64_val (ki j)" using assms by (simp add: inputs_ok_def)
  have "\<bar>f64_val (ki j) - f64_val (ki i)\<bar> \<le> pow2 129"
    using q pow2_Suc [of 128] by simp
  from fl_bound [OF this] round53_nonneg [of "f64_val (ki j) - f64_val (ki i)"] le
  show ?thesis unfolding f64_sub_def by (subst q(1), subst q(2)) simp
qed

lemma max_key_gap_Fin:
  assumes "inputs_ok n ki" shows "\<exists>g. max_key_gap n ki = Fin g \<and> 0 \<le> g"
proof -
  have "\<exists>g. foldl (\<lambda>g i. f64_max g (f64_sub (ki (i + 1)) (ki i))) (Fin 0) [0..<m] = Fin g \<and> 0 \<le> g"
    if "m \<le> n - 1" for m
    using that
  proof (induction m)
    case (Suc m)
    then obtain g where g: "foldl (\<lambda>g i. f64_max g (f64_sub (ki (i + 1)) (ki i))) (Fin 0) [0..<m] = Fin g"
      "0 \<le> g" by auto
    obtain r where "f64_sub (ki (m + 1)) (ki m) = Fin r" "0 \<le> r"
      using f64_sub_inputs [OF assms, of m "m + 1"] Suc.prems by auto
    then show ?case using g by (auto simp: f64_max_def)
  qed simp
  then show ?thesis by (simp add: max_key_gap_def)
qed

text \<open>What the candidate loop keeps: a proper model, its count, and no more conflicts.\<close>

definition counted :: "nat \<Rightarrow> (nat \<Rightarrow> f64) \<Rightarrow> nat \<Rightarrow> linear_model \<times> nat \<Rightarrow> bool" where
  "counted n ki sz b \<longleftrightarrow>
     model_ok (fst b) \<and> midpoint (fst b) = None \<and> snd b = count_conflicts_fast n ki (fst b) sz"

lemma counted_line:
  assumes "inputs_ok n ki" "0 < n" "s \<le> pow2 116" "0 \<le> s"
  shows "counted n ki sz
    (line_through (Fin s) (ki 0), count_conflicts_fast n ki (line_through (Fin s) (ki 0)) sz)"
proof -
  have "\<bar>f64_val (ki 0)\<bar> \<le> pow2 128" "ki 0 = Fin (f64_val (ki 0))"
    using inputs_okD [OF assms(1,2)] by auto
  then show ?thesis
    using line_through_ok [OF assms(3,4), of "f64_val (ki 0)"] by (simp add: counted_def)
qed

lemma fmcd_candidates_counted:
  assumes "inputs_ok n ki" "0 < n" "f64_lt f64_epsilon gap" "\<forall>j\<in>set js. j \<le> 32"
    and "counted n ki sz best"
  shows "counted n ki sz (fmcd_candidates n ki sz gap ms js best) \<and>
    snd (fmcd_candidates n ki sz gap ms js best) \<le> snd best"
  using assms(4,5)
proof (induction js arbitrary: best)
  case (Cons j js)
  obtain bm bc where best: "best = (bm, bc)" by fastforce
  have "j \<le> usize_max" using Cons.prems(1) by (simp add: usize_max_def)
  then obtain a where "f64_of_int (int j) = Fin a" "0 \<le> a" "a \<le> pow2 64"
    using f64_of_int_usize by blast
  moreover have "f64_le (Fin (pow2 (- 52))) gap"
    using assms(3) by (cases gap) (auto simp: f64_epsilon_def)
  ultimately obtain s where s: "f64_div (f64_of_int (int j)) gap = Fin s" "0 \<le> s" "s \<le> pow2 116"
    using slope_finite by metis
  let ?line = "line_through (Fin s) (ki 0)"
  let ?c = "count_conflicts_fast n ki ?line sz"
  let ?best = "if ?c < bc then (?line, ?c) else (bm, bc)"
  have "counted n ki sz ?best" "snd ?best \<le> bc"
    using counted_line [OF assms(1,2) s(3,2)] Cons.prems(2) best by auto
  then show ?case using Cons.IH [of ?best] Cons.prems s(1) best
    by (auto simp: Let_def intro: order_trans)
qed simp

lemma fmcd_array_pos:
  "0 < n \<Longrightarrow> n \<le> usize_max \<Longrightarrow> 1 \<le> fmcd_array n e h"
proof -
  assume n: "0 < n" "n \<le> usize_max"
  then obtain a where a: "f64_of_int (int n) = Fin a" "1 \<le> a" using f64_of_int_usize by blast
  have "f64_le (Fin 1) (f64_max x (Fin a))" for x
    using a(2) by (cases x) (auto simp: f64_max_def)
  then have "f64_to_usize (Fin 1) \<le> fmcd_array n e h"
    unfolding fmcd_array_def a(1) by (rule f64_to_usize_mono)
  then show ?thesis by simp
qed

lemma headroom_mult_ge_1:
  assumes "0 \<le> h" shows "f64_le (Fin 1) (f64_add (Fin 1) (Fin h))"
  using fl_mono [of 1 "1 + h"] assms by simp

lemma effective_range_ge:
  assumes r: "is_f64 r" "pow2 (- 52) \<le> r" and m: "f64_le (Fin 1) m"
  shows "f64_le (Fin r) (f64_mul (Fin r) m)"
proof (cases m)
  case (Fin b)
  have "0 < r" using r(2) pow2_pos [of "- 52"] by linarith
  then have "r \<le> r * b" using m Fin by simp
  then show ?thesis using fl_mono [of r "r * b"] r(1) Fin by (simp add: is_f64_def)
next
  case PInf
  have "0 < r" using r(2) pow2_pos [of "- 52"] by linarith
  then show ?thesis using PInf by (simp add: inf_signed_def)
qed (use m in simp_all)

lemma count_constant:
  assumes "inputs_ok n ki" "0 < n"
  shows "count_conflicts_fast n ki (linear_new (Fin 0) c) sz = n - 1"
proof -
  let ?p = "\<lambda>i. predict_raw (linear_new (Fin 0) c) (ki i) sz"
  have same: "?p i = ?p j"
    if ij: "i < n" "j < n" for i j
  proof -
    obtain a b where "ki i = Fin a" "ki j = Fin b"
      using assms(1) ij unfolding inputs_ok_def by blast
    moreover have "f64_mul_add (Fin 0) (Fin a) c = f64_mul_add (Fin 0) (Fin b) c" for a b
      by (cases c) simp_all
    ultimately have "f64_mul_add (Fin 0) (ki i) c = f64_mul_add (Fin 0) (ki j) c" by simp
    then show ?thesis by (simp add: predict_raw_def linear_new_def)
  qed
  have "?p i = ?p (i - 1)" if "i < n" for i
    using that by (intro same) simp_all
  then have "{i. 1 \<le> i \<and> i < n \<and> ?p i = ?p (i - 1)} = {1..<n}"
    by (simp only: set_eq_iff mem_Collect_eq atLeastLessThan_iff) blast
  then show ?thesis using assms(2) by (simp add: count_conflicts_fast_eq)
qed

text \<open>Fitting never panics on proper parameters, and reports its own conflict count.\<close>

lemma fit_fmcd_counted:
  assumes inputs: "inputs_ok n ki" and n: "0 < n" "n \<le> usize_max"
    and e: "1 \<le> e" and h: "0 \<le> h"
  shows "\<exists>r. fit_fmcd n ki (Fin e) (Fin h) = Inr r \<and> 1 \<le> fmcd_array_size r \<and>
    counted n ki (fmcd_array_size r) (fmcd_model r, fmcd_conflicts r)"
proof -
  let ?m = "f64_add (Fin 1) (Fin h)"
  let ?sz = "fmcd_array n (Fin e) ?m"
  consider "n = 1" | "1 < n" "f64_lt (f64_abs (f64_sub (ki (n - 1)) (ki 0))) f64_epsilon"
    | "1 < n" "\<not> f64_lt (f64_abs (f64_sub (ki (n - 1)) (ki 0))) f64_epsilon"
    using n by linarith
  then show ?thesis
  proof cases
    case 1
    then show ?thesis using e
      by (simp add: fit_fmcd_def counted_def count_conflicts_fast_def)
        (simp add: constant_model_def)
  next
    case 2
    have sz: "1 \<le> ?sz" using n by (rule fmcd_array_pos)
    have "?sz div 2 \<le> usize_max" using f64_to_usize_le [of "f64_max _ _"]
      unfolding fmcd_array_def by (meson div_le_dividend order_trans)
    then obtain c where "f64_of_int (int (?sz div 2)) = Fin c" using f64_of_int_usize by blast
    then show ?thesis using 2 e sz count_constant [OF inputs n(1)]
      by (simp add: fit_fmcd_def counted_def Let_def linear_new_def model_ok_def)
  next
    case 3
    obtain r where r: "f64_sub (ki (n - 1)) (ki 0) = Fin r" "0 \<le> r" "is_f64 r"
      using f64_sub_inputs [OF inputs, of 0 "n - 1"] 3(1)
      by (metis One_nat_def diff_less f64_add.simps(1) f64_neg.simps(1) f64_sub_def fl_is_f64
          inputs inputs_okD(1) le0 less_Suc0 n(1))
    have eps: "pow2 (- 52) \<le> r" using 3(2) r(1,2) by (simp add: f64_epsilon_def)
    have range: "f64_le (Fin (pow2 (- 52))) (f64_mul (Fin r) ?m)"
      using effective_range_ge [OF r(3) eps headroom_mult_ge_1 [OF h]] eps
      by (metis f64_le.simps(1) f64_le_trans)
    have sz: "1 \<le> ?sz" using n by (rule fmcd_array_pos)
    have "?sz - 1 \<le> usize_max" using f64_to_usize_le [of "f64_max _ _"]
      unfolding fmcd_array_def by (meson diff_le_self order_trans)
    then obtain a where a: "f64_of_int (int (?sz - 1)) = Fin a" "0 \<le> a" "a \<le> pow2 64"
      using f64_of_int_usize by blast
    obtain s where s: "f64_div (Fin a) (f64_mul (Fin r) ?m) = Fin s" "0 \<le> s" "s \<le> pow2 116"
      using slope_finite [OF a(2,3) range] by blast
    have lin: "counted n ki ?sz (line_through (Fin s) (ki 0),
        count_conflicts_fast n ki (line_through (Fin s) (ki 0)) ?sz)"
      using inputs n(1) s(3,2) by (rule counted_line)
    show ?thesis
      using 3 e sz lin s(1) a(1) r(1)
        fmcd_candidates_counted [OF inputs n(1) _ _ lin, of "max_key_gap n ki"
          "[1..<max_fmcd_candidates + 1]" "f64_div (Fin a) (Fin r)"]
      by (auto simp: fit_fmcd_def Let_def max_fmcd_candidates_def counted_def simp del: f64_div.simps f64_mul.simps f64_add.simps upt_rec_numeral)
  qed
qed

end
