(* ===== verification/Node.thy ===== *)
theory Node
  imports LinearModel_Facts
begin

text \<open>
  \<^verbatim>\<open>src/node.rs\<close>: the nodes of the index tree. A node is a linear model, an array of slots,
  the lazily created array of child pointers (a flag here, since a child slot holds its node
  directly), two approximate counters and an optional boundary key. A slot joins what the code
  keeps in four parallel arrays: its state byte, the inline key and value where the state says
  they are initialised, and the child where the state says there is one. The state
  \<^verbatim>\<open>SLOT_WRITING\<close> exists only inside one compare-and-swap operation of one thread and is
  not a value of this type: operations of a single thread never observe it.
\<close>

subsection \<open>Slots and nodes\<close>

definition slot_EMPTY :: u8 where "slot_EMPTY = 0"
definition slot_WRITING :: u8 where "slot_WRITING = 1"
definition slot_DATA :: u8 where "slot_DATA = 2"
definition slot_CHILD :: u8 where "slot_CHILD = 3"
definition slot_CHILD_STALE :: u8 where "slot_CHILD_STALE = 4"
definition slot_TOMBSTONE :: u8 where "slot_TOMBSTONE = 5"

definition is_child :: "u8 \<Rightarrow> bool" where
  "is_child state \<longleftrightarrow> state = slot_CHILD \<or> state = slot_CHILD_STALE"

datatype ('k, 'v, 'c) slot =
    Empty
  | Data 'k 'v
  | Child 'c
  | ChildStale 'k 'v 'c
  | Tombstone 'k 'v

datatype ('k, 'v) node =
  Node
    (node_model: linear_model)
    (slots: "('k, 'v, ('k, 'v) node) slot list")
    (children_init: bool)
    (num_keys: usize)
    (num_tombstones: usize)
    (split_key: "'k option")

fun state_of :: "('k, 'v, 'c) slot \<Rightarrow> u8" where
  "state_of Empty = slot_EMPTY"
| "state_of (Data _ _) = slot_DATA"
| "state_of (Child _) = slot_CHILD"
| "state_of (ChildStale _ _ _) = slot_CHILD_STALE"
| "state_of (Tombstone _ _) = slot_TOMBSTONE"

fun child_of :: "('k, 'v, 'c) slot \<Rightarrow> 'c option" where
  "child_of (Child c) = Some c"
| "child_of (ChildStale _ _ c) = Some c"
| "child_of _ = None"

subsection \<open>Construction\<close>

definition with_capacity :: "linear_model \<Rightarrow> nat \<Rightarrow> ('k, 'v) node" where
  "with_capacity m array_size = Node m (replicate array_size Empty) True 0 0 None"

definition with_capacity_leaf :: "linear_model \<Rightarrow> nat \<Rightarrow> ('k, 'v) node" where
  "with_capacity_leaf m array_size = Node m (replicate array_size Empty) False 0 0 None"

fun set_split_key :: "'k \<Rightarrow> ('k, 'v) node \<Rightarrow> ('k, 'v) node" where
  "set_split_key k (Node m ss ci nk nt sk) = Node m ss ci nk nt (Some k)"

definition with_split_key :: "'k \<Rightarrow> nat \<Rightarrow> ('k, 'v) node" where
  "with_split_key boundary array_size =
     set_split_key boundary (with_capacity constant_model array_size)"

definition capacity :: "('k, 'v) node \<Rightarrow> nat" where
  "capacity n = length (slots n)"

definition predict_slot :: "'k::linorder key_impl \<Rightarrow> ('k, 'v) node \<Rightarrow> 'k \<Rightarrow> nat" where
  "predict_slot K n key =
     (case split_key n of
        Some sk \<Rightarrow> if key \<le> sk then 0 else saturating_sub (capacity n) 1
      | None \<Rightarrow> predict K (node_model n) key (capacity n))"

subsection \<open>Slot access\<close>

definition slot_at :: "('k, 'v) node \<Rightarrow> nat \<Rightarrow> ('k, 'v, ('k, 'v) node) slot" where
  "slot_at n i = (if i < capacity n then slots n ! i else Empty)"

definition slot_state :: "('k, 'v) node \<Rightarrow> nat \<Rightarrow> u8" where
  "slot_state n i = state_of (slot_at n i)"

text \<open>A null pointer is \<open>None\<close>: the children array may not exist yet.\<close>

definition load_child :: "('k, 'v) node \<Rightarrow> nat \<Rightarrow> ('k, 'v) node option" where
  "load_child n i = (if children_init n then child_of (slot_at n i) else None)"

fun set_slot :: "nat \<Rightarrow> ('k, 'v, ('k, 'v) node) slot \<Rightarrow> ('k, 'v) node \<Rightarrow> ('k, 'v) node" where
  "set_slot i s (Node m ss ci nk nt sk) = Node m (ss[i := s]) ci nk nt sk"

fun ensure_children :: "('k, 'v) node \<Rightarrow> ('k, 'v) node" where
  "ensure_children (Node m ss ci nk nt sk) = Node m ss True nk nt sk"

definition store_data :: "nat \<Rightarrow> 'k \<Rightarrow> 'v \<Rightarrow> ('k, 'v) node \<Rightarrow> ('k, 'v) node" where
  "store_data i key value n = set_slot i (Data key value) n"

definition store_child :: "nat \<Rightarrow> ('k, 'v) node \<Rightarrow> ('k, 'v) node \<Rightarrow> ('k, 'v) node" where
  "store_child i child n = set_slot i (Child child) (ensure_children n)"

subsection \<open>Compare-and-swap operations\<close>

text \<open>
  Each returns whether the expected state was found. Run by one thread, the intermediate
  \<^verbatim>\<open>WRITING\<close> state is entered and left inside the operation.
\<close>

definition cas_empty_to_data :: "nat \<Rightarrow> 'k \<Rightarrow> 'v \<Rightarrow> ('k, 'v) node \<Rightarrow> ('k, 'v) node \<times> bool" where
  "cas_empty_to_data i key value n =
     (case slot_at n i of
        Empty \<Rightarrow> (set_slot i (Data key value) n, True)
      | _ \<Rightarrow> (n, False))"

definition cas_tombstone_to_child_stale ::
    "nat \<Rightarrow> ('k, 'v) node \<Rightarrow> ('k, 'v) node \<Rightarrow> ('k, 'v) node \<times> bool" where
  "cas_tombstone_to_child_stale i child n =
     (case slot_at n i of
        Tombstone k v \<Rightarrow> (set_slot i (ChildStale k v child) (ensure_children n), True)
      | _ \<Rightarrow> (n, False))"

definition cas_data_to_child_stale ::
    "nat \<Rightarrow> ('k, 'v) node \<Rightarrow> ('k, 'v) node \<Rightarrow> ('k, 'v) node \<times> bool" where
  "cas_data_to_child_stale i child n =
     (case slot_at n i of
        Data k v \<Rightarrow> (set_slot i (ChildStale k v child) (ensure_children n), True)
      | _ \<Rightarrow> (n, False))"

definition cas_data_to_tombstone :: "nat \<Rightarrow> ('k, 'v) node \<Rightarrow> ('k, 'v) node \<times> bool" where
  "cas_data_to_tombstone i n =
     (case slot_at n i of
        Data k v \<Rightarrow> (set_slot i (Tombstone k v) n, True)
      | _ \<Rightarrow> (n, False))"

subsection \<open>Counters\<close>

text \<open>\<^verbatim>\<open>fetch_add\<close> and \<^verbatim>\<open>fetch_sub\<close> wrap around, as word arithmetic does.\<close>

fun inc_keys :: "('k, 'v) node \<Rightarrow> ('k, 'v) node" where
  "inc_keys (Node m ss ci nk nt sk) = Node m ss ci (nk + 1) nt sk"

fun dec_keys :: "('k, 'v) node \<Rightarrow> ('k, 'v) node" where
  "dec_keys (Node m ss ci nk nt sk) = Node m ss ci (nk - 1) nt sk"

fun inc_tombstones :: "('k, 'v) node \<Rightarrow> ('k, 'v) node" where
  "inc_tombstones (Node m ss ci nk nt sk) = Node m ss ci nk (nt + 1) sk"

fun dec_tombstones :: "('k, 'v) node \<Rightarrow> ('k, 'v) node" where
  "dec_tombstones (Node m ss ci nk nt sk) = Node m ss ci nk (nt - 1) sk"

definition tombstone_ratio :: "('k, 'v) node \<Rightarrow> f64" where
  "tombstone_ratio n =
     (if capacity n = 0 then Fin 0
      else f64_div (f64_of_int (uint (num_tombstones n))) (f64_of_int (int (capacity n))))"

lemma child_size:
  assumes "s \<in> set (slots n)" "child_of s = Some c" shows "size c < size n"
proof (cases n)
  case (Node m ss ci nk nt sk)
  have "size c < size_slot (\<lambda>_. 0) (\<lambda>_. 0) size s" using assms(2) by (cases s) auto
  also have "\<dots> \<le> size_list (size_slot (\<lambda>_. 0) (\<lambda>_. 0) size) ss"
    using assms(1) Node by (intro size_list_estimation') auto
  finally show ?thesis using Node by simp
qed

lemma load_child_size: "load_child n i = Some c \<Longrightarrow> size c < size n"
  by (auto simp: load_child_def slot_at_def capacity_def split: if_splits intro!: child_size)

text \<open>Statistics over a node and all its descendants.\<close>

function total_keys :: "('k, 'v) node \<Rightarrow> nat" where
  "total_keys n =
     sum_list (map (\<lambda>s. case s of
         Data _ _ \<Rightarrow> 1
       | Child c \<Rightarrow> if children_init n then total_keys c else 0
       | ChildStale _ _ c \<Rightarrow> if children_init n then total_keys c else 0
       | _ \<Rightarrow> 0) (slots n))"
  by pat_completeness auto
termination
  by (relation "measure size") (auto intro: child_size)

record layout =
  size_of_node :: nat
  size_of_key :: nat
  size_of_value :: nat
  size_of_child_ptr :: nat

function allocated_bytes :: "layout \<Rightarrow> ('k, 'v) node \<Rightarrow> nat" where
  "allocated_bytes L n =
     (let cap = capacity n;
          children_cap = (if children_init n then cap else 0);
          arrays_size = cap * (1 + size_of_key L + size_of_value L) + children_cap * size_of_child_ptr L;
          total = size_of_node L + arrays_size
      in if children_init n then
           total + sum_list (map (\<lambda>s. case child_of s of None \<Rightarrow> 0 | Some c \<Rightarrow> allocated_bytes L c)
                              (slots n))
         else total)"
  by pat_completeness auto
termination
  by (relation "measure (\<lambda>(L, n). size n)") (auto intro: child_size)

function max_depth :: "('k, 'v) node \<Rightarrow> nat" where
  "max_depth n =
     1 + (if children_init n then
            foldl max 0 (map (\<lambda>s. case child_of s of None \<Rightarrow> 0 | Some c \<Rightarrow> max_depth c) (slots n))
          else 0)"
  by pat_completeness auto
termination
  by (relation "measure size") (auto intro: child_size)

declare total_keys.simps [simp del] allocated_bytes.simps [simp del] max_depth.simps [simp del]

end
