(* ===== verification/Node_Facts.thy ===== *)
theory Node_Facts
  imports Node
begin

text \<open>
  The abstraction of a tree, its in-order list of live entries, and the well-formedness
  invariant: every live key sits in the slot that its node predicts for it. Two facts follow
  that the operations rest on: looking a key up in the entries is looking it up in its home
  slot (\<open>map_of_entries\<close>), and, for a lawful key type, the entries are strictly sorted
  (\<open>entries_sorted\<close>).
\<close>

subsection \<open>Induction over a tree\<close>

lemma node_induct [case_names Node]:
  assumes "\<And>n. (\<And>s c. s \<in> set (slots n) \<Longrightarrow> child_of s = Some c \<Longrightarrow> P c) \<Longrightarrow> P n"
  shows "P n"
proof (induction n rule: measure_induct_rule [of size])
  case (less n)
  show ?case by (rule assms, rule less, rule child_size)
qed

subsection \<open>Selectors of updated nodes\<close>

lemma set_slot_sel [simp]:
  "slots (set_slot i s n) = (slots n)[i := s]"
  "node_model (set_slot i s n) = node_model n"
  "children_init (set_slot i s n) = children_init n"
  "num_keys (set_slot i s n) = num_keys n"
  "num_tombstones (set_slot i s n) = num_tombstones n"
  "split_key (set_slot i s n) = split_key n"
  by (cases n; simp)+

lemma ensure_children_sel [simp]:
  "slots (ensure_children n) = slots n"
  "node_model (ensure_children n) = node_model n"
  "children_init (ensure_children n)"
  "num_keys (ensure_children n) = num_keys n"
  "num_tombstones (ensure_children n) = num_tombstones n"
  "split_key (ensure_children n) = split_key n"
  by (cases n; simp)+

lemma counter_sel [simp]:
  "slots (inc_keys n) = slots n" "slots (dec_keys n) = slots n"
  "slots (inc_tombstones n) = slots n" "slots (dec_tombstones n) = slots n"
  "node_model (inc_keys n) = node_model n" "node_model (dec_keys n) = node_model n"
  "node_model (inc_tombstones n) = node_model n" "node_model (dec_tombstones n) = node_model n"
  "children_init (inc_keys n) = children_init n" "children_init (dec_keys n) = children_init n"
  "children_init (inc_tombstones n) = children_init n"
  "children_init (dec_tombstones n) = children_init n"
  "split_key (inc_keys n) = split_key n" "split_key (dec_keys n) = split_key n"
  "split_key (inc_tombstones n) = split_key n" "split_key (dec_tombstones n) = split_key n"
  "num_keys (inc_tombstones n) = num_keys n" "num_keys (dec_tombstones n) = num_keys n"
  "num_tombstones (inc_keys n) = num_tombstones n" "num_tombstones (dec_keys n) = num_tombstones n"
  "num_keys (inc_keys n) = num_keys n + 1" "num_keys (dec_keys n) = num_keys n - 1"
  "num_tombstones (inc_tombstones n) = num_tombstones n + 1"
  "num_tombstones (dec_tombstones n) = num_tombstones n - 1"
  by (cases n; simp)+

lemma fresh_sel [simp]:
  "slots (with_capacity m sz) = replicate sz Empty"
  "node_model (with_capacity m sz) = m"
  "children_init (with_capacity m sz)"
  "split_key (with_capacity m sz) = None"
  "num_keys (with_capacity m sz) = 0"
  "num_tombstones (with_capacity m sz) = 0"
  "slots (with_capacity_leaf m sz) = replicate sz Empty"
  "node_model (with_capacity_leaf m sz) = m"
  "split_key (with_capacity_leaf m sz) = None"
  "num_keys (with_capacity_leaf m sz) = 0"
  "num_tombstones (with_capacity_leaf m sz) = 0"
  "slots (with_split_key k sz) = replicate sz Empty"
  "node_model (with_split_key k sz) = constant_model"
  "children_init (with_split_key k sz)"
  "split_key (with_split_key k sz) = Some k"
  "num_keys (with_split_key k sz) = 0"
  "num_tombstones (with_split_key k sz) = 0"
  by (simp_all add: with_capacity_def with_capacity_leaf_def with_split_key_def)

text \<open>The prediction of a node depends on its model, its boundary and its size only.\<close>

lemma predict_slot_cong:
  "node_model n = node_model n' \<Longrightarrow> split_key n = split_key n' \<Longrightarrow>
     length (slots n) = length (slots n') \<Longrightarrow> predict_slot K n k = predict_slot K n' k"
  unfolding predict_slot_def capacity_def by (simp only:)

lemma predict_slot_update [simp]:
  "predict_slot K (set_slot i s n) = predict_slot K n"
  "predict_slot K (ensure_children n) = predict_slot K n"
  "predict_slot K (inc_keys n) = predict_slot K n"
  "predict_slot K (dec_keys n) = predict_slot K n"
  "predict_slot K (inc_tombstones n) = predict_slot K n"
  "predict_slot K (dec_tombstones n) = predict_slot K n"
  by (rule ext, rule predict_slot_cong, simp_all)+

lemma capacity_update [simp]:
  "capacity (set_slot i s n) = capacity n" "capacity (ensure_children n) = capacity n"
  "capacity (inc_keys n) = capacity n" "capacity (dec_keys n) = capacity n"
  "capacity (inc_tombstones n) = capacity n" "capacity (dec_tombstones n) = capacity n"
  "capacity (with_capacity m sz) = sz" "capacity (with_capacity_leaf m sz) = sz"
  "capacity (with_split_key k sz) = sz"
  by (simp_all add: capacity_def)

lemma predict_slot_less: "0 < capacity n \<Longrightarrow> predict_slot K n k < capacity n"
  by (auto simp: predict_slot_def saturating_sub_def predict_less split: option.split)

subsection \<open>Live entries\<close>

fun slot_entries :: "('c \<Rightarrow> ('k \<times> 'v) list) \<Rightarrow> ('k, 'v, 'c) slot \<Rightarrow> ('k \<times> 'v) list" where
  "slot_entries f Empty = []"
| "slot_entries f (Data k v) = [(k, v)]"
| "slot_entries f (Child c) = f c"
| "slot_entries f (ChildStale _ _ c) = f c"
| "slot_entries f (Tombstone _ _) = []"

lemma slot_entries_cong [fundef_cong]:
  "s = t \<Longrightarrow> (\<And>c. child_of t = Some c \<Longrightarrow> f c = g c) \<Longrightarrow> slot_entries f s = slot_entries g t"
  by (cases s) auto

function entries :: "('k, 'v) node \<Rightarrow> ('k \<times> 'v) list" where
  "entries n = concat (map (slot_entries entries) (slots n))"
  by pat_completeness auto
termination
  by (relation "measure size") (auto intro: child_size)

declare entries.simps [simp del]

abbreviation entries_at :: "('k, 'v, ('k, 'v) node) slot \<Rightarrow> ('k \<times> 'v) list" where
  "entries_at s \<equiv> slot_entries entries s"

lemma entries_cong: "slots n = slots n' \<Longrightarrow> entries n = entries n'"
  by (simp add: entries.simps [of n] entries.simps [of n'])

lemma entries_update [simp]:
  "entries (ensure_children n) = entries n"
  "entries (inc_keys n) = entries n" "entries (dec_keys n) = entries n"
  "entries (inc_tombstones n) = entries n" "entries (dec_tombstones n) = entries n"
  by (rule entries_cong, simp)+

lemma entries_empty:
  "(\<And>s. s \<in> set (slots n) \<Longrightarrow> s = Empty) \<Longrightarrow> entries n = []"
  unfolding entries.simps [of n] concat_eq_Nil_conv by force

lemma entries_fresh [simp]:
  "entries (with_capacity m sz) = []" "entries (with_capacity_leaf m sz) = []"
  "entries (with_split_key k sz) = []"
  by (rule entries_empty, simp)+

lemma entries_set_slot:
  "i < capacity n \<Longrightarrow>
     entries (set_slot i s n) =
       concat (map entries_at (take i (slots n))) @ entries_at s @
       concat (map entries_at (drop (Suc i) (slots n)))"
  by (subst entries.simps) (simp add: upd_conv_take_nth_drop capacity_def)

lemma entries_split:
  "i < capacity n \<Longrightarrow>
     entries n =
       concat (map entries_at (take i (slots n))) @ entries_at (slots n ! i) @
       concat (map entries_at (drop (Suc i) (slots n)))"
  using entries_set_slot [of i n "slots n ! i"] by (cases n) (simp add: capacity_def)

subsection \<open>Well-formed trees\<close>

definition home_slots :: "'k::linorder key_impl \<Rightarrow> ('k, 'v) node \<Rightarrow> bool" where
  "home_slots K n \<longleftrightarrow>
     (\<forall>i<capacity n. \<forall>p\<in>set (entries_at (slots n ! i)). predict_slot K n (fst p) = i)"

function wf_node :: "'k::linorder key_impl \<Rightarrow> ('k, 'v) node \<Rightarrow> bool" where
  "wf_node K n \<longleftrightarrow>
     0 < capacity n \<and> model_ok (node_model n) \<and> home_slots K n \<and>
     (\<forall>s\<in>set (slots n). case child_of s of None \<Rightarrow> True | Some c \<Rightarrow> children_init n \<and> wf_node K c)"
  by pat_completeness auto
termination
  by (relation "measure (\<lambda>(K, n). size n)") (auto intro: child_size)

declare wf_node.simps [simp del]

lemma wf_nodeD:
  assumes "wf_node K n"
  shows "0 < capacity n" "model_ok (node_model n)" "home_slots K n"
    and "s \<in> set (slots n) \<Longrightarrow> child_of s = Some c \<Longrightarrow> children_init n \<and> wf_node K c"
  using assms by (auto simp: wf_node.simps [of K n] split: option.splits)

lemma wf_nodeI:
  assumes "0 < capacity n" "model_ok (node_model n)" "home_slots K n"
    and "\<And>s c. s \<in> set (slots n) \<Longrightarrow> child_of s = Some c \<Longrightarrow> children_init n \<and> wf_node K c"
  shows "wf_node K n"
  using assms by (auto simp: wf_node.simps [of K n] split: option.splits)

lemma home_slots_cong:
  "slots n = slots n' \<Longrightarrow> predict_slot K n = predict_slot K n' \<Longrightarrow> home_slots K n = home_slots K n'"
  by (simp add: home_slots_def capacity_def)

text \<open>Counters and the children array do not matter.\<close>

lemma wf_node_cong:
  assumes "wf_node K n" "slots n' = slots n" "node_model n' = node_model n"
    "split_key n' = split_key n" "children_init n \<Longrightarrow> children_init n'"
  shows "wf_node K n'"
proof (rule wf_nodeI)
  have cap: "capacity n' = capacity n" by (simp add: capacity_def assms(2))
  have "predict_slot K n' = predict_slot K n"
    by (rule ext, rule predict_slot_cong) (simp_all add: assms(2-4))
  then show "home_slots K n'"
    using wf_nodeD(3) [OF assms(1)] home_slots_cong [OF assms(2)] by blast
  show "children_init n' \<and> wf_node K c" if mem: "s \<in> set (slots n')" "child_of s = Some c" for s c
    using mem wf_nodeD(4) [OF assms(1)] assms(2,5) by simp
qed (use wf_nodeD(1,2) [OF assms(1)] in \<open>simp_all add: capacity_def assms(2,3)\<close>)

lemma wf_update:
  assumes "wf_node K n"
  shows "wf_node K (ensure_children n)" "wf_node K (inc_keys n)" "wf_node K (dec_keys n)"
    "wf_node K (inc_tombstones n)" "wf_node K (dec_tombstones n)"
  by (rule wf_node_cong [OF assms]; simp)+

lemma load_child_Some:
  assumes "load_child n i = Some c"
  shows "i < capacity n" "slots n ! i \<in> set (slots n)" "child_of (slots n ! i) = Some c"
  using assms
  by (auto simp: load_child_def slot_at_def capacity_def split: if_splits)

lemma load_child_wf: "wf_node K n \<Longrightarrow> load_child n i = Some c \<Longrightarrow> wf_node K c"
  using load_child_Some(2,3) wf_nodeD(4) by blast

lemma load_child_eq:
  assumes "wf_node K n" "i < capacity n" shows "load_child n i = child_of (slots n ! i)"
  using wf_nodeD(4) [OF assms(1), of "slots n ! i"] assms(2)
  by (cases "child_of (slots n ! i)") (auto simp: load_child_def slot_at_def capacity_def)

text \<open>Looking a key up in the entries is looking it up in its home slot.\<close>

lemma map_of_entries:
  assumes "wf_node K n"
  shows "map_of (entries n) k = map_of (entries_at (slots n ! predict_slot K n k)) k"
proof -
  have "map_of (concat (map entries_at (slots n))) k =
      (if predict_slot K n k < length (map entries_at (slots n))
       then map_of (map entries_at (slots n) ! predict_slot K n k) k else None)"
    using wf_nodeD(3) [OF assms]
    by (intro map_of_concat_home) (simp add: home_slots_def capacity_def)
  then show ?thesis
    using predict_slot_less [OF wf_nodeD(1) [OF assms], of K k]
    by (simp add: entries.simps [of n] capacity_def)
qed

lemma wf_all_empty:
  assumes "model_ok (node_model n)" "0 < sz" "slots n = replicate sz Empty"
  shows "wf_node K n"
proof (rule wf_nodeI)
  show "home_slots K n" by (simp add: home_slots_def capacity_def assms(3))
qed (use assms in \<open>simp_all add: capacity_def\<close>)

lemma wf_fresh:
  assumes "model_ok m" "0 < sz"
  shows "wf_node K (with_capacity m sz)" "wf_node K (with_capacity_leaf m sz)"
    "wf_node K (with_split_key k sz)"
  by (rule wf_all_empty [of _ sz]; simp add: assms)+

text \<open>Replacing the contents of one slot.\<close>

lemma wf_set_slot:
  assumes "wf_node K n"
    and "\<And>p. p \<in> set (entries_at s) \<Longrightarrow> predict_slot K n (fst p) = i"
    and "\<And>c. child_of s = Some c \<Longrightarrow> children_init n \<and> wf_node K c"
  shows "wf_node K (set_slot i s n)"
proof (rule wf_nodeI)
  show "home_slots K (set_slot i s n)"
    unfolding home_slots_def predict_slot_update capacity_update set_slot_sel
  proof (intro allI impI ballI)
    fix j p
    assume j: "j < capacity n" and p: "p \<in> set (entries_at ((slots n)[i := s] ! j))"
    show "predict_slot K n (fst p) = j"
      using wf_nodeD(3) [OF assms(1)] assms(2) [of p] j p
      by (cases "j = i") (simp_all add: home_slots_def capacity_def)
  qed
  show "children_init (set_slot i s n) \<and> wf_node K c"
    if s': "s' \<in> set (slots (set_slot i s n))" "child_of s' = Some c" for s' c
  proof -
    have "s' = s \<or> s' \<in> set (slots n)"
      using s'(1) set_update_subset_insert [of "slots n" i s] by auto
    then show ?thesis
      by (rule disjE) (use s'(2) wf_nodeD(4) [OF assms(1)] assms(3) in simp_all)
  qed
qed (use wf_nodeD [OF assms(1)] in simp_all)

lemma map_of_set_slot:
  assumes "wf_node K n" "wf_node K (set_slot i s n)" "i < capacity n"
  shows "map_of (entries (set_slot i s n)) k =
    (if predict_slot K n k = i then map_of (entries_at s) k else map_of (entries n) k)"
  using map_of_entries [OF assms(2), of k] map_of_entries [OF assms(1), of k] assms(3)
  by (auto simp: nth_list_update capacity_def)

subsection \<open>Order\<close>

lemma sorted_concat_home:
  fixes xss :: "('k::linorder \<times> 'v) list list"
  assumes "\<And>i. i < length xss \<Longrightarrow> sorted_keys (xss ! i)"
    and "\<And>i p. i < length xss \<Longrightarrow> p \<in> set (xss ! i) \<Longrightarrow> h (fst p) = i"
    and "\<And>k k'. k \<le> k' \<Longrightarrow> h k \<le> (h k' :: nat)"
  shows "sorted_keys (concat xss)"
  using assms(1,2)
proof (induction xss rule: rev_induct)
  case (snoc xs xss)
  have init: "sorted_keys (xss ! i)" "\<And>p. p \<in> set (xss ! i) \<Longrightarrow> h (fst p) = i" if "i < length xss" for i
    using snoc.prems(1) [of i] snoc.prems(2) [of i] that by (simp_all add: nth_append)
  have last: "sorted_keys xs" "\<And>q. q \<in> set xs \<Longrightarrow> h (fst q) = length xss"
    using snoc.prems(1) [of "length xss"] snoc.prems(2) [of "length xss"] by simp_all
  have "fst p < fst q" if pq: "p \<in> set (concat xss)" "q \<in> set xs" for p q
  proof -
    obtain xs' where "xs' \<in> set xss" "p \<in> set xs'" using pq(1) by auto
    then obtain i where "i < length xss" "p \<in> set (xss ! i)" by (metis in_set_conv_nth)
    then have "h (fst p) < h (fst q)" using init last pq(2) by simp
    then show ?thesis using assms(3) [of "fst q" "fst p"] by (meson linorder_not_less)
  qed
  then show ?case using snoc.IH init last(1) by (simp add: sorted_wrt_append)
qed simp

context key_contract
begin

lemma predict_slot_mono:
  assumes "model_ok (node_model n)" "k \<le> k'" shows "predict_slot K n k \<le> predict_slot K n k'"
  using assms predict_mono by (auto simp: predict_slot_def saturating_sub_def split: option.split)

text \<open>In-order traversal yields the keys in strictly ascending order.\<close>

lemma entries_sorted: "wf_node K n \<Longrightarrow> sorted_keys (entries n)"
proof (induction n rule: node_induct)
  case (Node n)
  have "sorted_keys (concat (map entries_at (slots n)))"
  proof (rule sorted_concat_home [where h = "predict_slot K n"])
    fix i assume i: "i < length (map entries_at (slots n))"
    then have mem: "slots n ! i \<in> set (slots n)" by simp
    show "sorted_keys (map entries_at (slots n) ! i)"
      using Node.IH [OF mem] wf_nodeD(4) [OF Node.prems mem] i by (cases "slots n ! i") auto
    show "predict_slot K n (fst p) = i" if "p \<in> set (map entries_at (slots n) ! i)" for p
      using wf_nodeD(3) [OF Node.prems] i that by (simp add: home_slots_def capacity_def)
  qed (use predict_slot_mono wf_nodeD(2) [OF Node.prems] in blast)
  then show ?case by (simp add: entries.simps [of n])
qed

end

end
