(* ===== verification/Lookup.thy ===== *)
theory Lookup
  imports Node_Facts
begin

text \<open>
  \<^verbatim>\<open>src/lookup.rs\<close>: the descent that follows predicted slots, and its specification: on a
  well-formed tree it is lookup in the list of live entries.
\<close>

function get :: "'k::linorder key_impl \<Rightarrow> ('k, 'v) node \<Rightarrow> 'k \<Rightarrow> 'v option" where
  "get K n key =
     (let slot_idx = predict_slot K n key
      in case slot_at n slot_idx of
           Data k v \<Rightarrow> if k = key then Some v else None
         | s \<Rightarrow>
             if is_child (state_of s) then
               (case load_child n slot_idx of
                  None \<Rightarrow> None
                | Some child \<Rightarrow> get K child key)
             else None)"
  by pat_completeness auto
termination
  by (relation "measure (\<lambda>(K, n, key). size n)") (auto intro: load_child_size)

declare get.simps [simp del]

lemma is_child_states [simp]:
  "is_child slot_CHILD" "is_child slot_CHILD_STALE"
  "\<not> is_child slot_EMPTY" "\<not> is_child slot_DATA" "\<not> is_child slot_TOMBSTONE"
  "\<not> is_child slot_WRITING"
  by (simp_all add: is_child_def slot_EMPTY_def slot_DATA_def slot_CHILD_def slot_WRITING_def
      slot_CHILD_STALE_def slot_TOMBSTONE_def)

lemma slot_at_eq: "i < capacity n \<Longrightarrow> slot_at n i = slots n ! i"
  by (simp add: slot_at_def)

lemma get_eq_map_of: "wf_node K n \<Longrightarrow> get K n k = map_of (entries n) k"
proof (induction n rule: node_induct)
  case (Node n)
  let ?i = "predict_slot K n k"
  have i: "?i < capacity n" by (rule predict_slot_less) (rule wf_nodeD(1) [OF Node.prems])
  have mem: "slots n ! ?i \<in> set (slots n)" using i by (simp add: capacity_def)
  have child: "get K c k = map_of (entries c) k" if "child_of (slots n ! ?i) = Some c" for c
    using Node.IH [OF mem that] wf_nodeD(4) [OF Node.prems mem that] by blast
  show ?case
    using child map_of_entries [OF Node.prems, of k]
    by (cases "slots n ! ?i")
      (simp_all add: get.simps [of K n] slot_at_eq [OF i] load_child_eq [OF Node.prems i])
qed

end
