(* ===== verification/Build.thy ===== *)
theory Build
  imports Lookup
begin

text \<open>
  \<^verbatim>\<open>src/build.rs\<close>: building a tree from sorted pairs. \<open>build_recursive\<close> is a
  \<^theory_text>\<open>partial_function\<close>: a group of keys that falls into one slot is built by a recursive call on
  that group, and nothing in the code bounds the depth of these calls. \<open>None\<close> stands for a
  call that does not return, because of that recursion or because model fitting panics.
  \<^verbatim>\<open>sort_unstable_by_key\<close> is the stable sort here: its input is sorted already when the key
  type is lawful.
\<close>

subsection \<open>Groups with equal model input\<close>

text \<open>Wrap-around of \<^verbatim>\<open>i128\<close> and its division, which truncates towards zero.\<close>

definition i128_wrap :: "int \<Rightarrow> int" where
  "i128_wrap x = (x + 2 ^ 127) mod 2 ^ 128 - 2 ^ 127"

definition i128_half :: "int \<Rightarrow> int" where
  "i128_half x = (if 0 \<le> x then x div 2 else - ((- x) div 2))"

definition split_midpoint :: "int \<Rightarrow> int \<Rightarrow> int" where
  "split_midpoint lo_last_ord hi_first_ord =
     i128_wrap (lo_last_ord + i128_half (i128_wrap (hi_first_ord - lo_last_ord)))"

definition is_degenerate_group :: "'k key_impl \<Rightarrow> ('k \<times> 'v) list \<Rightarrow> bool" where
  "is_degenerate_group K pairs =
     (if length pairs \<le> 1 then False
      else
        let first_f = to_model_input K (fst (pairs ! 0));
            last_f = to_model_input K (fst (pairs ! (length pairs - 1)))
        in f64_lt (f64_abs (f64_sub last_f first_f)) f64_epsilon)"

text \<open>The code asserts in debug builds that \<^verbatim>\<open>pairs\<close> is not empty, which every call ensures.\<close>

function build_degenerate :: "'k::linorder key_impl \<Rightarrow> ('k \<times> 'v) list \<Rightarrow> ('k, 'v) node" where
  "build_degenerate K pairs =
     (if length pairs \<le> 1 then
        inc_keys (store_data 0 (fst (pairs ! 0)) (snd (pairs ! 0))
          (with_capacity constant_model 1))
      else
        let mid_idx = length pairs div 2;
            lo_half = take mid_idx pairs;
            hi_half = drop mid_idx pairs;
            lo_last_ord = to_exact_ordinal K (fst (lo_half ! (length lo_half - 1)));
            hi_first_ord = to_exact_ordinal K (fst (hi_half ! 0));
            node =
              (if lo_last_ord = hi_first_ord
               then with_split_key (fst (lo_half ! (length lo_half - 1))) 2
               else with_capacity (binary_split (split_midpoint lo_last_ord hi_first_ord)) 2);
            node =
              (if length lo_half = 1
               then inc_keys (store_data 0 (fst (lo_half ! 0)) (snd (lo_half ! 0)) node)
               else store_child 0 (build_degenerate K lo_half) node)
        in if length hi_half = 1
           then inc_keys (store_data 1 (fst (hi_half ! 0)) (snd (hi_half ! 0)) node)
           else store_child 1 (build_degenerate K hi_half) node)"
  by pat_completeness auto
termination
  by (relation "measure (\<lambda>(K, ps). length ps)") auto

declare build_degenerate.simps [simp del]

subsection \<open>Recursive construction\<close>

text \<open>The predicted slot and the index of each pair, sorted by slot, and its maximal runs.\<close>

definition slot_assignments ::
    "'k::linorder key_impl \<Rightarrow> ('k, 'v) node \<Rightarrow> ('k \<times> 'v) list \<Rightarrow> (nat \<times> nat) list" where
  "slot_assignments K node pairs =
     sort_key fst (map (\<lambda>(i, p). (predict_slot K node (fst p), i)) (enumerate 0 pairs))"

function slot_runs :: "(nat \<times> nat) list \<Rightarrow> (nat \<times> nat list) list" where
  "slot_runs [] = []"
| "slot_runs ((slot, i) # as) =
     (slot, i # map snd (takeWhile (\<lambda>a. fst a = slot) as)) #
     slot_runs (dropWhile (\<lambda>a. fst a = slot) as)"
  by pat_completeness auto
termination
  by (relation "measure length") (auto simp: less_Suc_eq_le length_dropWhile_le)

definition store_pair ::
    "'k::linorder key_impl \<Rightarrow> 'k \<times> 'v \<Rightarrow> ('k, 'v) node \<Rightarrow> ('k, 'v) node" where
  "store_pair K p node = inc_keys (store_data (predict_slot K node (fst p)) (fst p) (snd p) node)"

partial_function (option) build_recursive ::
    "'k::linorder key_impl \<Rightarrow> config \<Rightarrow> ('k \<times> 'v) list \<Rightarrow> ('k, 'v) node option" where
  "build_recursive K cfg pairs =
     (let n = length pairs
      in if 1 < n \<and> is_degenerate_group K pairs then Some (build_degenerate K pairs)
         else
           (case fit_fmcd n (\<lambda>i. to_model_input K (fst (pairs ! i)))
                   (expansion_factor cfg) (range_headroom cfg) of
              Inl _ \<Rightarrow> None
            | Inr result \<Rightarrow>
                if fmcd_conflicts result = 0 then
                  Some (fold (store_pair K) pairs
                    (with_capacity_leaf (fmcd_model result) (fmcd_array_size result)))
                else
                  let node = with_capacity (fmcd_model result) (fmcd_array_size result)
                  in fold_returns
                       (\<lambda>(slot_idx, run) node.
                          if length run = 1 then
                            let p = pairs ! (run ! 0)
                            in Some (inc_keys (store_data slot_idx (fst p) (snd p) node))
                          else
                            let child_pairs = map (\<lambda>idx. pairs ! idx) run
                            in Option.bind
                                 (if is_degenerate_group K child_pairs
                                  then Some (build_degenerate K child_pairs)
                                  else build_recursive K cfg child_pairs)
                                 (\<lambda>child. Some (store_child slot_idx child node)))
                       (slot_runs (slot_assignments K node pairs)) node))"

definition bulk_load ::
    "'k::linorder key_impl \<Rightarrow> config \<Rightarrow> ('k \<times> 'v) list \<Rightarrow> (error + ('k, 'v) node) option" where
  "bulk_load K cfg pairs =
     (if pairs = [] then Some (Inl EmptyData)
      else if \<exists>i<length pairs - 1. fst (pairs ! (i + 1)) \<le> fst (pairs ! i)
      then Some (Inl NotSorted)
      else map_option Inr (build_recursive K cfg pairs))"

end
