(* ===== verification/Build_Facts.thy ===== *)
theory Build_Facts
  imports Build
begin

text \<open>
  Correctness of construction. A loop that fills the slots of a node keeps the invariant
  \<open>built\<close>: the slots filled so far hold exactly the pairs whose key is predicted there. At
  the end the tree is well formed and its entries are the input.
\<close>

subsection \<open>Filling the slots of a node\<close>

lemma map_of_filter_home:
  "map_of (filter (\<lambda>p. h (fst p) = h k) ps) k = map_of ps k"
  by (induction ps) auto

definition built ::
    "'k::linorder key_impl \<Rightarrow> ('k \<times> 'v) list \<Rightarrow> nat set \<Rightarrow> ('k, 'v) node \<Rightarrow> bool" where
  "built K ps D n \<longleftrightarrow>
     wf_node K n \<and>
     (\<forall>k. map_of (entries n) k = (if predict_slot K n k \<in> D then map_of ps k else None))"

lemma built_fresh:
  assumes "model_ok m" "0 < sz"
  shows "built K ps {} (with_capacity m sz)" "built K ps {} (with_capacity_leaf m sz)"
    "built K ps {} (with_split_key k sz)"
  using wf_fresh [OF assms] by (simp_all add: built_def)

lemma built_set_slot:
  assumes b: "built K ps D n" and i: "i < capacity n"
    and s: "map_of (entries_at s) = map_of (filter (\<lambda>p. predict_slot K n (fst p) = i) ps)"
    and child: "\<And>c. child_of s = Some c \<Longrightarrow> children_init n \<and> wf_node K c"
  shows "built K ps (insert i D) (set_slot i s n)"
proof -
  have "fst ` set (entries_at s) = fst ` set (filter (\<lambda>p. predict_slot K n (fst p) = i) ps)"
    using s by (metis dom_map_of_conv_image_fst)
  then have "predict_slot K n (fst p) = i" if "p \<in> set (entries_at s)" for p
    using that by (fastforce simp: set_eq_iff image_iff)
  then have wf: "wf_node K (set_slot i s n)"
    using b child by (intro wf_set_slot) (simp_all add: built_def)
  have "map_of (entries_at s) k = map_of ps k" if "predict_slot K n k = i" for k
    unfolding s that [symmetric] by (rule map_of_filter_home)
  then show ?thesis
    using b wf map_of_set_slot [OF _ wf i] by (simp add: built_def)
qed

lemma built_cong:
  assumes "built K ps D n" "slots n' = slots n" "node_model n' = node_model n"
    "split_key n' = split_key n" "children_init n \<Longrightarrow> children_init n'"
  shows "built K ps D n'"
proof -
  have "predict_slot K n' = predict_slot K n"
    by (rule ext, rule predict_slot_cong) (simp_all add: assms(2-4))
  then show ?thesis
    using assms(1) wf_node_cong [OF _ assms(2-5)] entries_cong [OF assms(2)]
    by (simp add: built_def)
qed

lemma built_store_data:
  assumes "built K ps D n" "i < capacity n"
    and "filter (\<lambda>p. predict_slot K n (fst p) = i) ps = [(k, v)]"
  shows "built K ps (insert i D) (inc_keys (store_data i k v n))"
proof -
  have "built K ps (insert i D) (set_slot i (Data k v) n)"
    using assms by (intro built_set_slot) simp_all
  then show ?thesis by (rule built_cong) (simp_all add: store_data_def)
qed

lemma built_store_child:
  assumes "built K ps D n" "i < capacity n" "wf_node K c"
    and "map_of (entries c) = map_of (filter (\<lambda>p. predict_slot K n (fst p) = i) ps)"
  shows "built K ps (insert i D) (store_child i c n)"
proof -
  have "built K ps D (ensure_children n)" using assms(1) by (rule built_cong) simp_all
  then show ?thesis
    unfolding store_child_def using assms(2-4) by (intro built_set_slot) simp_all
qed

lemma store_sel [simp]:
  "predict_slot K (store_data i k v n) = predict_slot K n"
  "capacity (store_data i k v n) = capacity n"
  "predict_slot K (store_child i c n) = predict_slot K n"
  "capacity (store_child i c n) = capacity n"
  by (simp_all add: store_data_def store_child_def)

text \<open>A group of one pair is stored inline, a larger one as the child built from it.\<close>

definition store_group ::
    "nat \<Rightarrow> ('k \<times> 'v) list \<Rightarrow> ('k, 'v) node \<Rightarrow> ('k, 'v) node \<Rightarrow> ('k, 'v) node" where
  "store_group i ps c n =
     (if length ps = 1 then inc_keys (store_data i (fst (ps ! 0)) (snd (ps ! 0)) n)
      else store_child i c n)"

lemma built_store_group:
  assumes "built K ps D n" "i < capacity n" "qs \<noteq> []"
    and "filter (\<lambda>p. predict_slot K n (fst p) = i) ps = qs"
    and "1 < length qs \<Longrightarrow> wf_node K c \<and> entries c = qs"
  shows "built K ps (insert i D) (store_group i qs c n)"
proof (cases "length qs = 1")
  case True
  then obtain p where "qs = [p]" by (cases qs) auto
  then show ?thesis
    using assms(4) by (auto simp: store_group_def intro!: built_store_data assms(1,2))
next
  case False
  then have "1 < length qs" using assms(3) by (cases qs) auto
  then show ?thesis
    using False assms(4,5) by (auto simp: store_group_def intro!: built_store_child assms(1,2))
qed

lemma store_group_sel [simp]:
  "predict_slot K (store_group i qs c n) = predict_slot K n"
  "capacity (store_group i qs c n) = capacity n"
  by (simp_all add: store_group_def)

lemma built_complete:
  assumes "built K ps D n" "\<And>p. p \<in> set ps \<Longrightarrow> predict_slot K n (fst p) \<in> D"
  shows "map_of (entries n) = map_of ps"
proof
  fix k
  have "map_of ps k = None" if "predict_slot K n k \<notin> D"
    using that assms(2) by (force simp: map_of_eq_None_iff)
  then show "map_of (entries n) k = map_of ps k" using assms(1) by (simp add: built_def)
qed

context key_contract
begin

lemma built_entries:
  assumes "built K ps D n" "\<And>p. p \<in> set ps \<Longrightarrow> predict_slot K n (fst p) \<in> D" "sorted_keys ps"
  shows "wf_node K n" "entries n = ps"
proof -
  show wf: "wf_node K n" using assms(1) by (simp add: built_def)
  show "entries n = ps"
    using entries_sorted [OF wf] assms(3) built_complete [OF assms(1,2)] by (rule sorted_keys_unique)
qed

end

subsection \<open>Runs of a sorted assignment\<close>

lemma slot_runs_spec:
  "sorted (map fst as) \<Longrightarrow>
     fst ` set (slot_runs as) = fst ` set as \<and>
     (\<forall>(s, is)\<in>set (slot_runs as). is \<noteq> [] \<and> is = map snd (filter (\<lambda>a. fst a = s) as))"
proof (induction as rule: slot_runs.induct)
  case (2 slot i as)
  let ?rest = "dropWhile (\<lambda>a. fst a = slot) as"
  have le: "\<forall>a\<in>set as. slot \<le> fst a" and sorted: "sorted (map fst as)" using 2(2) by auto
  have split: "takeWhile (\<lambda>a. fst a = slot) as = filter (\<lambda>a. fst a = slot) as \<and>
      ?rest = filter (\<lambda>a. fst a \<noteq> slot) as"
    using le sorted
  proof (induction as)
    case (Cons a as)
    show ?case
    proof (cases "fst a = slot")
      case False
      then have "\<forall>b\<in>set (a # as). fst b \<noteq> slot" using Cons.prems by fastforce
      then show ?thesis using False by (simp add: filter_empty_conv)
    qed (use Cons in simp)
  qed simp
  have "sorted (map fst ?rest)" using sorted split by (simp add: sorted_filter)
  note IH = 2(1) [OF this]
  have filter_rest: "filter (\<lambda>a. fst a = s) ?rest = filter (\<lambda>a. fst a = s) ((slot, i) # as)"
    if "s \<in> fst ` set (slot_runs ?rest)" for s
  proof -
    have "s \<in> fst ` set ?rest" using IH that by simp
    then have "s \<noteq> slot" using split by auto
    then have "filter (\<lambda>a. fst a = s) (filter (\<lambda>a. fst a \<noteq> slot) as) = filter (\<lambda>a. fst a = s) as"
      by (induction as) auto
    then show ?thesis using split \<open>s \<noteq> slot\<close> by simp
  qed
  have runs: "is \<noteq> [] \<and> is = map snd (filter (\<lambda>a. fst a = s) ((slot, i) # as))"
    if "(s, is) \<in> set (slot_runs ?rest)" for s "is"
  proof -
    have s: "s \<in> fst ` set (slot_runs ?rest)" using that by force
    have "is \<noteq> []" "is = map snd (filter (\<lambda>a. fst a = s) ?rest)"
      using bspec [OF conjunct2 [OF IH] that] unfolding prod.case by blast+
    then show ?thesis unfolding filter_rest [OF s] by blast
  qed
  show ?case
  proof (intro conjI ballI)
    show "fst ` set (slot_runs ((slot, i) # as)) = fst ` set ((slot, i) # as)"
      using IH split by auto
    fix r assume "r \<in> set (slot_runs ((slot, i) # as))"
    then show "case r of (s, is) \<Rightarrow> is \<noteq> [] \<and> is = map snd (filter (\<lambda>a. fst a = s) ((slot, i) # as))"
      using runs split by (cases r) auto
  qed
qed simp

lemma slot_runs_assignments:
  assumes "(s, run) \<in> set (slot_runs (slot_assignments K n ps))"
  shows "run \<noteq> []"
    and "map (\<lambda>i. ps ! i) run = filter (\<lambda>p. predict_slot K n (fst p) = s) ps"
proof -
  let ?f = "\<lambda>(i, p). (predict_slot K n (fst p), i)"
  have run: "run \<noteq> []" "run = map snd (filter (\<lambda>a. fst a = s) (slot_assignments K n ps))"
    using assms slot_runs_spec [of "slot_assignments K n ps"]
    by (auto simp: slot_assignments_def)
  then show "run \<noteq> []" by simp
  have "run = map snd (filter (\<lambda>a. fst a = s) (map ?f (enumerate 0 ps)))"
    unfolding run(2) slot_assignments_def by (simp add: sort_key_stable)
  also have "\<dots> = map fst (filter (\<lambda>(i, p). predict_slot K n (fst p) = s) (enumerate 0 ps))"
    by (simp add: filter_map o_def case_prod_unfold)
  finally have "map (\<lambda>i. ps ! i) run =
      map (\<lambda>x. ps ! fst x) (filter (\<lambda>x. predict_slot K n (fst (snd x)) = s) (enumerate 0 ps))"
    by (simp add: o_def case_prod_unfold)
  also have "\<dots> = map snd (filter (\<lambda>x. predict_slot K n (fst (snd x)) = s) (enumerate 0 ps))"
    by (intro map_cong refl) (auto simp: in_set_enumerate_eq)
  also have "\<dots> = filter (\<lambda>p. predict_slot K n (fst p) = s) (map snd (enumerate 0 ps))"
    by (simp only: filter_map o_def)
  finally show "map (\<lambda>i. ps ! i) run = filter (\<lambda>p. predict_slot K n (fst p) = s) ps" by simp
qed

lemma slot_runs_cover:
  "fst ` set (slot_runs (slot_assignments K n ps)) = predict_slot K n ` fst ` set ps"
proof -
  have "fst ` set (slot_runs (slot_assignments K n ps)) = fst ` set (slot_assignments K n ps)"
    using slot_runs_spec [of "slot_assignments K n ps"] by (simp add: slot_assignments_def)
  also have "\<dots> = (\<lambda>x. predict_slot K n (fst (snd x))) ` set (enumerate 0 ps)"
    by (simp add: slot_assignments_def image_image split_beta)
  also have "\<dots> = (\<lambda>p. predict_slot K n (fst p)) ` set (map snd (enumerate 0 ps))"
    by (simp only: set_map image_image)
  finally show ?thesis by (simp add: image_image)
qed

subsection \<open>Groups with equal model input\<close>

lemma i128_wrap_id: "- (2 ^ 127) \<le> x \<Longrightarrow> x < 2 ^ 127 \<Longrightarrow> i128_wrap x = x"
  by (simp add: i128_wrap_def)

lemma split_midpoint_between:
  assumes "- (2 ^ 127) \<le> lo" "lo < hi" "hi < 2 ^ 127" "hi - lo < 2 ^ 127"
  shows "lo \<le> split_midpoint lo hi" "split_midpoint lo hi < hi"
proof -
  have "i128_wrap (hi - lo) = hi - lo" using assms by (intro i128_wrap_id) linarith+
  moreover have "lo \<le> lo + (hi - lo) div 2" "lo + (hi - lo) div 2 < hi" using assms(2) by linarith+
  moreover from this have "i128_wrap (lo + (hi - lo) div 2) = lo + (hi - lo) div 2"
    using assms by (intro i128_wrap_id) linarith+
  ultimately show "lo \<le> split_midpoint lo hi" "split_midpoint lo hi < hi"
    using assms(2) by (simp_all add: split_midpoint_def i128_half_def)
qed

context key_contract
begin

text \<open>The boundary node of two halves sends each key to its half.\<close>

lemma split_node:
  assumes "k < k'" "to_exact_ordinal K k' - to_exact_ordinal K k < 2 ^ 127"
    and n: "n = (if to_exact_ordinal K k = to_exact_ordinal K k' then with_split_key k 2
                 else with_capacity (binary_split
                        (split_midpoint (to_exact_ordinal K k) (to_exact_ordinal K k'))) 2)"
  shows "built K ps {} n" "capacity n = 2"
    and "x \<le> k \<Longrightarrow> predict_slot K n x = 0" "k' \<le> x \<Longrightarrow> predict_slot K n x = 1"
proof -
  show "built K ps {} n" 
    using n built_fresh(1) [of _ 2 K ps] built_fresh(3) [of constant_model 2 K ps] by simp
  show cap: "capacity n = 2" using n by simp
  have mid: "to_exact_ordinal K k \<le> split_midpoint (to_exact_ordinal K k) (to_exact_ordinal K k')"
    "split_midpoint (to_exact_ordinal K k) (to_exact_ordinal K k') < to_exact_ordinal K k'"
    if "to_exact_ordinal K k \<noteq> to_exact_ordinal K k'"
  proof -
    have "to_exact_ordinal K k < to_exact_ordinal K k'"
      using that ordinal_mono [OF less_imp_le [OF assms(1)]] by linarith
    then show "to_exact_ordinal K k \<le> split_midpoint (to_exact_ordinal K k) (to_exact_ordinal K k')"
      "split_midpoint (to_exact_ordinal K k) (to_exact_ordinal K k') < to_exact_ordinal K k'"
      using split_midpoint_between ordinal_range [of k] ordinal_range [of k'] assms(2) by blast+
  qed
  show "predict_slot K n x = 0" if "x \<le> k"
    using n that order_trans [OF ordinal_mono [OF that] mid(1)]
    by (simp add: predict_slot_def predict_def binary_split_def)
  show "predict_slot K n x = 1" if "k' \<le> x"
  proof -
    have "\<not> x \<le> k" using that assms(1) by simp
    moreover have "\<not> to_exact_ordinal K x \<le> split_midpoint (to_exact_ordinal K k) (to_exact_ordinal K k')"
      if "to_exact_ordinal K k \<noteq> to_exact_ordinal K k'"
      using mid(2) [OF that] ordinal_mono [OF \<open>k' \<le> x\<close>] by linarith
    ultimately show ?thesis using n
      by (simp add: predict_slot_def predict_def binary_split_def saturating_sub_def)
  qed
qed

text \<open>One step of the construction, with its two halves.\<close>

lemma build_degenerate_step:
  assumes "2 \<le> length ps" "lo = take (length ps div 2) ps" "hi = drop (length ps div 2) ps"
  shows "build_degenerate K ps =
    store_group 1 hi (build_degenerate K hi) (store_group 0 lo (build_degenerate K lo)
      (if to_exact_ordinal K (fst (last lo)) = to_exact_ordinal K (fst (hd hi))
       then with_split_key (fst (last lo)) 2
       else with_capacity (binary_split
              (split_midpoint (to_exact_ordinal K (fst (last lo))) (to_exact_ordinal K (fst (hd hi))))) 2))"
proof -
  have "lo \<noteq> []" "hi \<noteq> []" using assms by auto
  then have ends: "lo ! (length lo - 1) = last lo" "hi ! 0 = hd hi"
    by (simp_all add: last_conv_nth hd_conv_nth)
  have "(length ps \<le> 1) = False" using assms(1) by simp
  then show ?thesis
    unfolding build_degenerate.simps [of K ps] Let_def store_group_def
      assms(2,3) [symmetric] ends by (simp only: if_False)
qed

lemma build_degenerate_correct:
  assumes "sorted_keys ps" "ps \<noteq> []"
    and "\<And>p q. p \<in> set ps \<Longrightarrow> q \<in> set ps \<Longrightarrow>
           to_exact_ordinal K (fst q) - to_exact_ordinal K (fst p) < 2 ^ 127"
  shows "wf_node K (build_degenerate K ps) \<and> entries (build_degenerate K ps) = ps"
  using assms
proof (induction ps rule: measure_induct_rule [where f = length])
  case (less ps)
  show ?case
  proof (cases "length ps \<le> 1")
    case True
    then obtain p where p: "ps = [p]" using less.prems(2) by (cases ps) auto
    define n :: "('k, 'a) node" where "n = with_capacity constant_model 1"
    have n: "built K ps {} n" "0 < capacity n" "\<And>k. predict_slot K n k = 0"
      using built_fresh(1) [of constant_model 1 K ps] predict_slot_less [of n K]
      by (simp_all add: n_def)
    have deg: "build_degenerate K ps = inc_keys (store_data 0 (fst p) (snd p) n)"
      unfolding build_degenerate.simps [of K ps] n_def using p by simp
    have "built K ps {0} (build_degenerate K ps)"
      using built_store_data [OF n(1,2), of "fst p" "snd p"] n(3) p deg by simp
    then show ?thesis
      using built_entries [of ps "{0}" "build_degenerate K ps"] less.prems(1) n(3) deg by simp
  next
    case False
    define lo where "lo = take (length ps div 2) ps"
    define hi where "hi = drop (length ps div 2) ps"
    have split: "ps = lo @ hi" "lo \<noteq> []" "hi \<noteq> []" "length lo < length ps" "length hi < length ps"
      using False by (auto simp: lo_def hi_def)
    have sorted: "sorted_keys lo" "sorted_keys hi" "\<And>p q. p \<in> set lo \<Longrightarrow> q \<in> set hi \<Longrightarrow> fst p < fst q"
      using less.prems(1) split(1) by (simp_all add: sorted_wrt_append)
    have lo: "wf_node K (build_degenerate K lo) \<and> entries (build_degenerate K lo) = lo"
      using less.prems(3) split by (intro less.IH sorted) auto
    have hi: "wf_node K (build_degenerate K hi) \<and> entries (build_degenerate K hi) = hi"
      using less.prems(3) split by (intro less.IH sorted) auto
    define n where "n = (if to_exact_ordinal K (fst (last lo)) = to_exact_ordinal K (fst (hd hi))
      then with_split_key (fst (last lo)) 2
      else with_capacity (binary_split (split_midpoint (to_exact_ordinal K (fst (last lo)))
        (to_exact_ordinal K (fst (hd hi))))) 2 :: ('k, 'a) node)"
    have kk: "fst (last lo) < fst (hd hi)"
      "to_exact_ordinal K (fst (hd hi)) - to_exact_ordinal K (fst (last lo)) < 2 ^ 127"
    proof -
      have "last lo \<in> set lo" "hd hi \<in> set hi" using split(2,3) by simp_all
      then show "fst (last lo) < fst (hd hi)"
        "to_exact_ordinal K (fst (hd hi)) - to_exact_ordinal K (fst (last lo)) < 2 ^ 127"
        using sorted(3) less.prems(3) [of "last lo" "hd hi"] by (simp_all add: split(1))
    qed
    note node = split_node [OF kk n_def]
    have home: "predict_slot K n (fst p) = (if p \<in> set lo then 0 else 1)" if "p \<in> set ps" for p
    proof (cases "p \<in> set lo")
      case True
      then show ?thesis using node(3) sorted_keys_hd_last(2) [OF sorted(1)] by simp
    next
      case False
      then have "p \<in> set hi" using that split(1) by simp
      then show ?thesis using False node(4) sorted_keys_hd_last(1) [OF sorted(2)] by simp
    qed
    have "p \<notin> set lo" if "p \<in> set hi" for p using sorted(3) that by blast
    then have "filter (\<lambda>p. predict_slot K n (fst p) = 0) ps = lo"
      "filter (\<lambda>p. predict_slot K n (fst p) = 1) ps = hi"
      using split(1) home by (auto simp: filter_empty_conv filter_id_conv)
    then have "built K ps {0} (store_group 0 lo (build_degenerate K lo) n)"
      "built K ps {1, 0} (store_group 1 hi (build_degenerate K hi)
          (store_group 0 lo (build_degenerate K lo) n))"
      using lo hi split node(1) [of ps] node(2)
      by (auto intro!: built_store_group)
    then show ?thesis
      using built_entries [of ps "{1, 0}"] less.prems(1) home
        build_degenerate_step [of ps] False
      unfolding n_def lo_def hi_def by simp
  qed
qed

lemma degenerate_group_correct:
  assumes "sorted_keys ps" "is_degenerate_group K ps"
  shows "wf_node K (build_degenerate K ps) \<and> entries (build_degenerate K ps) = ps"
proof -
  have len: "1 < length ps" using assms(2) by (simp add: is_degenerate_group_def split: if_splits)
  then have ends: "ps \<noteq> []" "ps ! 0 = hd ps" "ps ! (length ps - 1) = last ps"
    by (cases ps; simp add: last_conv_nth)+
  have "hd ps \<in> set ps" "last ps \<in> set ps" using ends(1) by simp_all
  then have "fst (hd ps) \<le> fst (last ps)" using sorted_keys_hd_last [OF assms(1)] by blast
  then have near: "to_exact_ordinal K (fst (last ps)) - to_exact_ordinal K (fst (hd ps)) < 2 ^ 127"
    using assms(2) len ends(2,3)
    by (intro ordinal_near) (simp_all add: is_degenerate_group_def Let_def)
  show ?thesis
  proof (rule build_degenerate_correct [OF assms(1) ends(1)])
    fix p q assume "p \<in> set ps" "q \<in> set ps"
    then have "to_exact_ordinal K (fst (hd ps)) \<le> to_exact_ordinal K (fst p)"
      "to_exact_ordinal K (fst q) \<le> to_exact_ordinal K (fst (last ps))"
      by (simp_all only: ordinal_mono sorted_keys_hd_last [OF assms(1)])
    then show "to_exact_ordinal K (fst q) - to_exact_ordinal K (fst p) < 2 ^ 127"
      using near by linarith
  qed
qed

subsection \<open>Recursive construction\<close>

lemma pairs_inputs_ok:
  assumes "sorted_keys ps" shows "inputs_ok (length ps) (\<lambda>i. to_model_input K (fst (ps ! i)))"
proof -
  have "fst (ps ! i) \<le> fst (ps ! j)" if "i \<le> j" "j < length ps" for i j
    using sorted_wrt_nth_less [OF assms, of i j] that by (cases "i = j") auto
  then show ?thesis
    using input_Fin input_bound input_val_mono unfolding inputs_ok_def by blast
qed

text \<open>What fitting gives to construction.\<close>

lemma fit_pairs:
  assumes "sorted_keys ps" "ps \<noteq> []" "length ps \<le> usize_max" "config_ok cfg"
  obtains r where
    "fit_fmcd (length ps) (\<lambda>i. to_model_input K (fst (ps ! i)))
       (expansion_factor cfg) (range_headroom cfg) = Inr r"
    "1 \<le> fmcd_array_size r" "model_ok (fmcd_model r)" "midpoint (fmcd_model r) = None"
    "fmcd_conflicts r = count_conflicts_fast (length ps) (\<lambda>i. to_model_input K (fst (ps ! i)))
       (fmcd_model r) (fmcd_array_size r)"
proof -
  obtain e h where "expansion_factor cfg = Fin e" "1 \<le> e" "range_headroom cfg = Fin h" "0 \<le> h"
    using assms(4) by (auto simp: config_ok_def)
  then show ?thesis
    using fit_fmcd_counted [OF pairs_inputs_ok [OF assms(1)]] assms(2,3) that
    by (auto simp: counted_def)
qed

text \<open>Without conflicts, the predicted slots are pairwise different.\<close>

lemma no_conflicts_distinct:
  assumes "sorted_keys ps" "model_ok m" "midpoint m = None"
    and "count_conflicts_fast (length ps) (\<lambda>i. to_model_input K (fst (ps ! i))) m sz = 0"
  shows "distinct (map (\<lambda>p. predict K m (fst p) sz) ps)"
proof -
  have le: "fst (ps ! i) \<le> fst (ps ! j)" if "i \<le> j" "j < length ps" for i j
    using sorted_wrt_nth_less [OF assms(1), of i j] that by (cases "i = j") auto
  have "predict K m (fst (ps ! i)) sz < predict K m (fst (ps ! j)) sz" if "i < j" "j < length ps" for i j
    using no_conflicts_strict [OF assms(4) _ that] predict_mono [OF assms(2) le]
    by (simp add: predict_eq_raw [OF assms(3)])
  then show ?thesis
    by (auto simp: distinct_conv_nth) (metis less_irrefl nat_neq_iff)
qed

lemma built_leaf:
  assumes "built K (ps @ qs) {} n"
    and "distinct (map (\<lambda>p. predict_slot K n (fst p)) (ps @ qs))"
  shows "predict_slot K (fold (store_pair K) ps n) = predict_slot K n \<and>
    built K (ps @ qs) ((\<lambda>p. predict_slot K n (fst p)) ` set ps) (fold (store_pair K) ps n)"
  using assms
proof (induction ps arbitrary: qs rule: rev_induct)
  case (snoc p ps)
  let ?n = "fold (store_pair K) ps n"
  let ?h = "\<lambda>p. predict_slot K n (fst p)"
  have IH: "predict_slot K ?n = predict_slot K n" "built K ((ps @ [p]) @ qs) (?h ` set ps) ?n"
    using snoc.IH [of "p # qs"] snoc.prems by simp_all
  have "?h q \<noteq> ?h p" if "q \<in> set ps \<union> set qs" for q
    using that snoc.prems(2) by (auto simp: image_iff)
  then have "filter (\<lambda>q. ?h q = ?h p) ((ps @ [p]) @ qs) = [p]"
    by (simp add: filter_empty_conv)
  moreover have "0 < capacity ?n" using IH(2) wf_nodeD(1) by (auto simp: built_def)
  then have "?h p < capacity ?n" using predict_slot_less [of ?n K "fst p"] IH(1) by simp
  ultimately show ?case
    using built_store_data [OF IH(2), of "?h p" "fst p" "snd p"] IH(1)
      store_pair_def [of K p ?n] by simp
qed simp

text \<open>The loop over the runs, for any construction of the children that is correct.\<close>

lemma build_runs_correct:
  assumes run: "fold_returns
      (\<lambda>(slot_idx, run) node.
         if length run = 1 then
           let p = ps ! (run ! 0)
           in Some (inc_keys (store_data slot_idx (fst p) (snd p) node))
         else
           let child_pairs = map (\<lambda>idx. ps ! idx) run
           in Option.bind
                (if is_degenerate_group K child_pairs
                 then Some (build_degenerate K child_pairs)
                 else build child_pairs)
                (\<lambda>child. Some (store_child slot_idx child node)))
      (slot_runs (slot_assignments K n0 ps)) n0 = Some n"
    and n0: "built K ps {} n0" and sorted: "sorted_keys ps"
    and build: "\<And>qs c. build qs = Some c \<Longrightarrow> sorted_keys qs \<Longrightarrow> qs \<noteq> [] \<Longrightarrow> set qs \<subseteq> set ps \<Longrightarrow>
      length qs \<le> length ps \<Longrightarrow> wf_node K c \<and> entries c = qs"
  shows "wf_node K n \<and> entries n = ps"
proof -
  let ?runs = "slot_runs (slot_assignments K n0 ps)"
  let ?I = "\<lambda>ys n. predict_slot K n = predict_slot K n0 \<and> capacity n = capacity n0 \<and>
    built K ps (fst ` set ys) n"
  have "?I ?runs n"
    using run
  proof (rule fold_returns_invariant)
    fix ys x zs s t
    assume runs: "?runs = ys @ x # zs" and I: "?I ys s"
    assume body: "(case x of (slot_idx, run) \<Rightarrow> \<lambda>node.
         if length run = 1 then
           let p = ps ! (run ! 0)
           in Some (inc_keys (store_data slot_idx (fst p) (snd p) node))
         else
           let child_pairs = map (\<lambda>idx. ps ! idx) run
           in Option.bind
                (if is_degenerate_group K child_pairs
                 then Some (build_degenerate K child_pairs)
                 else build child_pairs)
                (\<lambda>child. Some (store_child slot_idx child node))) s = Some t"
    obtain i run where x: "x = (i, run)" by fastforce
    have mem: "(i, run) \<in> set ?runs" using runs x by simp
    define qs where "qs = map (\<lambda>idx. ps ! idx) run"
    have qs: "qs = filter (\<lambda>p. predict_slot K s (fst p) = i) ps"
      using slot_runs_assignments(2) [OF mem] I by (simp add: qs_def)
    have len: "qs \<noteq> []" "length run = length qs"
      using slot_runs_assignments(1) [OF mem] by (simp_all add: qs_def)
    have sub: "sorted_keys qs" "set qs \<subseteq> set ps" "length qs \<le> length ps"
      using sorted_keys_filter [OF sorted] qs by auto
    have single: "ps ! (run ! 0) = qs ! 0" using len(1) by (simp add: qs_def)
    have "\<exists>c. t = store_group i qs c s \<and> (1 < length qs \<longrightarrow> wf_node K c \<and> entries c = qs)"
    proof (cases "length qs = 1")
      case True
      then show ?thesis using body single len(2) by (simp add: x store_group_def Let_def)
    next
      case False
      then obtain c where c: "t = store_child i c s"
        "(if is_degenerate_group K qs then Some (build_degenerate K qs) else build qs) = Some c"
        using body len(2) unfolding x by (auto simp: bind_eq_Some_conv Let_def simp flip: qs_def)
      then have "wf_node K c \<and> entries c = qs"
        using degenerate_group_correct [OF sub(1)] build [OF _ sub(1) len(1) sub(2,3)]
        by (simp split: if_splits)
      then show ?thesis using c(1) False by (auto simp: store_group_def)
    qed
    then obtain c where t: "t = store_group i qs c s"
      and c: "1 < length qs \<Longrightarrow> wf_node K c \<and> entries c = qs" by blast
    have "i \<in> predict_slot K n0 ` fst ` set ps"
      using mem slot_runs_cover [of K n0 ps] by (metis fst_conv image_eqI)
    moreover have "0 < capacity n0" using n0 wf_nodeD(1) [of K n0] by (simp add: built_def)
    ultimately have "i < capacity s" using I predict_slot_less by (auto simp: image_iff)
    then have "built K ps (insert i (fst ` set ys)) t"
      unfolding t using I qs len(1) c by (intro built_store_group) auto
    then show "?I (ys @ [x]) t" using I t x by simp
  qed (use n0 in simp)
  then show ?thesis
    using built_entries [of ps "fst ` set ?runs" n] sorted slot_runs_cover [of K n0 ps] by auto
qed

end

lemma build_recursive_correct:
  assumes "build_recursive K cfg ps = Some n"
    and "key_contract K" "sorted_keys ps" "ps \<noteq> []" "length ps \<le> usize_max" "config_ok cfg"
  shows "wf_node K n \<and> entries n = ps"
  using assms(2-)
proof (induction rule: build_recursive.raw_induct [OF _ assms(1), case_names body])
  case body: (body f K cfg ps n)
  note lawful = body(3) and sorted = body(4)
  obtain r where fit: "fit_fmcd (length ps) (\<lambda>i. to_model_input K (fst (ps ! i)))
       (expansion_factor cfg) (range_headroom cfg) = Inr r"
    and r: "1 \<le> fmcd_array_size r" "model_ok (fmcd_model r)" "midpoint (fmcd_model r) = None"
    "fmcd_conflicts r = count_conflicts_fast (length ps) (\<lambda>i. to_model_input K (fst (ps ! i)))
       (fmcd_model r) (fmcd_array_size r)"
    using key_contract.fit_pairs [OF lawful] body(4-7) by blast
  consider (degenerate) "is_degenerate_group K ps"
    | (leaf) "\<not> is_degenerate_group K ps" "fmcd_conflicts r = 0"
    | (inner) "\<not> is_degenerate_group K ps" "fmcd_conflicts r \<noteq> 0" by blast
  then show ?case
  proof cases
    case degenerate
    then have "1 < length ps" by (simp add: is_degenerate_group_def split: if_splits)
    then have "n = build_degenerate K ps" using body(2) degenerate by simp
    then show ?thesis
      using key_contract.degenerate_group_correct [OF lawful sorted degenerate] by simp
  next
    case leaf
    define n0 :: "('a, 'b) node" where "n0 = with_capacity_leaf (fmcd_model r) (fmcd_array_size r)"
    have n: "n = fold (store_pair K) ps n0" using body(2) leaf fit by (simp add: n0_def)
    have "built K (ps @ []) {} n0"
      using r(1) unfolding n0_def by (intro built_fresh(2) r(2)) simp
    moreover have "distinct (map (\<lambda>p. predict_slot K n0 (fst p)) (ps @ []))"
      using key_contract.no_conflicts_distinct [OF lawful sorted r(2,3)] r(4) leaf(2)
      by (simp add: n0_def predict_slot_def)
    ultimately have "predict_slot K n = predict_slot K n0"
      "built K ps ((\<lambda>p. predict_slot K n0 (fst p)) ` set ps) n"
      using key_contract.built_leaf [OF lawful, of ps "[]" n0] n by simp_all
    then show ?thesis
      using key_contract.built_entries [OF lawful, of ps "(\<lambda>p. predict_slot K n0 (fst p)) ` set ps" n]
        sorted by simp
  next
    case inner
    define n0 :: "('a, 'b) node" where "n0 = with_capacity (fmcd_model r) (fmcd_array_size r)"
    have built: "built K ps {} n0"
      using r(1) unfolding n0_def by (intro built_fresh(1) r(2)) simp
    show ?thesis
    proof (rule key_contract.build_runs_correct [OF lawful _ built sorted])
      show "wf_node K c \<and> entries c = qs"
        if "f K cfg qs = Some c" "sorted_keys qs" "qs \<noteq> []" "length qs \<le> length ps" for qs c
        using body(1) that lawful body(6,7) by simp
    qed (use body(2) inner fit in \<open>simp add: n0_def Let_def\<close>)
  qed
qed

lemma bulk_load_correct:
  assumes "bulk_load K cfg ps = Some (Inr n)"
    and "key_contract K" "length ps \<le> usize_max" "config_ok cfg"
  shows "sorted_keys ps \<and> wf_node K n \<and> entries n = ps"
proof -
  have ne: "ps \<noteq> []" and build: "build_recursive K cfg ps = Some n"
    and "\<And>i. Suc i < length ps \<Longrightarrow> fst (ps ! i) < fst (ps ! Suc i)"
    using assms(1) by (auto simp: bulk_load_def not_le less_diff_conv split: if_splits)
  then have "sorted_keys ps"
    by (intro sorted_wrt_iff_nth_Suc_transp [THEN iffD2]) (auto simp: transp_on_def)
  then show ?thesis using build_recursive_correct [OF build] assms ne by blast
qed

end
