(* ===== verification/Iter.thy ===== *)
theory Iter
  imports Lookup
begin

text \<open>
  \<^verbatim>\<open>src/iter.rs\<close>: in-order traversal with an explicit stack, range traversal that starts at
  the predicted position of the start bound, and the first and last entry. The top of the
  stack is the head of the list. Each loop ends because the slots left to visit get fewer
  (\<open>stack_work\<close>). Without concurrent writers no slot is in state \<^verbatim>\<open>WRITING\<close>, so the wait
  for such a slot does not occur.
\<close>

type_synonym ('k, 'v) frames = "(('k, 'v) node \<times> nat) list"

subsection \<open>Work left on a stack\<close>

function node_work :: "('k, 'v) node \<Rightarrow> nat" where
  "node_work n =
     Suc (sum_list (map (\<lambda>s. Suc (case child_of s of None \<Rightarrow> 0 | Some c \<Rightarrow> node_work c)) (slots n)))"
  by pat_completeness auto
termination
  by (relation "measure size") (auto intro: child_size)

declare node_work.simps [simp del]

definition slot_work :: "('k, 'v, ('k, 'v) node) slot \<Rightarrow> nat" where
  "slot_work s = Suc (case child_of s of None \<Rightarrow> 0 | Some c \<Rightarrow> node_work c)"

definition stack_work :: "('k, 'v) frames \<Rightarrow> nat" where
  "stack_work st = (\<Sum>(n, i)\<leftarrow>st. Suc (sum_list (map slot_work (drop i (slots n)))))"

lemma stack_work_Cons:
  "stack_work ((n, i) # st) = Suc (sum_list (map slot_work (drop i (slots n)))) + stack_work st"
  by (simp add: stack_work_def)

lemma stack_work_pop: "stack_work st < stack_work ((n, i) # st)"
  by (simp add: stack_work_Cons)

lemma stack_work_advance:
  "i < capacity n \<Longrightarrow>
     stack_work ((n, i) # st) = slot_work (slots n ! i) + stack_work ((n, Suc i) # st)"
  by (simp add: stack_work_Cons capacity_def Cons_nth_drop_Suc [symmetric])

lemma stack_work_skip: "\<not> capacity n \<le> i \<Longrightarrow> stack_work ((n, i + 1) # st) < stack_work ((n, i) # st)"
  by (simp add: stack_work_advance slot_work_def)

lemma stack_work_push:
  assumes "\<not> capacity n \<le> i" "load_child n i = Some c"
  shows "stack_work ((c, 0) # (n, i + 1) # st) < stack_work ((n, i) # st)"
proof -
  have "stack_work ((c, 0) # st') = node_work c + stack_work st'" for st'
    by (simp add: stack_work_Cons node_work.simps [of c] slot_work_def [abs_def])
  then show ?thesis
    using assms(1) load_child_Some(3) [OF assms(2)] by (simp add: stack_work_advance slot_work_def)
qed

text \<open>The ways a traversal can go on from a stack.\<close>

lemma frames_induct [case_names Nil Pop Skip Push]:
  assumes "P []"
    and "\<And>n i st. capacity n \<le> i \<Longrightarrow> P st \<Longrightarrow> P ((n, i) # st)"
    and "\<And>n i st. i < capacity n \<Longrightarrow> load_child n i = None \<Longrightarrow> P ((n, i + 1) # st) \<Longrightarrow>
           P ((n, i) # st)"
    and "\<And>n i st c. i < capacity n \<Longrightarrow> load_child n i = Some c \<Longrightarrow>
           P ((c, 0) # (n, i + 1) # st) \<Longrightarrow> P ((n, i) # st)"
  shows "P st"
proof (induction st rule: measure_induct_rule [where f = stack_work])
  case (less st)
  show ?case
  proof (cases st)
    case (Cons f rest)
    obtain n i where f: "f = (n, i)" by fastforce
    consider "capacity n \<le> i" | "i < capacity n" "load_child n i = None"
      | c where "i < capacity n" "load_child n i = Some c" by (cases "load_child n i") fastforce+
    then show ?thesis
    proof cases
      case 1
      then show ?thesis using assms(2) less.IH stack_work_pop Cons f by blast
    next
      case 2
      then show ?thesis using assms(3) less.IH stack_work_skip Cons f by (meson not_le)
    next
      case 3
      then show ?thesis using assms(4) less.IH stack_work_push Cons f by (meson not_le)
    qed
  qed (simp add: assms(1))
qed

subsection \<open>Iter\<close>

record ('k, 'v) iter =
  iter_stack :: "('k, 'v) frames"
  remaining :: "nat option"

definition iter_new :: "('k, 'v) node \<Rightarrow> ('k, 'v) iter" where
  "iter_new rt = \<lparr>iter_stack = [(rt, 0)], remaining = None\<rparr>"

definition iter_with_hint :: "('k, 'v) node \<Rightarrow> nat \<Rightarrow> ('k, 'v) iter" where
  "iter_with_hint rt n = \<lparr>iter_stack = [(rt, 0)], remaining = Some n\<rparr>"

function iter_next :: "('k, 'v) iter \<Rightarrow> ('k \<times> 'v) option \<times> ('k, 'v) iter" where
  "iter_next it =
     (case iter_stack it of
        [] \<Rightarrow> (None, it)
      | (node, slot_idx) # rest \<Rightarrow>
          if capacity node \<le> slot_idx then iter_next (it\<lparr>iter_stack := rest\<rparr>)
          else
            let it' = it\<lparr>iter_stack := (node, slot_idx + 1) # rest\<rparr>
            in case slot_at node slot_idx of
                 Data k v \<Rightarrow>
                   (Some (k, v),
                    it'\<lparr>remaining := map_option (\<lambda>r. saturating_sub r 1) (remaining it)\<rparr>)
               | s \<Rightarrow>
                   if is_child (state_of s) then
                     (case load_child node slot_idx of
                        None \<Rightarrow> iter_next it'
                      | Some child \<Rightarrow>
                          iter_next (it'\<lparr>iter_stack := (child, 0) # iter_stack it'\<rparr>))
                   else iter_next it')"
  by pat_completeness auto
termination
  by (relation "measure (\<lambda>it. stack_work (iter_stack it))")
    (auto simp: stack_work_pop intro: stack_work_skip stack_work_push
      stack_work_skip [simplified] stack_work_push [simplified])

declare iter_next.simps [simp del]

definition iter_size_hint :: "('k, 'v) iter \<Rightarrow> nat \<times> nat option" where
  "iter_size_hint it = (case remaining it of None \<Rightarrow> (0, None) | Some r \<Rightarrow> (r, Some r))"

text \<open>One round of the loop.\<close>

abbreviation iter_at :: "('k, 'v) frames \<Rightarrow> nat option \<Rightarrow> ('k, 'v) iter" where
  "iter_at st r \<equiv> \<lparr>iter_stack = st, remaining = r\<rparr>"

lemma load_child_leaf: "child_of (slots n ! i) = None \<Longrightarrow> load_child n i = None"
  by (simp add: load_child_def slot_at_def)

lemma iter_next_step:
  "iter_next (iter_at [] r) = (None, iter_at [] r)"
  "capacity n \<le> i \<Longrightarrow> iter_next (iter_at ((n, i) # st) r) = iter_next (iter_at st r)"
  "i < capacity n \<Longrightarrow> load_child n i = Some c \<Longrightarrow>
     iter_next (iter_at ((n, i) # st) r) = iter_next (iter_at ((c, 0) # (n, i + 1) # st) r)"
  "i < capacity n \<Longrightarrow> load_child n i = None \<Longrightarrow>
     iter_next (iter_at ((n, i) # st) r) =
       (case slots n ! i of
          Data k v \<Rightarrow>
            (Some (k, v), iter_at ((n, i + 1) # st) (map_option (\<lambda>r. saturating_sub r 1) r))
        | _ \<Rightarrow> iter_next (iter_at ((n, i + 1) # st) r))"
  using load_child_Some(3) [of n i c]
  by (cases "slots n ! i"; simp add: iter_next.simps [of "iter_at _ _"] slot_at_eq)+

text \<open>Every item yielded uses up some of the work.\<close>

lemma iter_next_work:
  "iter_next (iter_at st r) = (Some p, it) \<Longrightarrow> stack_work (iter_stack it) < stack_work st"
proof (induction st rule: frames_induct)
  case (Pop n i st)
  then show ?case using stack_work_pop [of st n i] by (simp add: iter_next_step)
next
  case (Skip n i st)
  then show ?case using stack_work_skip [of n i st]
    by (auto simp: iter_next_step split: slot.splits)
next
  case (Push n i st c)
  then show ?case using stack_work_push [of n i c st] by (simp add: iter_next_step)
qed (simp add: iter_next_step)

lemma iter_next_decreases:
  "iter_next it = (Some p, it') \<Longrightarrow> stack_work (iter_stack it') < stack_work (iter_stack it)"
  using iter_next_work by (cases it) fastforce

text \<open>\<^verbatim>\<open>collect\<close>: the items until the first \<open>None\<close>.\<close>

function iter_collect :: "('k, 'v) iter \<Rightarrow> ('k \<times> 'v) list" where
  "iter_collect it =
     (case iter_next it of
        (None, _) \<Rightarrow> []
      | (Some p, it') \<Rightarrow> p # iter_collect it')"
  by pat_completeness auto
termination
  by (relation "measure (\<lambda>it. stack_work (iter_stack it))")
    (auto intro: iter_next_decreases dest: sym)

declare iter_collect.simps [simp del]

definition sorted_pairs :: "('k, 'v) node \<Rightarrow> ('k \<times> 'v) list" where
  "sorted_pairs rt = iter_collect (iter_new rt)"

subsection \<open>Range\<close>

datatype 'k bound = Included 'k | Excluded 'k | Unbounded

record ('k, 'v) range_iter =
  range_stack :: "('k, 'v) frames"
  range_start :: "'k bound"
  range_end :: "'k bound"
  started :: bool
  range_done :: bool

text \<open>\<open>seek_to\<close> pushes onto the stack it is given.\<close>

function seek_to ::
    "'k::linorder key_impl \<Rightarrow> ('k, 'v) node \<Rightarrow> 'k \<Rightarrow> ('k, 'v) frames \<Rightarrow> ('k, 'v) frames" where
  "seek_to K node key st =
     (let p = predict_slot K node key
      in if is_child (slot_state node p) then
           (case load_child node p of
              Some child \<Rightarrow> seek_to K child key ((node, p + 1) # st)
            | None \<Rightarrow> (node, p) # st)
         else (node, p) # st)"
  by pat_completeness auto
termination
  by (relation "measure (\<lambda>(K, n, key, st). size n)") (auto intro: load_child_size)

declare seek_to.simps [simp del]

definition range_new ::
    "'k::linorder key_impl \<Rightarrow> ('k, 'v) node \<Rightarrow> 'k bound \<Rightarrow> 'k bound \<Rightarrow> ('k, 'v) range_iter" where
  "range_new K rt lower upper =
     (let it = \<lparr>range_stack = [], range_start = lower, range_end = upper,
                started = (lower = Unbounded), range_done = False\<rparr>;
          seek_key = (case lower of Included k \<Rightarrow> Some k | Excluded k \<Rightarrow> Some k | Unbounded \<Rightarrow> None)
      in case seek_key of
           Some k \<Rightarrow> it\<lparr>range_stack := seek_to K rt k (range_stack it)\<rparr>
         | None \<Rightarrow> it\<lparr>range_stack := [(rt, 0)]\<rparr>)"

fun past_end :: "'k::linorder bound \<Rightarrow> 'k \<Rightarrow> bool" where
  "past_end (Included b) key \<longleftrightarrow> b < key"
| "past_end (Excluded b) key \<longleftrightarrow> b \<le> key"
| "past_end Unbounded key \<longleftrightarrow> False"

fun before_start :: "'k::linorder bound \<Rightarrow> 'k \<Rightarrow> bool" where
  "before_start (Included b) key \<longleftrightarrow> key < b"
| "before_start (Excluded b) key \<longleftrightarrow> key \<le> b"
| "before_start Unbounded key \<longleftrightarrow> False"

function range_loop :: "('k::linorder, 'v) range_iter \<Rightarrow> ('k \<times> 'v) option \<times> ('k, 'v) range_iter" where
  "range_loop it =
     (case range_stack it of
        [] \<Rightarrow> (None, it)
      | (node, slot_idx) # rest \<Rightarrow>
          if capacity node \<le> slot_idx then range_loop (it\<lparr>range_stack := rest\<rparr>)
          else
            let it' = it\<lparr>range_stack := (node, slot_idx + 1) # rest\<rparr>
            in case slot_at node slot_idx of
                 Data k v \<Rightarrow>
                   if past_end (range_end it) k then (None, it'\<lparr>range_done := True\<rparr>)
                   else if \<not> started it \<and> before_start (range_start it) k then range_loop it'
                   else (Some (k, v), it'\<lparr>started := True\<rparr>)
               | s \<Rightarrow>
                   if is_child (state_of s) then
                     (case load_child node slot_idx of
                        None \<Rightarrow> range_loop it'
                      | Some child \<Rightarrow>
                          range_loop (it'\<lparr>range_stack := (child, 0) # range_stack it'\<rparr>))
                   else range_loop it')"
  by pat_completeness auto
termination
  by (relation "measure (\<lambda>it. stack_work (range_stack it))")
    (auto simp: stack_work_pop intro: stack_work_skip [simplified] stack_work_push [simplified])

declare range_loop.simps [simp del]

definition range_next :: "('k::linorder, 'v) range_iter \<Rightarrow> ('k \<times> 'v) option \<times> ('k, 'v) range_iter" where
  "range_next it = (if range_done it then (None, it) else range_loop it)"

abbreviation range_at ::
    "('k, 'v) frames \<Rightarrow> 'k bound \<Rightarrow> 'k bound \<Rightarrow> bool \<Rightarrow> bool \<Rightarrow> ('k, 'v) range_iter" where
  "range_at st lo hi s d \<equiv>
     \<lparr>range_stack = st, range_start = lo, range_end = hi, started = s, range_done = d\<rparr>"

lemma range_loop_step:
  "range_loop (range_at [] lo hi s d) = (None, range_at [] lo hi s d)"
  "capacity n \<le> i \<Longrightarrow> range_loop (range_at ((n, i) # st) lo hi s d) = range_loop (range_at st lo hi s d)"
  "i < capacity n \<Longrightarrow> load_child n i = Some c \<Longrightarrow>
     range_loop (range_at ((n, i) # st) lo hi s d) =
       range_loop (range_at ((c, 0) # (n, i + 1) # st) lo hi s d)"
  "i < capacity n \<Longrightarrow> load_child n i = None \<Longrightarrow>
     range_loop (range_at ((n, i) # st) lo hi s d) =
       (case slots n ! i of
          Data k v \<Rightarrow>
            if past_end hi k then (None, range_at ((n, i + 1) # st) lo hi s True)
            else if \<not> s \<and> before_start lo k then range_loop (range_at ((n, i + 1) # st) lo hi s d)
            else (Some (k, v), range_at ((n, i + 1) # st) lo hi True d)
        | _ \<Rightarrow> range_loop (range_at ((n, i + 1) # st) lo hi s d))"
  using load_child_Some(3) [of n i c]
  by (cases "slots n ! i"; simp add: range_loop.simps [of "range_at _ _ _ _ _"] slot_at_eq)+

lemma range_loop_work:
  "range_loop (range_at st lo hi s d) = (Some p, it) \<Longrightarrow>
     stack_work (range_stack it) < stack_work st"
proof (induction st rule: frames_induct)
  case (Pop n i st)
  then show ?case using stack_work_pop [of st n i] by (simp add: range_loop_step)
next
  case (Skip n i st)
  then show ?case using stack_work_skip [of n i st]
    by (auto simp: range_loop_step split: slot.splits if_splits)
next
  case (Push n i st c)
  then show ?case using stack_work_push [of n i c st] by (simp add: range_loop_step)
qed (simp add: range_loop_step)

lemma range_next_decreases:
  "range_next it = (Some p, it') \<Longrightarrow> stack_work (range_stack it') < stack_work (range_stack it)"
  using range_loop_work by (cases it) (fastforce simp: range_next_def split: if_splits)

function range_collect :: "('k::linorder, 'v) range_iter \<Rightarrow> ('k \<times> 'v) list" where
  "range_collect it =
     (case range_next it of
        (None, _) \<Rightarrow> []
      | (Some p, it') \<Rightarrow> p # range_collect it')"
  by pat_completeness auto
termination
  by (relation "measure (\<lambda>it. stack_work (range_stack it))")
    (auto intro: range_next_decreases dest: sym)

declare range_collect.simps [simp del]

subsection \<open>First and last entry\<close>

definition first_entry :: "('k, 'v) node \<Rightarrow> ('k \<times> 'v) option" where
  "first_entry rt = fst (iter_next (iter_new rt))"

text \<open>The reverse scan: a frame holds the number of slots not yet visited.\<close>

definition back_work :: "('k, 'v) frames \<Rightarrow> nat" where
  "back_work st = (\<Sum>(n, i)\<leftarrow>st. Suc (sum_list (map slot_work (take i (slots n)))))"

lemma back_work_Cons:
  "back_work ((n, i) # st) = Suc (sum_list (map slot_work (take i (slots n)))) + back_work st"
  by (simp add: back_work_def)

lemma back_work_child:
  assumes "i < capacity n" "load_child n i = Some c"
  shows "back_work ((c, capacity c) # (n, i) # st) < back_work ((n, Suc i) # st)"
proof -
  have "back_work ((c, capacity c) # st') = node_work c + back_work st'" for st'
    by (simp add: back_work_Cons node_work.simps [of c] slot_work_def [abs_def] capacity_def)
  then show ?thesis
    using assms(1) load_child_Some(3) [OF assms(2)]
    by (simp add: back_work_Cons take_Suc_conv_app_nth capacity_def slot_work_def)
qed

lemma back_work_skip: "back_work ((n, i) # st) \<le> back_work ((n, Suc i) # st)"
proof (cases "i < capacity n")
  case True
  then show ?thesis by (simp add: back_work_Cons take_Suc_conv_app_nth capacity_def)
qed (simp add: back_work_Cons capacity_def)

abbreviation back_order :: "(('k, 'v) frames \<times> ('k, 'v) frames) set" where
  "back_order \<equiv> measures [back_work, \<lambda>st. sum_list (map snd st)]"

lemma back_order_steps:
  "(st, (n, 0) # st) \<in> back_order"
  "((n, i) # st, (n, Suc i) # st) \<in> back_order"
  "load_child n i = Some c \<Longrightarrow> ((c, capacity c) # (n, i) # st, (n, Suc i) # st) \<in> back_order"
  using back_work_skip [of n i st] back_work_child [of i n c st] load_child_Some(1) [of n i c]
  by (auto simp: back_work_Cons [of n 0])

function last_loop :: "('k, 'v) frames \<Rightarrow> ('k \<times> 'v) option" where
  "last_loop [] = None"
| "last_loop ((node, 0) # rest) = last_loop rest"
| "last_loop ((node, Suc i) # rest) =
     (case slot_at node i of
        Data k v \<Rightarrow> Some (k, v)
      | s \<Rightarrow>
          if is_child (state_of s) then
            (case load_child node i of
               None \<Rightarrow> last_loop ((node, i) # rest)
             | Some child \<Rightarrow> last_loop ((child, capacity child) # (node, i) # rest))
          else last_loop ((node, i) # rest))"
  by pat_completeness auto
termination
  by (relation back_order) (auto simp del: in_measures intro: back_order_steps)

definition last_entry :: "('k, 'v) node \<Rightarrow> ('k \<times> 'v) option" where
  "last_entry rt = last_loop [(rt, capacity rt)]"

end
