(* ===== verification/Iter_Facts.thy ===== *)
theory Iter_Facts
  imports Iter
begin

text \<open>
  What the traversals yield. A stack stands for the entries still to come (\<open>pending\<close>); a full
  traversal yields the list of live entries, a range traversal the entries within its bounds,
  and the two ends are the first and the last of them.
\<close>

subsection \<open>Pending entries of a stack\<close>

definition frame_entries :: "('k, 'v) node \<times> nat \<Rightarrow> ('k \<times> 'v) list" where
  "frame_entries f = concat (map entries_at (drop (snd f) (slots (fst f))))"

definition pending :: "('k, 'v) frames \<Rightarrow> ('k \<times> 'v) list" where
  "pending st = concat (map frame_entries st)"

definition frames_ok :: "'k::linorder key_impl \<Rightarrow> ('k, 'v) frames \<Rightarrow> bool" where
  "frames_ok K st \<longleftrightarrow> (\<forall>f\<in>set st. wf_node K (fst f))"

lemma pending_Nil [simp]: "pending [] = []"
  by (simp add: pending_def)

lemma pending_pop: "capacity n \<le> i \<Longrightarrow> pending ((n, i) # st) = pending st"
  by (simp add: pending_def frame_entries_def capacity_def)

lemma pending_advance:
  "i < capacity n \<Longrightarrow> pending ((n, i) # st) = entries_at (slots n ! i) @ pending ((n, i + 1) # st)"
  by (simp add: pending_def frame_entries_def capacity_def Cons_nth_drop_Suc [symmetric])

lemma pending_push: "pending ((c, 0) # st) = entries c @ pending st"
  by (simp add: pending_def frame_entries_def entries.simps [of c])

lemma pending_root: "pending [(n, 0)] = entries n"
  by (simp add: pending_push)

lemma frames_ok_simps [simp]:
  "frames_ok K []" "frames_ok K ((n, i) # st) \<longleftrightarrow> wf_node K n \<and> frames_ok K st"
  by (auto simp: frames_ok_def)

text \<open>A slot without a loadable child holds its own entry at most.\<close>

lemma pending_skip:
  assumes "wf_node K n" "i < capacity n" "load_child n i = None"
  shows "pending ((n, i) # st) =
    (case slots n ! i of Data k v \<Rightarrow> [(k, v)] | _ \<Rightarrow> []) @ pending ((n, i + 1) # st)"
  using load_child_eq [OF assms(1,2)] assms(3)
  by (cases "slots n ! i") (simp_all add: pending_advance [OF assms(2)])

lemma pending_child:
  assumes "i < capacity n" "load_child n i = Some c"
  shows "pending ((n, i) # st) = pending ((c, 0) # (n, i + 1) # st)"
  using load_child_Some(3) [OF assms(2)]
  by (cases "slots n ! i") (simp_all add: pending_advance [OF assms(1)] pending_push)

subsection \<open>Iter\<close>

lemma iter_next_pending:
  "iter_next (iter_at st r) = (x, it) \<Longrightarrow> frames_ok K st \<Longrightarrow>
     (x = None \<longrightarrow> pending st = []) \<and>
     (\<forall>p. x = Some p \<longrightarrow> frames_ok K (iter_stack it) \<and> pending st = p # pending (iter_stack it))"
proof (induction st rule: frames_induct)
  case (Skip n i st)
  then have "wf_node K n" by simp
  note pend = pending_skip [OF this Skip.hyps, of st]
  show ?case using Skip pend by (cases "slots n ! i") (auto simp: iter_next_step)
qed (auto simp: iter_next_step pending_pop pending_child load_child_wf)

lemma iter_collect_pending:
  "frames_ok K (iter_stack it) \<Longrightarrow> iter_collect it = pending (iter_stack it)"
proof (induction it rule: iter_collect.induct)
  case (1 it)
  have "iter_next it = iter_next (iter_at (iter_stack it) (remaining it))" by (cases it) simp
  then show ?case
    using iter_next_pending [of "iter_stack it" "remaining it" _ _ K] "1.IH" "1.prems"
    by (auto simp: iter_collect.simps [of it] split: prod.splits option.splits)
qed

lemma iter_collect_entries:
  assumes "wf_node K n"
  shows "iter_collect (iter_new n) = entries n" "iter_collect (iter_with_hint n c) = entries n"
    "sorted_pairs n = entries n"
  using assms by (simp_all add: iter_collect_pending [of K] iter_new_def iter_with_hint_def
      sorted_pairs_def pending_root)

lemma first_entry_entries:
  assumes "wf_node K n"
  shows "first_entry n = (case entries n of [] \<Rightarrow> None | p # _ \<Rightarrow> Some p)"
  using iter_next_pending [of "[(n, 0)]" None _ _ K] assms
  by (cases "iter_next (iter_at [(n, 0)] None)"; cases "fst (iter_next (iter_at [(n, 0)] None))")
    (auto simp: first_entry_def iter_new_def pending_root)

text \<open>The size hint counts down with each item and stops at zero.\<close>

lemma iter_next_hint:
  "iter_next (iter_at st r) = (Some p, it) \<Longrightarrow> remaining it = map_option (\<lambda>r. r - 1) r"
proof (induction st rule: frames_induct)
  case (Skip n i st)
  then show ?case
    by (auto simp: iter_next_step saturating_sub_def split: slot.splits)
qed (simp_all add: iter_next_step)

subsection \<open>Range\<close>

text \<open>The keys of a range, by the order alone.\<close>

definition in_range :: "'k::linorder bound \<Rightarrow> 'k bound \<Rightarrow> 'k \<Rightarrow> bool" where
  "in_range lo hi k \<longleftrightarrow>
     (case lo of Included a \<Rightarrow> a \<le> k | Excluded a \<Rightarrow> a < k | Unbounded \<Rightarrow> True) \<and>
     (case hi of Included b \<Rightarrow> k \<le> b | Excluded b \<Rightarrow> k < b | Unbounded \<Rightarrow> True)"

lemma in_range_bounds: "in_range lo hi k \<longleftrightarrow> \<not> before_start lo k \<and> \<not> past_end hi k"
  by (cases lo; cases hi) (auto simp: in_range_def)

lemma past_end_mono: "past_end hi k \<Longrightarrow> k \<le> k' \<Longrightarrow> past_end hi k'"
  by (cases hi) auto

lemma before_start_mono: "before_start lo k' \<Longrightarrow> k \<le> k' \<Longrightarrow> before_start lo k"
  by (cases lo) auto

text \<open>The entries a range iterator in some state will still yield.\<close>

definition range_pending :: "('k::linorder, 'v) range_iter \<Rightarrow> ('k \<times> 'v) list" where
  "range_pending it =
     (if range_done it then []
      else filter (\<lambda>p. in_range (range_start it) (range_end it) (fst p)) (pending (range_stack it)))"

definition range_ok :: "'k::linorder key_impl \<Rightarrow> ('k, 'v) range_iter \<Rightarrow> bool" where
  "range_ok K it \<longleftrightarrow>
     frames_ok K (range_stack it) \<and> sorted_keys (pending (range_stack it)) \<and>
     (started it \<longrightarrow> (\<forall>p\<in>set (pending (range_stack it)). \<not> before_start (range_start it) (fst p)))"

lemma range_pending_at:
  "range_pending (range_at st lo hi s False) = filter (\<lambda>p. in_range lo hi (fst p)) (pending st)"
  "range_pending (range_at st lo hi s True) = []"
  by (simp_all add: range_pending_def)

lemma filter_past_end:
  assumes "sorted_keys ((k, v) # ps)" "past_end hi k"
  shows "filter (\<lambda>p. in_range lo hi (fst p)) ps = []"
  using assms past_end_mono [OF assms(2)]
  by (auto simp: filter_empty_conv in_range_bounds less_imp_le)

lemma range_loop_pending:
  "range_loop (range_at st lo hi s False) = (x, it) \<Longrightarrow> range_ok K (range_at st lo hi s False) \<Longrightarrow>
     (x = None \<longrightarrow> range_pending (range_at st lo hi s False) = []) \<and>
     (\<forall>p. x = Some p \<longrightarrow>
        range_ok K it \<and> range_pending (range_at st lo hi s False) = p # range_pending it)"
proof (induction st rule: frames_induct)
  case Nil
  then show ?case by (auto simp: range_loop_step range_pending_at)
next
  case (Pop n i st)
  then show ?case
    by (simp add: range_loop_step range_ok_def [of K "range_at _ _ _ _ _"] range_pending_at pending_pop)
next
  case (Push n i st c)
  then have "wf_node K c" using load_child_wf by (auto simp: range_ok_def)
  with Push show ?case
    using pending_child [OF Push.hyps, of st]
    by (simp add: range_loop_step range_ok_def [of K "range_at _ _ _ _ _"] range_pending_at)
next
  case (Skip n i st)
  have wf: "wf_node K n" using Skip.prems by (simp add: range_ok_def)
  note pend = pending_skip [OF wf Skip.hyps, of st]
  show ?case
  proof (cases "\<exists>k v. slots n ! i = Data k v")
    case False
    then have "pending ((n, i) # st) = pending ((n, i + 1) # st)"
      using pend by (cases "slots n ! i") auto
    then show ?thesis using Skip False
      by (cases "slots n ! i") (simp_all add: range_loop_step range_pending_at range_ok_def [of K "range_at _ _ _ _ _"])
  next
    case True
    then obtain k v where kv: "slots n ! i = Data k v" by blast
    then have pend: "pending ((n, i) # st) = (k, v) # pending ((n, i + 1) # st)" using pend by simp
    have sorted: "sorted_keys ((k, v) # pending ((n, i + 1) # st))"
      using Skip.prems pend by (simp add: range_ok_def)
    have later: "\<not> before_start lo (fst p)"
      if "\<not> before_start lo k" "p \<in> set (pending ((n, i + 1) # st))" for p
      using that sorted before_start_mono [of lo "fst p" k] by (auto simp: less_imp_le)
    consider "past_end hi k" | "\<not> past_end hi k" "\<not> s" "before_start lo k"
      | "\<not> past_end hi k" "s \<or> \<not> before_start lo k" by blast
    then show ?thesis
    proof cases
      case 1
      then show ?thesis using Skip.prems(1) Skip.hyps kv pend filter_past_end [OF sorted 1, of lo]
        by (simp add: range_loop_step range_pending_at in_range_bounds)
    next
      case 2
      then have "range_ok K (range_at ((n, i + 1) # st) lo hi s False)"
        using Skip.prems pend by (simp add: range_ok_def)
      then show ?thesis using Skip.IH Skip.prems(1) Skip.hyps 2 kv pend
        by (simp add: range_loop_step range_pending_at in_range_bounds)
    next
      case 3
      then have "\<not> before_start lo k" using Skip.prems pend by (auto simp: range_ok_def)
      then show ?thesis using Skip.prems Skip.hyps 3 kv pend later
        by (auto simp: range_loop_step range_pending_at range_ok_def [of K "range_at _ _ _ _ _"] in_range_bounds)
    qed
  qed
qed

lemma range_collect_pending: "range_ok K it \<Longrightarrow> range_collect it = range_pending it"
proof (induction it rule: range_collect.induct)
  case (1 it)
  show ?case
  proof (cases "range_done it")
    case True
    then show ?thesis by (simp add: range_collect.simps [of it] range_next_def range_pending_def)
  next
    case False
    then have it: "it = range_at (range_stack it) (range_start it) (range_end it) (started it) False"
      by (cases it) simp
    obtain x it' where step: "range_loop it = (x, it')" by fastforce
    then have *: "(x = None \<longrightarrow> range_pending it = []) \<and>
        (\<forall>p. x = Some p \<longrightarrow> range_ok K it' \<and> range_pending it = p # range_pending it')"
      using range_loop_pending [of "range_stack it" "range_start it" "range_end it" "started it" x it' K]
        "1.prems" it by metis
    show ?thesis
    proof (cases x)
      case None
      then show ?thesis using * step False by (simp add: range_collect.simps [of it] range_next_def)
    next
      case (Some p)
      moreover have "range_collect it' = range_pending it'"
        using "1.IH" * step False Some
        by (auto simp: range_next_def)
      ultimately show ?thesis
        using * step False by (simp add: range_collect.simps [of it] range_next_def)
    qed
  qed
qed

context key_contract
begin

text \<open>Seeking skips entries below the key only.\<close>

lemma seek_to_pending:
  assumes "wf_node K n" "frames_ok K st"
  shows "frames_ok K (seek_to K n k st) \<and>
    (\<exists>pre own. entries n = pre @ own \<and> pending (seek_to K n k st) = own @ pending st \<and>
       (\<forall>p\<in>set pre. fst p < k))"
  using assms
proof (induction n arbitrary: st rule: node_induct)
  case (Node n)
  let ?p = "predict_slot K n k"
  let ?pre = "concat (map entries_at (take ?p (slots n)))"
  have p: "?p < capacity n" by (rule predict_slot_less) (rule wf_nodeD(1) [OF Node.prems(1)])
  have split: "entries n = ?pre @ pending [(n, ?p)]"
    by (simp add: entries.simps [of n] pending_def frame_entries_def flip: concat_append map_append)
  have rest: "pending ((n, i) # st) = pending [(n, i)] @ pending st" for i
    by (simp add: pending_def)
  have pre: "fst q < k" if q: "q \<in> set ?pre" for q
  proof -
    obtain s where "s \<in> set (take ?p (slots n))" "q \<in> set (entries_at s)" using q by auto
    then obtain i where "i < length (take ?p (slots n))" "q \<in> set (entries_at (take ?p (slots n) ! i))"
      by (metis in_set_conv_nth)
    then have "i < ?p" "i < capacity n" "q \<in> set (entries_at (slots n ! i))"
      by (simp_all add: capacity_def)
    then have "predict_slot K n (fst q) < ?p"
      using wf_nodeD(3) [OF Node.prems(1)] by (auto simp: home_slots_def)
    then show ?thesis
      using predict_slot_mono [OF wf_nodeD(2) [OF Node.prems(1)], of k "fst q"] by (meson not_le)
  qed
  show ?case
  proof (cases "load_child n ?p")
    case None
    then have "seek_to K n k st = (n, ?p) # st"
      by (simp add: seek_to.simps [of K n k st] Let_def)
    then show ?thesis using Node.prems split rest pre by auto
  next
    case (Some c)
    note c = load_child_Some(2,3) [OF Some]
    have "is_child (slot_state n ?p)"
      using c(2) p by (cases "slots n ! ?p") (simp_all add: slot_state_def slot_at_eq)
    then have seek: "seek_to K n k st = seek_to K c k ((n, ?p + 1) # st)"
      using Some by (simp add: seek_to.simps [of K n k st] Let_def)
    have "frames_ok K ((n, ?p + 1) # st)" using Node.prems by simp
    from Node.IH [OF c load_child_wf [OF Node.prems(1) Some] this] obtain pre' own where
      "frames_ok K (seek_to K n k st)" and own: "entries c = pre' @ own"
      "pending (seek_to K n k st) = own @ pending ((n, ?p + 1) # st)" "\<forall>p\<in>set pre'. fst p < k"
      unfolding seek by blast
    moreover have "entries n = (?pre @ pre') @ (own @ pending [(n, ?p + 1)])"
      using split pending_child [OF p Some, of "[]"] own(1) pending_push [of c] by simp
    ultimately show ?thesis using pre rest
      by (intro conjI exI [of _ "?pre @ pre'"] exI [of _ "own @ pending [(n, ?p + 1)]"]) auto
  qed
qed

lemma range_entries:
  assumes wf: "wf_node K n"
  shows "range_collect (range_new K n lo hi) = filter (\<lambda>p. in_range lo hi (fst p)) (entries n)"
proof -
  have sorted: "sorted_keys (entries n)" using wf by (rule entries_sorted)
  have seek: "range_collect (range_at (seek_to K n k []) lo hi False False) =
      filter (\<lambda>p. in_range lo hi (fst p)) (entries n)"
    if lo: "\<And>k'. k' < k \<Longrightarrow> before_start lo k'" for k
  proof -
    obtain pre own where own: "frames_ok K (seek_to K n k [])" "entries n = pre @ own"
      "pending (seek_to K n k []) = own" "\<forall>p\<in>set pre. fst p < k"
      using seek_to_pending [OF wf, of "[]" k] by auto
    then have "range_ok K (range_at (seek_to K n k []) lo hi False False)"
      using sorted sorted_keys_append [of pre own] by (simp add: range_ok_def)
    moreover have "filter (\<lambda>p. in_range lo hi (fst p)) pre = []"
      using own(4) lo by (simp add: filter_empty_conv in_range_bounds)
    ultimately show ?thesis
      using own by (simp add: range_collect_pending range_pending_def)
  qed
  have all: "range_ok K (range_at [(n, 0)] Unbounded hi True False)"
    using wf sorted by (simp add: range_ok_def pending_root)
  show ?thesis
    using seek range_collect_pending [OF all]
    by (cases lo) (simp_all add: range_new_def range_pending_def pending_root)
qed

end

subsection \<open>The last entry\<close>

definition back_pending :: "('k, 'v) frames \<Rightarrow> ('k \<times> 'v) list" where
  "back_pending st = concat (map (\<lambda>(n, i). concat (map entries_at (take i (slots n)))) (rev st))"

lemma back_pending_Cons:
  "back_pending ((n, i) # st) = back_pending st @ concat (map entries_at (take i (slots n)))"
  by (simp add: back_pending_def)

lemma back_pending_Suc:
  "i < capacity n \<Longrightarrow>
     back_pending ((n, Suc i) # st) = back_pending ((n, i) # st) @ entries_at (slots n ! i)"
  by (simp add: back_pending_Cons take_Suc_conv_app_nth capacity_def)

lemma back_pending_push: "back_pending ((c, capacity c) # st) = back_pending st @ entries c"
  by (simp add: back_pending_Cons entries.simps [of c] capacity_def)

lemma last_loop_pending:
  "frames_ok K st \<Longrightarrow>
     last_loop st = (if back_pending st = [] then None else Some (last (back_pending st)))"
proof (induction st rule: last_loop.induct)
  case 1
  then show ?case by (simp add: back_pending_def)
next
  case (2 n st)
  then show ?case by (simp add: back_pending_Cons)
next
  case (3 n i st)
  have wf: "wf_node K n" "frames_ok K st" using "3.prems" by simp_all
  show ?case
  proof (cases "i < capacity n")
    case False
    then have "back_pending ((n, Suc i) # st) = back_pending ((n, i) # st)" "slot_at n i = Empty"
      by (simp_all add: back_pending_Cons slot_at_def capacity_def)
    then show ?thesis using "3.IH" wf by simp
  next
    case True
    note eqs = back_pending_Suc [OF True, of st] slot_at_eq [OF True] load_child_eq [OF wf(1) True]
    have child: "wf_node K c" if "child_of (slots n ! i) = Some c" for c
      using wf_nodeD(4) [OF wf(1) _ that] True by (simp add: capacity_def)
    show ?thesis
      using "3.IH" wf child eqs back_pending_push [of _ "(n, i) # st"]
      by (cases "slots n ! i") simp_all
  qed
qed

lemma last_entry_entries:
  assumes "wf_node K n"
  shows "last_entry n = (if entries n = [] then None else Some (last (entries n)))"
proof -
  have "back_pending [(n, capacity n)] = entries n"
    by (simp add: back_pending_push) (simp add: back_pending_def)
  then show ?thesis using last_loop_pending [of K "[(n, capacity n)]"] assms
    by (simp add: last_entry_def)
qed

end
