(* ===== verification/Rebuild.thy ===== *)
theory Rebuild
  imports Build_Facts Iter_Facts
begin

text \<open>
  \<^verbatim>\<open>src/rebuild.rs\<close>: the localized rebuild of the subtree behind one child slot. The code
  freezes the child pointer by tagging it, builds a compact subtree from the live pairs and
  swaps it in; run by one thread, the two compare-and-swaps succeed and the tag is gone in the
  end, so only the swap is seen. Updating a child in place is \<open>put_child\<close>: the slot keeps its
  state and its stale data.
\<close>

definition put_child :: "nat \<Rightarrow> ('k, 'v) node \<Rightarrow> ('k, 'v) node \<Rightarrow> ('k, 'v) node" where
  "put_child i c n =
     (case slot_at n i of
        Child _ \<Rightarrow> set_slot i (Child c) n
      | ChildStale k v _ \<Rightarrow> set_slot i (ChildStale k v c) n
      | _ \<Rightarrow> n)"

definition boosted_factor :: "config \<Rightarrow> f64" where
  "boosted_factor cfg = f64_min (f64_mul (expansion_factor cfg) (Fin (3 / 2))) (Fin 4)"

definition boosted_config :: "config \<Rightarrow> config" where
  "boosted_config cfg = cfg\<lparr>expansion_factor := boosted_factor cfg\<rparr>"

definition try_rebuild_subtree ::
    "'k::linorder key_impl \<Rightarrow> config \<Rightarrow> ('k, 'v) node \<Rightarrow> nat \<Rightarrow> (('k, 'v) node \<times> bool) option" where
  "try_rebuild_subtree K cfg parent_node parent_slot_idx =
     (if \<not> is_child (slot_state parent_node parent_slot_idx) then Some (parent_node, False)
      else
        (case load_child parent_node parent_slot_idx of
           None \<Rightarrow> Some (parent_node, False)
         | Some child \<Rightarrow>
             let pairs = sorted_pairs child
             in if length pairs \<le> 1 then Some (parent_node, False)
                else Option.bind (build_recursive K (boosted_config cfg) pairs)
                       (\<lambda>new_child. Some (put_child parent_slot_idx new_child parent_node, True))))"

subsection \<open>Replacing the contents of a home slot\<close>

text \<open>
  All updates of a tree replace the contents of one slot, the home of the key. What the slot
  then holds says what the whole tree holds.
\<close>

lemma home_slot_update:
  assumes wf: "wf_node K n" and i: "i = predict_slot K n key"
    and s: "map_of (entries_at s) = (map_of (entries_at (slots n ! i))) (key := x)"
    and child: "\<And>c. child_of s = Some c \<Longrightarrow> children_init n \<and> wf_node K c"
  shows "wf_node K (set_slot i s n)"
    "map_of (entries (set_slot i s n)) = (map_of (entries n)) (key := x)"
proof -
  have i_less: "i < capacity n" unfolding i by (rule predict_slot_less) (rule wf_nodeD(1) [OF wf])
  have "fst ` set (entries_at s) \<subseteq> insert key (fst ` set (entries_at (slots n ! i)))"
    using s by (auto simp flip: dom_map_of_conv_image_fst split: if_splits)
  moreover have "predict_slot K n (fst p) = i" if "p \<in> set (entries_at (slots n ! i))" for p
    using wf_nodeD(3) [OF wf] i_less that by (simp add: home_slots_def)
  ultimately have "predict_slot K n (fst p) = i" if "p \<in> set (entries_at s)" for p
    using i that by fastforce
  then show wf': "wf_node K (set_slot i s n)" using child by (intro wf_set_slot wf)
  show "map_of (entries (set_slot i s n)) = (map_of (entries n)) (key := x)"
  proof
    fix k
    show "map_of (entries (set_slot i s n)) k = ((map_of (entries n)) (key := x)) k"
      using map_of_set_slot [OF wf wf' i_less, of k] map_of_entries [OF wf, of k] s i by auto
  qed
qed

text \<open>The same for a child that is updated in place.\<close>

lemma put_child_update:
  assumes wf: "wf_node K n" and i: "i = predict_slot K n key"
    and load: "load_child n i = Some c" and c: "wf_node K c'"
    and eq: "map_of (entries c') = (map_of (entries c)) (key := x)"
  shows "wf_node K (put_child i c' n)"
    "map_of (entries (put_child i c' n)) = (map_of (entries n)) (key := x)"
proof -
  note l = load_child_Some [OF load]
  have init: "children_init n" using load by (simp add: load_child_def split: if_splits)
  obtain s where put: "put_child i c' n = set_slot i s n" "entries_at s = entries c'"
    "entries_at (slots n ! i) = entries c" "child_of s = Some c'"
    using l by (cases "slots n ! i") (auto simp: put_child_def slot_at_eq)
  show "wf_node K (put_child i c' n)"
    unfolding put(1) by (rule home_slot_update(1) [OF wf i]) (use put eq init c in simp_all)
  show "map_of (entries (put_child i c' n)) = (map_of (entries n)) (key := x)"
    unfolding put(1) by (rule home_slot_update(2) [OF wf i]) (use put eq init c in simp_all)
qed

lemma put_child_same:
  assumes wf: "wf_node K n" and load: "load_child n i = Some c" and c: "wf_node K c'"
    and eq: "entries c' = entries c"
  shows "wf_node K (put_child i c' n) \<and> entries (put_child i c' n) = entries n"
proof -
  note l = load_child_Some [OF load]
  have init: "children_init n" using load by (simp add: load_child_def split: if_splits)
  obtain s where put: "put_child i c' n = set_slot i s n" "entries_at s = entries_at (slots n ! i)"
    "child_of s = Some c'"
    using l eq by (cases "slots n ! i") (auto simp: put_child_def slot_at_eq)
  have "wf_node K (set_slot i s n)"
    using wf_nodeD(3) [OF wf] l(1) init c put(2,3)
    by (intro wf_set_slot wf) (auto simp: home_slots_def)
  then show ?thesis
    using entries_set_slot [OF l(1), of s] entries_split [OF l(1)] put(1,2) by simp
qed

lemma put_child_sel [simp]:
  "node_model (put_child i c n) = node_model n" "split_key (put_child i c n) = split_key n"
  "capacity (put_child i c n) = capacity n" "children_init (put_child i c n) = children_init n"
  "predict_slot K (put_child i c n) = predict_slot K n"
  "num_keys (put_child i c n) = num_keys n" "num_tombstones (put_child i c n) = num_tombstones n"
  by (simp_all add: put_child_def split: slot.split)

subsection \<open>Rebuilding keeps the entries\<close>

lemma config_ok_boosted: "config_ok cfg \<Longrightarrow> config_ok (boosted_config cfg)"
proof -
  assume "config_ok cfg"
  then obtain e where e: "expansion_factor cfg = Fin e" "1 \<le> e" by (auto simp: config_ok_def)
  have "f64_le (Fin 1) (fl (e * (3 / 2)))"
    using fl_mono [of 1 "e * (3 / 2)"] e(2) by simp
  then have "\<exists>b. boosted_factor cfg = Fin b \<and> 1 \<le> b"
    using e by (cases "fl (e * (3 / 2))") (auto simp: boosted_factor_def f64_min_def)
  then show ?thesis using \<open>config_ok cfg\<close> by (auto simp: config_ok_def boosted_config_def)
qed

lemma try_rebuild_subtree_correct:
  assumes "try_rebuild_subtree K cfg n i = Some (n', done)"
    and "key_contract K" "wf_node K n" "config_ok cfg" "length (entries n) \<le> usize_max"
  shows "wf_node K n' \<and> entries n' = entries n \<and> capacity n' = capacity n"
proof (cases "done")
  case False
  then show ?thesis using assms
    by (auto simp: try_rebuild_subtree_def Let_def bind_eq_Some_conv split: if_splits option.splits)
next
  case True
  then obtain c c' where c: "load_child n i = Some c" and n': "n' = put_child i c' n"
    and build: "build_recursive K (boosted_config cfg) (sorted_pairs c) = Some c'"
    and len: "1 < length (sorted_pairs c)"
    using assms(1)
    by (auto simp: try_rebuild_subtree_def Let_def bind_eq_Some_conv split: if_splits option.splits)
  have wf: "wf_node K c" using assms(3) c by (rule load_child_wf)
  have pairs: "sorted_pairs c = entries c" by (rule iter_collect_entries(3) [OF wf])
  have "length (entries c) \<le> length (entries n)"
    using entries_split [OF load_child_Some(1) [OF c]] load_child_Some(3) [OF c]
    by (cases "slots n ! i") auto
  then have "wf_node K c' \<and> entries c' = entries c"
    using build_recursive_correct [OF build assms(2)] len assms(5) config_ok_boosted [OF assms(4)]
      key_contract.entries_sorted [OF assms(2) wf] unfolding pairs by fastforce
  then show ?thesis using put_child_same [OF assms(3) c] n' by simp
qed

lemma predict_rebuild:
  "try_rebuild_subtree K cfg n i = Some (n', b) \<Longrightarrow> predict_slot K n' = predict_slot K n"
  by (auto simp: try_rebuild_subtree_def Let_def bind_eq_Some_conv split: if_splits option.splits)

end
