(* ===== verification/Insert.thy ===== *)
theory Insert
  imports Rebuild
begin

text \<open>
  \<^verbatim>\<open>src/insert.rs\<close>: insertion, get-or-insert and the small child nodes they build. One thread
  runs an operation here, so a compare-and-swap on the state just read succeeds and the
  re-validation of the first descent finds the same child; a failing one, and a child slot
  without a child, make the code loop, which is \<open>None\<close>. \<^verbatim>\<open>build_conflict_node\<close> calls
  \<^verbatim>\<open>insert\<close> when both keys are predicted in one slot, and \<^verbatim>\<open>insert\<close> calls it on a collision:
  the descent takes the conflict builder as an argument and the knot is tied by a
  \<^theory_text>\<open>partial_function\<close>. The shallowest child descended into is the child of the
  tree's own slot for the key, so the rebuild candidate is that slot.
\<close>

datatype insert_result = Inserted | Updated

definition build_single_entry_child ::
    "'k::linorder key_impl \<Rightarrow> 'k \<Rightarrow> 'v \<Rightarrow> ('k, 'v) node" where
  "build_single_entry_child K key value =
     (let f = to_model_input K key;
          node = with_capacity (linear_new (Fin 1) (f64_neg f)) 2;
          slot = predict_slot K node key
      in inc_keys (store_data slot key value node))"

text \<open>The model and capacity of a conflict node, which depend on the two keys only.\<close>

definition conflict_frame :: "'k::linorder key_impl \<Rightarrow> 'k \<Rightarrow> 'k \<Rightarrow> ('k, 'v) node" where
  "conflict_frame K lo_k hi_k =
     (let lo_f = to_model_input K lo_k;
          hi_f = to_model_input K hi_k;
          key_range = f64_sub hi_f lo_f;
          array_size = 4
      in if f64_lt (f64_abs key_range) f64_epsilon then
           let lo_ord = to_exact_ordinal K lo_k;
               hi_ord = to_exact_ordinal K hi_k
           in if lo_ord = hi_ord then with_split_key lo_k array_size
              else with_capacity (binary_split (split_midpoint lo_ord hi_ord)) array_size
         else
           let s = f64_div (f64_of_int (int (array_size - 1))) key_range
           in with_capacity (linear_new s (f64_mul (f64_neg s) lo_f)) array_size)"

text \<open>
  The descent. Its result is the updated node, what happened, and whether the depth calls for
  a rebuild.
\<close>

type_synonym ('k, 'v) conflict_builder = "'k \<Rightarrow> 'v \<Rightarrow> 'k \<Rightarrow> 'v \<Rightarrow> ('k, 'v) node option"

function insert_at ::
    "('k::linorder, 'v) conflict_builder \<Rightarrow> 'k key_impl \<Rightarrow> config \<Rightarrow> 'k \<Rightarrow> 'v \<Rightarrow> nat \<Rightarrow>
     ('k, 'v) node \<Rightarrow> (('k, 'v) node \<times> insert_result \<times> bool) option" where
  "insert_at conflict K cfg key value depth node =
     (let slot_idx = predict_slot K node key;
          deep = (auto_rebuild cfg \<and> rebuild_depth_threshold cfg < depth)
      in case slot_at node slot_idx of
           Empty \<Rightarrow>
             (case cas_empty_to_data slot_idx key value node of
                (node', True) \<Rightarrow> Some (inc_keys node', Inserted, deep)
              | (_, False) \<Rightarrow> None)
         | Tombstone _ _ \<Rightarrow>
             (case cas_tombstone_to_child_stale slot_idx (build_single_entry_child K key value) node of
                (node', True) \<Rightarrow> Some (dec_tombstones node', Inserted, deep)
              | (_, False) \<Rightarrow> None)
         | Data existing_key ev \<Rightarrow>
             if existing_key = key then
               (case cas_data_to_child_stale slot_idx (build_single_entry_child K key value) node of
                  (node', True) \<Rightarrow> Some (node', Updated, False)
                | (_, False) \<Rightarrow> None)
             else
               Option.bind (conflict existing_key ev key value) (\<lambda>child.
                 case cas_data_to_child_stale slot_idx child node of
                   (node', True) \<Rightarrow> Some (dec_keys node', Inserted, deep)
                 | (_, False) \<Rightarrow> None)
         | _ \<Rightarrow>
             (case load_child node slot_idx of
                None \<Rightarrow> None
              | Some child \<Rightarrow>
                  Option.bind (insert_at conflict K cfg key value (depth + 1) child)
                    (\<lambda>(child', result, rebuild).
                       Some (put_child slot_idx child' node, result, rebuild))))"
  by pat_completeness auto
termination
  by (relation "measure (\<lambda>(conflict, K, cfg, key, value, depth, node). size node)")
    (auto intro: load_child_size)

declare insert_at.simps [simp del]

definition insert_with ::
    "('k::linorder, 'v) conflict_builder \<Rightarrow> 'k key_impl \<Rightarrow> config \<Rightarrow> ('k, 'v) node \<Rightarrow> 'k \<Rightarrow> 'v \<Rightarrow>
     (('k, 'v) node \<times> insert_result) option" where
  "insert_with conflict K cfg node key value =
     Option.bind (insert_at conflict K cfg key value 0 node) (\<lambda>(node', result, rebuild).
       if rebuild then
         Option.bind (try_rebuild_subtree K cfg node' (predict_slot K node key))
           (\<lambda>(node'', _). Some (node'', result))
       else Some (node', result))"

lemma insert_at_mono [partial_function_mono]:
  assumes "\<And>k v k' v'. mono_option (\<lambda>f. B f k v k' v')"
  shows "mono_option (\<lambda>f. insert_at (B f) K cfg key value depth node)"
proof (induction node arbitrary: depth rule: node_induct)
  case (Node n)
  have IH: "mono_option (\<lambda>f. insert_at (B f) K cfg key value d c)"
    if "load_child n i = Some c" for i c d
    using Node.IH load_child_Some(2,3) [OF that] by blast
  show ?case
    using IH
    unfolding insert_at.simps [of _ _ _ _ _ _ n] Let_def
    by (cases "slot_at n (predict_slot K n key)";
        cases "load_child n (predict_slot K n key)")
      (auto intro!: bind_mono assms option.const_mono if_mono)
qed

lemma insert_with_mono [partial_function_mono]:
  assumes "\<And>k v k' v'. mono_option (\<lambda>f. B f k v k' v')"
  shows "mono_option (\<lambda>f. insert_with (B f) K cfg node key value)"
  unfolding insert_with_def by (intro bind_mono insert_at_mono assms option.const_mono)

partial_function (option) build_conflict_node ::
    "'k::linorder key_impl \<Rightarrow> config \<Rightarrow> 'k \<Rightarrow> 'v \<Rightarrow> 'k \<Rightarrow> 'v \<Rightarrow> ('k, 'v) node option" where
  "build_conflict_node K cfg k1 v1 k2 v2 =
     (let (lo_k, lo_v, hi_k, hi_v) = (if k1 < k2 then (k1, v1, k2, v2) else (k2, v2, k1, v1));
          node = conflict_frame K lo_k hi_k;
          s1 = predict_slot K node lo_k;
          s2 = predict_slot K node hi_k;
          node = inc_keys (store_data s1 lo_k lo_v node)
      in if s1 = s2 then
           Option.bind
             (insert_with (\<lambda>k v k' v'. build_conflict_node K cfg k v k' v') K cfg node hi_k hi_v)
             (\<lambda>(node', _). Some node')
         else Some (inc_keys (store_data s2 hi_k hi_v node)))"

definition tree_insert ::
    "'k::linorder key_impl \<Rightarrow> config \<Rightarrow> ('k, 'v) node \<Rightarrow> 'k \<Rightarrow> 'v \<Rightarrow>
     (('k, 'v) node \<times> insert_result) option" where
  "tree_insert K cfg node key value = insert_with (build_conflict_node K cfg) K cfg node key value"

subsection \<open>Get or insert\<close>

text \<open>
  After attaching a child, the code reads the value back from the child just stored and would
  loop if it were not there.
\<close>

function get_or_insert_at ::
    "'k::linorder key_impl \<Rightarrow> config \<Rightarrow> 'k \<Rightarrow> 'v \<Rightarrow> nat \<Rightarrow>
     ('k, 'v) node \<Rightarrow> (('k, 'v) node \<times> 'v \<times> insert_result \<times> bool) option" where
  "get_or_insert_at K cfg key value depth node =
     (let slot_idx = predict_slot K node key;
          deep = (auto_rebuild cfg \<and> rebuild_depth_threshold cfg < depth)
      in case slot_at node slot_idx of
           Empty \<Rightarrow>
             (case cas_empty_to_data slot_idx key value node of
                (node', True) \<Rightarrow> Some (inc_keys node', value, Inserted, deep)
              | (_, False) \<Rightarrow> None)
         | Tombstone _ _ \<Rightarrow>
             let child = build_single_entry_child K key value
             in (case cas_tombstone_to_child_stale slot_idx child node of
                   (node', True) \<Rightarrow>
                     map_option (\<lambda>val. (dec_tombstones node', val, Inserted, deep)) (get K child key)
                 | (_, False) \<Rightarrow> None)
         | Data existing_key existing_value \<Rightarrow>
             if existing_key = key then Some (node, existing_value, Updated, False)
             else
               Option.bind (build_conflict_node K cfg existing_key existing_value key value) (\<lambda>child.
                 case cas_data_to_child_stale slot_idx child node of
                   (node', True) \<Rightarrow>
                     map_option (\<lambda>val. (dec_keys node', val, Inserted, deep)) (get K child key)
                 | (_, False) \<Rightarrow> None)
         | _ \<Rightarrow>
             (case load_child node slot_idx of
                None \<Rightarrow> None
              | Some child \<Rightarrow>
                  Option.bind (get_or_insert_at K cfg key value (depth + 1) child)
                    (\<lambda>(child', val, result, rebuild).
                       Some (put_child slot_idx child' node, val, result, rebuild))))"
  by pat_completeness auto
termination
  by (relation "measure (\<lambda>(K, cfg, key, value, depth, node). size node)")
    (auto intro: load_child_size)

declare get_or_insert_at.simps [simp del]

definition get_or_insert ::
    "'k::linorder key_impl \<Rightarrow> config \<Rightarrow> ('k, 'v) node \<Rightarrow> 'k \<Rightarrow> 'v \<Rightarrow>
     (('k, 'v) node \<times> 'v \<times> insert_result) option" where
  "get_or_insert K cfg node key value =
     Option.bind (get_or_insert_at K cfg key value 0 node) (\<lambda>(node', val, result, rebuild).
       if rebuild then
         Option.bind (try_rebuild_subtree K cfg node' (predict_slot K node key))
           (\<lambda>(node'', _). Some (node'', val, result))
       else Some (node', val, result))"

end
