(* ===== verification/Insert_Facts.thy ===== *)
theory Insert_Facts
  imports Insert
begin

text \<open>
  Insertion updates the map of the tree at the key and nothing else, keeps the tree well
  formed, and tells a new key from an updated one. The descent is specified for any conflict
  builder that returns a well-formed node holding its two pairs.
\<close>

subsection \<open>Small children\<close>

lemma single_entry_child:
  assumes "key_contract K"
  shows "wf_node K (build_single_entry_child K key value) \<and>
    entries (build_single_entry_child K key value) = [(key, value)]"
proof -
  let ?n = "with_capacity (linear_new (Fin 1) (f64_neg (to_model_input K key))) 2 :: ('a, 'b) node"
  have "model_ok (linear_new (Fin 1) (f64_neg (to_model_input K key)))"
    using key_contract.input_Fin [OF assms, of key] by (metis f64_neg.simps(1) model_ok_new zero_le_one)
  then have n: "built K [(key, value)] {} ?n" by (intro built_fresh(1)) simp_all
  have "built K [(key, value)] {predict_slot K ?n key} (build_single_entry_child K key value)"
    unfolding build_single_entry_child_def Let_def
    using predict_slot_less [of ?n K key] by (intro built_store_data [OF n]) simp_all
  moreover have "predict_slot K (build_single_entry_child K key value) = predict_slot K ?n"
    by (simp add: build_single_entry_child_def Let_def)
  ultimately show ?thesis
    using key_contract.built_entries [OF assms, of "[(key, value)]"] by fastforce
qed

definition conflict_ok ::
    "'k::linorder key_impl \<Rightarrow> ('k, 'v) conflict_builder \<Rightarrow> bool" where
  "conflict_ok K conflict \<longleftrightarrow>
     (\<forall>k v k' v' c. k \<noteq> k' \<longrightarrow> conflict k v k' v' = Some c \<longrightarrow>
        wf_node K c \<and> map_of (entries c) = [k \<mapsto> v, k' \<mapsto> v'])"

subsection \<open>The descent\<close>

definition updates_at ::
    "'k::linorder key_impl \<Rightarrow> ('k, 'v) node \<Rightarrow> ('k, 'v) node \<Rightarrow> 'k \<Rightarrow> 'v option \<Rightarrow> bool" where
  "updates_at K n n' key x \<longleftrightarrow>
     wf_node K n' \<and> map_of (entries n') = (map_of (entries n)) (key := x) \<and>
     predict_slot K n' = predict_slot K n"

text \<open>The ways an operation changes a node: its home slot, then a counter.\<close>

lemma updates_at_slot:
  assumes "wf_node K n" "i = predict_slot K n key"
    and "map_of (entries_at s) = (map_of (entries_at (slots n ! i))) (key := x)"
  shows "child_of s = None \<Longrightarrow> updates_at K n (set_slot i s n) key x"
    and "child_of s = Some c \<Longrightarrow> wf_node K c \<Longrightarrow>
           updates_at K n (set_slot i s (ensure_children n)) key x"
proof -
  show "updates_at K n (set_slot i s n) key x" if "child_of s = None"
    using that home_slot_update [OF assms] by (simp add: updates_at_def)
  have "wf_node K (ensure_children n)" by (rule wf_update(1)) (rule assms(1))
  from home_slot_update [OF this, of i key s x] assms
  show "updates_at K n (set_slot i s (ensure_children n)) key x"
    if "child_of s = Some c" "wf_node K c" using that by (simp add: updates_at_def)
qed

lemma updates_at_counter:
  assumes "updates_at K n n' key x"
  shows "updates_at K n (inc_keys n') key x" "updates_at K n (dec_keys n') key x"
    "updates_at K n (inc_tombstones n') key x" "updates_at K n (dec_tombstones n') key x"
  using assms by (simp_all add: updates_at_def wf_update)

lemma updates_at_child:
  assumes "wf_node K n" "load_child n (predict_slot K n key) = Some c" "updates_at K c c' key x"
  shows "updates_at K n (put_child (predict_slot K n key) c' n) key x"
  using put_child_update [OF assms(1) refl assms(2)] assms(3) by (simp add: updates_at_def)

lemma map_of_child:
  assumes "wf_node K n" "load_child n (predict_slot K n k) = Some c"
  shows "map_of (entries n) k = map_of (entries c) k"
  using map_of_entries [OF assms(1), of k] load_child_Some(3) [OF assms(2)]
  by (cases "slots n ! predict_slot K n k") simp_all

lemma insert_at_correct:
  assumes "insert_at conflict K cfg key value depth n = Some (n', r, rb)"
    and "key_contract K" "wf_node K n" "conflict_ok K conflict"
  shows "updates_at K n n' key (Some value) \<and>
    r = (if map_of (entries n) key = None then Inserted else Updated)"
  using assms(1,3)
proof (induction n arbitrary: depth n' r rb rule: node_induct)
  case (Node n)
  let ?i = "predict_slot K n key"
  have i: "?i < capacity n" by (rule predict_slot_less) (rule wf_nodeD(1) [OF Node.prems(2)])
  note single = single_entry_child [OF assms(2), of key "value"]
  note upd = updates_at_slot [OF Node.prems(2) refl, of _ key "Some value"]
  note home = map_of_entries [OF Node.prems(2), of key]
  note step = Node.prems(1) [unfolded insert_at.simps [of _ _ _ _ _ _ n] Let_def slot_at_eq [OF i]]
  have descend: ?case
    if rec: "load_child n ?i = Some c" "insert_at conflict K cfg key value (depth + 1) c = Some (c', r, rb)"
      "n' = put_child ?i c' n" for c c'
    using Node.IH [OF load_child_Some(2,3) [OF rec(1)] rec(2)] load_child_wf [OF Node.prems(2) rec(1)]
      updates_at_child [OF Node.prems(2) rec(1)] map_of_child [OF Node.prems(2) rec(1)] rec(3)
    by simp
  show ?case
  proof (cases "slots n ! ?i")
    case Empty
    then have "n' = inc_keys (set_slot ?i (Data key value) n)" "r = Inserted"
      using step i by (simp_all add: cas_empty_to_data_def slot_at_eq)
    then show ?thesis using Empty home
      by (auto intro!: updates_at_counter upd)
  next
    case (Data ek ev)
    show ?thesis
    proof (cases "ek = key")
      case True
      then have "n' = set_slot ?i (ChildStale ek ev (build_single_entry_child K key value)) (ensure_children n)"
        "r = Updated"
        using step i Data by (simp_all add: cas_data_to_child_stale_def slot_at_eq)
      then show ?thesis using Data home single True by (auto intro!: upd)
    next
      case False
      then obtain c where c: "conflict ek ev key value = Some c"
        "n' = dec_keys (set_slot ?i (ChildStale ek ev c) (ensure_children n))" "r = Inserted"
        using step i Data by (auto simp: cas_data_to_child_stale_def slot_at_eq bind_eq_Some_conv)
      then have "wf_node K c" "map_of (entries c) = [ek \<mapsto> ev, key \<mapsto> value]"
        using assms(4) False unfolding conflict_ok_def by blast+
      then show ?thesis using Data home c(2,3) False by (auto intro!: updates_at_counter upd)
    qed
  next
    case (Tombstone k v)
    then have "n' = dec_tombstones (set_slot ?i (ChildStale k v (build_single_entry_child K key value))
        (ensure_children n))" "r = Inserted"
      using step i by (simp_all add: cas_tombstone_to_child_stale_def slot_at_eq)
    then show ?thesis using Tombstone home single by (auto intro!: updates_at_counter upd)
  next
    case (Child c0)
    then show ?thesis using step descend
      by (auto simp: bind_eq_Some_conv split: option.splits)
  next
    case (ChildStale k v c0)
    then show ?thesis using step descend
      by (auto simp: bind_eq_Some_conv split: option.splits)
  qed
qed

context key_contract
begin

lemma length_entries: "wf_node K n \<Longrightarrow> length (entries n) = card (dom (map_of (entries n)))"
  using entries_sorted [of n]
  by (metis distinct_card dom_map_of_conv_image_fst length_map list.set_map strict_sorted_distinct)

lemma updates_at_length:
  assumes "updates_at K n n' key x" "wf_node K n"
  shows "length (entries n') \<le> Suc (length (entries n))"
proof -
  have "dom (map_of (entries n')) \<subseteq> insert key (dom (map_of (entries n)))"
    using assms(1) by (auto simp: updates_at_def split: if_splits)
  then have "card (dom (map_of (entries n'))) \<le> card (insert key (dom (map_of (entries n))))"
    by (intro card_mono) (simp_all add: finite_dom_map_of)
  also have "\<dots> \<le> Suc (card (dom (map_of (entries n))))"
    by (simp add: card_insert_if finite_dom_map_of)
  finally show ?thesis
    using assms(1) by (simp only: updates_at_def length_entries [OF assms(2)] length_entries [of n'])
qed

end

text \<open>A rebuild on top of an update.\<close>

lemma updates_at_rebuild:
  assumes "updates_at K n n1 key x" "try_rebuild_subtree K cfg n1 i = Some (n', b)"
    and "key_contract K" "wf_node K n" "config_ok cfg" "length (entries n) < usize_max"
  shows "updates_at K n n' key x"
proof -
  have "length (entries n1) \<le> usize_max"
    using key_contract.updates_at_length [OF assms(3,1,4)] assms(6) by simp
  then have n': "wf_node K n' \<and> entries n' = entries n1 \<and> capacity n' = capacity n1"
    using try_rebuild_subtree_correct [OF assms(2,3) _ assms(5)] assms(1) by (simp add: updates_at_def)
  then show ?thesis
    using assms(1,2) predict_rebuild [OF assms(2)] by (simp add: updates_at_def)
qed

lemma insert_with_correct:
  assumes "insert_with conflict K cfg n key value = Some (n', r)"
    and "key_contract K" "wf_node K n" "conflict_ok K conflict" "config_ok cfg"
    and "length (entries n) < usize_max"
  shows "updates_at K n n' key (Some value) \<and> 
    r = (if map_of (entries n) key = None then Inserted else Updated)"
proof -
  obtain n1 rb where n1: "insert_at conflict K cfg key value 0 n = Some (n1, r, rb)"
    and rb: "(if rb then Option.bind (try_rebuild_subtree K cfg n1 (predict_slot K n key))
               (\<lambda>(n'', _). Some (n'', r)) else Some (n1, r)) = Some (n', r)"
    using assms(1) by (auto simp: insert_with_def bind_eq_Some_conv split: if_splits)
  note at = insert_at_correct [OF n1 assms(2-4)]
  show ?thesis
  proof (cases rb)
    case False
    then show ?thesis using at rb by simp
  next
    case True
    then obtain b where b: "try_rebuild_subtree K cfg n1 (predict_slot K n key) = Some (n', b)"
      using rb by (auto simp: bind_eq_Some_conv)
    then show ?thesis using updates_at_rebuild [OF _ b assms(2,3,5,6)] at by blast
  qed
qed

subsection \<open>Conflict nodes\<close>

lemma conflict_frame_fresh:
  fixes n :: "('k::linorder, 'v) node"
  assumes "key_contract K" "lo < hi" and n: "n = conflict_frame K lo hi"
  shows "wf_node K n" "entries n = []" "slots n = replicate 4 Empty" "capacity n = 4"
proof -
  let ?n = n
  have "slots ?n = replicate 4 Empty"
    by (simp add: n conflict_frame_def Let_def)
  then show slots: "slots ?n = replicate 4 Empty" and "capacity ?n = 4" by (simp_all add: capacity_def)
  show "entries ?n = []" by (rule entries_empty) (use slots in simp)
  have "model_ok (node_model ?n)"
  proof (cases "f64_lt (f64_abs (f64_sub (to_model_input K hi) (to_model_input K lo))) f64_epsilon")
    case True
    then show ?thesis by (simp add: n conflict_frame_def Let_def)
  next
    case False
    obtain a b where ab: "to_model_input K lo = Fin a" "to_model_input K hi = Fin b" "a \<le> b"
      "\<bar>a\<bar> \<le> pow2 128" "\<bar>b\<bar> \<le> pow2 128"
      using key_contract.input_finite [OF assms(1)] key_contract.input_mono [OF assms(1), of lo hi] assms(2)
      by (metis f64_le.simps(1) less_imp_le)
    have "\<bar>b - a\<bar> \<le> pow2 129" using ab pow2_Suc [of 128] by simp
    then have sub: "f64_sub (Fin b) (Fin a) = Fin (round53 (b - a))"
      using fl_bound(1) by (simp add: f64_sub_def)
    have "0 \<le> round53 (b - a)" using ab(3) round53_nonneg by simp
    then have "f64_le (Fin (pow2 (- 52))) (Fin (round53 (b - a)))"
      using False ab(1,2) sub by (simp add: f64_epsilon_def)
    from slope_finite [OF _ _ this, of 3] obtain s where
      s: "f64_div (Fin 3) (Fin (round53 (b - a))) = Fin s" "0 \<le> s" "s \<le> pow2 116"
      by (auto simp: pow2_def)
    have "f64_of_int (int (4 - 1)) = Fin 3" by (simp add: f64_of_int_def fl_numeral)
    then have "node_model ?n = line_through (Fin s) (Fin a)"
      using False ab(1,2) sub s(1) by (simp add: n conflict_frame_def Let_def line_through_def)
    then show ?thesis using line_through_ok(1) [OF s(3,2) ab(4)] by simp
  qed
  then show "wf_node K ?n" by (rule wf_all_empty [where sz = 4]) (use slots in simp_all)
qed

lemma updates_at_store:
  assumes "wf_node K n" "slot_at n (predict_slot K n key) = Empty"
  shows "updates_at K n (inc_keys (store_data (predict_slot K n key) key v n)) key (Some v)"
proof -
  have "slots n ! predict_slot K n key = Empty"
    using assms(2) slot_at_eq predict_slot_less [OF wf_nodeD(1) [OF assms(1)], of K key] by metis
  then show ?thesis
    unfolding store_data_def
    by (intro updates_at_counter(1) updates_at_slot(1) assms(1)) simp_all
qed

lemma build_conflict_node_correct:
  assumes "build_conflict_node K cfg k1 v1 k2 v2 = Some c"
    and "key_contract K" "config_ok cfg" "k1 \<noteq> k2"
  shows "wf_node K c \<and> map_of (entries c) = [k1 \<mapsto> v1, k2 \<mapsto> v2]"
  using assms(2-)
proof (induction rule: build_conflict_node.raw_induct [OF _ assms(1), case_names body])
  case body: (body f K cfg k1 v1 k2 v2 c)
  note lawful = body(3)
  obtain lo lo_v hi hi_v where order:
    "(if k1 < k2 then (k1, v1, k2, v2) else (k2, v2, k1, v1)) = (lo, lo_v, hi, hi_v)"
    by (metis prod_cases4)
  have less: "lo < hi" and maps: "[lo \<mapsto> lo_v, hi \<mapsto> hi_v] = [k1 \<mapsto> v1, k2 \<mapsto> v2]"
    using order body(5) by (auto split: if_splits simp: fun_upd_twist)
  let ?n = "conflict_frame K lo hi :: ('a, 'b) node"
  let ?s1 = "predict_slot K ?n lo" and ?s2 = "predict_slot K ?n hi"
  note fresh = conflict_frame_fresh [OF lawful less refl, where 'v = 'b]
  define n1 where "n1 = inc_keys (store_data ?s1 lo lo_v ?n)"
  have empty: "slot_at ?n i = Empty" for i
    using fresh(3,4) by (cases "i < 4") (simp_all add: slot_at_def)
  have n1: "wf_node K n1" "map_of (entries n1) = [lo \<mapsto> lo_v]" "predict_slot K n1 = predict_slot K ?n"
    using updates_at_store [OF fresh(1) empty, of lo lo_v] fresh(2) by (simp_all add: updates_at_def n1_def)
  have step: "(if ?s1 = ?s2 then
        Option.bind (insert_with (\<lambda>k v k' v'. f K cfg k v k' v') K cfg n1 hi hi_v) (\<lambda>(node', _). Some node')
      else Some (inc_keys (store_data ?s2 hi hi_v n1))) = Some c"
    using body(2) unfolding order Let_def prod.case n1_def .
  show ?case
  proof (cases "?s1 = ?s2")
    case True
    then obtain r where ins: "insert_with (\<lambda>k v k' v'. f K cfg k v k' v') K cfg n1 hi hi_v = Some (c, r)"
      using step by (auto simp: bind_eq_Some_conv)
    have "conflict_ok K (\<lambda>k v k' v'. f K cfg k v k' v')"
      unfolding conflict_ok_def using body(1) lawful body(4) by blast
    moreover have "length (entries n1) < usize_max"
      using key_contract.length_entries [OF lawful n1(1)] n1(2) by (simp add: usize_max_def)
    ultimately have "updates_at K n1 c hi (Some hi_v)"
      using insert_with_correct [OF ins lawful n1(1)] body(4) by blast
    then show ?thesis unfolding updates_at_def n1(2) maps by blast
  next
    case False
    have "slot_at n1 ?s2 = Empty"
      using empty [of ?s2] False by (simp add: n1_def store_data_def slot_at_def split: if_splits)
    then have "updates_at K n1 (inc_keys (store_data ?s2 hi hi_v n1)) hi (Some hi_v)"
      using updates_at_store [OF n1(1), of hi hi_v] n1(3) by simp
    moreover have "c = inc_keys (store_data ?s2 hi hi_v n1)" using step False by simp
    ultimately show ?thesis unfolding updates_at_def n1(2) maps by blast
  qed
qed

lemma conflict_ok_build: "key_contract K \<Longrightarrow> config_ok cfg \<Longrightarrow> conflict_ok K (build_conflict_node K cfg)"
  using build_conflict_node_correct by (fastforce simp: conflict_ok_def)

subsection \<open>Insertion\<close>

lemma tree_insert_correct:
  assumes "tree_insert K cfg n key value = Some (n', r)"
    and "key_contract K" "wf_node K n" "config_ok cfg" "length (entries n) < usize_max"
  shows "wf_node K n' \<and> map_of (entries n') = (map_of (entries n))(key \<mapsto> value) \<and>
    r = (if map_of (entries n) key = None then Inserted else Updated)"
  using insert_with_correct [of "build_conflict_node K cfg"] conflict_ok_build assms
  by (fastforce simp: tree_insert_def updates_at_def)

subsection \<open>Get or insert\<close>

text \<open>An absent key is inserted; for a present one the tree stays as it is.\<close>

definition gets_or_inserts ::
    "'k::linorder key_impl \<Rightarrow> ('k, 'v) node \<Rightarrow> ('k, 'v) node \<Rightarrow> 'k \<Rightarrow> 'v \<Rightarrow> 'v \<Rightarrow> insert_result \<Rightarrow> bool" where
  "gets_or_inserts K n n' key value val r \<longleftrightarrow>
     (case map_of (entries n) key of
        None \<Rightarrow> val = value \<and> r = Inserted \<and> updates_at K n n' key (Some value)
      | Some old \<Rightarrow> val = old \<and> r = Updated \<and> updates_at K n n' key (Some old))"

lemma updates_at_refl: "wf_node K n \<Longrightarrow> map_of (entries n) key = x \<Longrightarrow> updates_at K n n key x"
  by (auto simp: updates_at_def)

lemma get_or_insert_at_correct:
  assumes "get_or_insert_at K cfg key value depth n = Some (n', val, r, rb)"
    and "key_contract K" "wf_node K n" "config_ok cfg"
  shows "gets_or_inserts K n n' key value val r"
  using assms(1,3)
proof (induction n arbitrary: depth n' val r rb rule: node_induct)
  case (Node n)
  let ?i = "predict_slot K n key"
  have i: "?i < capacity n" by (rule predict_slot_less) (rule wf_nodeD(1) [OF Node.prems(2)])
  note single = single_entry_child [OF assms(2), of key "value"]
  note upd = updates_at_slot [OF Node.prems(2) refl, of _ key "Some value"]
  note home = map_of_entries [OF Node.prems(2), of key]
  note step = Node.prems(1) [unfolded get_or_insert_at.simps [of _ _ _ _ _ n] Let_def slot_at_eq [OF i]]
  have descend: ?case
    if rec: "load_child n ?i = Some c" "get_or_insert_at K cfg key value (depth + 1) c = Some (c', val, r, rb)"
      "n' = put_child ?i c' n" for c c'
    using Node.IH [OF load_child_Some(2,3) [OF rec(1)] rec(2)] load_child_wf [OF Node.prems(2) rec(1)]
      updates_at_child [OF Node.prems(2) rec(1)] map_of_child [OF Node.prems(2) rec(1)] rec(3)
    by (auto simp: gets_or_inserts_def split: option.splits)
  show ?case
  proof (cases "slots n ! ?i")
    case Empty
    then have "n' = inc_keys (set_slot ?i (Data key value) n)" "r = Inserted" "val = value"
      using step i by (auto simp add: cas_empty_to_data_def slot_at_eq)
    then show ?thesis using Empty home
      by (auto simp: gets_or_inserts_def intro!: updates_at_counter upd)
  next
    case (Data ek ev)
    show ?thesis
    proof (cases "ek = key")
      case True
      then show ?thesis using step Data home Node.prems(2)
        by (simp add: gets_or_inserts_def updates_at_refl)
    next
      case False
      then obtain c where c: "build_conflict_node K cfg ek ev key value = Some c"
        "n' = dec_keys (set_slot ?i (ChildStale ek ev c) (ensure_children n))" "r = Inserted"
        "get K c key = Some val"
        using step i Data by (auto simp: cas_data_to_child_stale_def slot_at_eq bind_eq_Some_conv)
      have child: "wf_node K c" "map_of (entries c) = [ek \<mapsto> ev, key \<mapsto> value]"
        using build_conflict_node_correct [OF c(1) assms(2,4) False] by blast+
      then have "val = value" using c(4) get_eq_map_of [OF child(1), of key] by simp
      then show ?thesis using Data home c(2,3) child False
        by (auto simp: gets_or_inserts_def intro!: updates_at_counter upd)
    qed
  next
    case (Tombstone k v)
    then have "n' = dec_tombstones (set_slot ?i (ChildStale k v (build_single_entry_child K key value))
        (ensure_children n))" "r = Inserted" "get K (build_single_entry_child K key value) key = Some val"
      using step i by (auto simp: cas_tombstone_to_child_stale_def slot_at_eq)
    moreover have "val = value"
      using calculation(3) single get_eq_map_of [of K "build_single_entry_child K key value" key] by simp
    ultimately show ?thesis using Tombstone home single
      by (auto simp: gets_or_inserts_def intro!: updates_at_counter upd)
  next
    case (Child c0)
    then show ?thesis using step descend
      by (auto simp: bind_eq_Some_conv split: option.splits)
  next
    case (ChildStale k v c0)
    then show ?thesis using step descend
      by (auto simp: bind_eq_Some_conv split: option.splits)
  qed
qed

lemma get_or_insert_correct:
  assumes "get_or_insert K cfg n key value = Some (n', val, r)"
    and "key_contract K" "wf_node K n" "config_ok cfg" "length (entries n) < usize_max"
  shows "gets_or_inserts K n n' key value val r"
proof -
  obtain n1 rb where n1: "get_or_insert_at K cfg key value 0 n = Some (n1, val, r, rb)"
    and rb: "(if rb then Option.bind (try_rebuild_subtree K cfg n1 (predict_slot K n key))
               (\<lambda>(n'', _). Some (n'', val, r)) else Some (n1, val, r)) = Some (n', val, r)"
    using assms(1) by (auto simp: get_or_insert_def bind_eq_Some_conv split: if_splits)
  note at = get_or_insert_at_correct [OF n1 assms(2-4)]
  show ?thesis
  proof (cases rb)
    case True
    then obtain b where b: "try_rebuild_subtree K cfg n1 (predict_slot K n key) = Some (n', b)"
      using rb by (auto simp: bind_eq_Some_conv)
    then show ?thesis using updates_at_rebuild [OF _ b assms(2,3,4,5)] at
      by (auto simp: gets_or_inserts_def split: option.splits)
  qed (use at rb in simp)
qed

end
