(* ===== verification/Remove.thy ===== *)
theory Remove
  imports Insert_Facts
begin

text \<open>
  \<^verbatim>\<open>src/remove.rs\<close>: removal turns the slot of the key into a tombstone and rebuilds the
  subtree behind the tree's own slot for the key when the tombstones of the node exceed the
  configured ratio. As for insertion, one thread runs the operation. There is a rebuild
  candidate only if the descent left the root.
\<close>

function remove_at ::
    "'k::linorder key_impl \<Rightarrow> config \<Rightarrow> 'k \<Rightarrow> bool \<Rightarrow> ('k, 'v) node \<Rightarrow>
     (('k, 'v) node \<times> bool \<times> bool) option" where
  "remove_at K cfg key candidate node =
     (let slot_idx = predict_slot K node key
      in case slot_at node slot_idx of
           Empty \<Rightarrow> Some (node, False, False)
         | Tombstone _ _ \<Rightarrow> Some (node, False, False)
         | Data k _ \<Rightarrow>
             if k \<noteq> key then Some (node, False, False)
             else
               (case cas_data_to_tombstone slot_idx node of
                  (node', True) \<Rightarrow>
                    let node'' = inc_tombstones (dec_keys node')
                    in Some (node'', True,
                         auto_rebuild cfg \<and>
                         f64_lt (tombstone_ratio_threshold cfg) (tombstone_ratio node'') \<and>
                         candidate)
                | (_, False) \<Rightarrow> None)
         | _ \<Rightarrow>
             (case load_child node slot_idx of
                None \<Rightarrow> Some (node, False, False)
              | Some child \<Rightarrow>
                  Option.bind (remove_at K cfg key True child)
                    (\<lambda>(child', removed, rebuild).
                       Some (put_child slot_idx child' node, removed, rebuild))))"
  by pat_completeness auto
termination
  by (relation "measure (\<lambda>(K, cfg, key, candidate, node). size node)") (auto intro: load_child_size)

declare remove_at.simps [simp del]

definition remove ::
    "'k::linorder key_impl \<Rightarrow> config \<Rightarrow> ('k, 'v) node \<Rightarrow> 'k \<Rightarrow> (('k, 'v) node \<times> bool) option" where
  "remove K cfg node key =
     Option.bind (remove_at K cfg key False node) (\<lambda>(node', removed, rebuild).
       if rebuild then
         Option.bind (try_rebuild_subtree K cfg node' (predict_slot K node key))
           (\<lambda>(node'', _). Some (node'', removed))
       else Some (node', removed))"

subsection \<open>Correctness\<close>

lemma remove_at_correct:
  assumes "key_contract K" "wf_node K n"
  shows "\<exists>n' removed rb. remove_at K cfg key cand n = Some (n', removed, rb) \<and>
    updates_at K n n' key None \<and> removed = (map_of (entries n) key \<noteq> None)"
  using assms(2)
proof (induction n arbitrary: cand rule: node_induct)
  case (Node n)
  let ?i = "predict_slot K n key"
  have i: "?i < capacity n" by (rule predict_slot_less) (rule wf_nodeD(1) [OF Node.prems])
  note home = map_of_entries [OF Node.prems, of key]
  note step = remove_at.simps [of K cfg key cand n, unfolded Let_def slot_at_eq [OF i]]
  have unchanged: ?case
    if "remove_at K cfg key cand n = Some (n, False, False)" "map_of (entries n) key = None"
    using that updates_at_refl [OF Node.prems that(2)] by blast
  have descend: ?case
    if child: "load_child n ?i = Some c" "remove_at K cfg key cand n =
      Option.bind (remove_at K cfg key True c)
        (\<lambda>(child', removed, rebuild). Some (put_child ?i child' n, removed, rebuild))" for c
    using Node.IH [OF load_child_Some(2,3) [OF child(1)] load_child_wf [OF Node.prems child(1)], of True]
      updates_at_child [OF Node.prems child(1), of _ None] map_of_child [OF Node.prems child(1)] child(2)
    by force
  show ?case
  proof (cases "slots n ! ?i")
    case Empty
    then show ?thesis using step home Node.prems unchanged by simp
  next
    case (Tombstone k v)
    then show ?thesis using step home Node.prems unchanged by simp
  next
    case (Data k v)
    show ?thesis
    proof (cases "k = key")
      case True
      then show ?thesis using step home Data i updates_at_slot(1) [OF Node.prems refl, of "Tombstone k v" key None]
        by (auto simp: cas_data_to_tombstone_def slot_at_eq intro!: updates_at_counter)
    next
      case False
      then show ?thesis using step home Data Node.prems unchanged by simp
    qed
  next
    case (Child c)
    then show ?thesis using step descend [of c] load_child_eq [OF Node.prems i] by simp
  next
    case (ChildStale k v c)
    then show ?thesis using step descend [of c] load_child_eq [OF Node.prems i] by simp
  qed
qed

lemma remove_correct:
  assumes "remove K cfg n key = Some (n', removed)"
    and "key_contract K" "wf_node K n" "config_ok cfg" "length (entries n) < usize_max"
  shows "wf_node K n' \<and> map_of (entries n') = (map_of (entries n))(key := None) \<and>
    removed = (map_of (entries n) key \<noteq> None)"
proof -
  obtain n1 rb where n1: "remove_at K cfg key False n = Some (n1, removed, rb)"
    and rb: "(if rb then Option.bind (try_rebuild_subtree K cfg n1 (predict_slot K n key))
               (\<lambda>(n'', _). Some (n'', removed)) else Some (n1, removed)) = Some (n', removed)"
    using assms(1) by (auto simp: remove_def bind_eq_Some_conv split: if_splits)
  have at: "updates_at K n n1 key None" "removed = (map_of (entries n) key \<noteq> None)"
    using remove_at_correct [OF assms(2,3), of cfg key False] n1 by auto
  have "updates_at K n n' key None"
  proof (cases rb)
    case True
    then obtain b where "try_rebuild_subtree K cfg n1 (predict_slot K n key) = Some (n', b)"
      using rb by (auto simp: bind_eq_Some_conv)
    then show ?thesis using updates_at_rebuild [OF at(1)] assms by blast
  qed (use at rb in simp)
  then show ?thesis using at(2) by (simp add: updates_at_def)
qed

end
