(* ===== verification/LearnedMap.thy ===== *)
theory LearnedMap
  imports Remove
begin

text \<open>
  \<^verbatim>\<open>src/map.rs\<close>: the map. Its state is the root, the number of entries, the configuration and
  the entry count at which the next rebuild of the root is due. The operations are those of
  one thread: the root is never frozen by somebody else, and the re-validations of the root
  succeed. \<open>None\<close> is an operation that does not return.
\<close>

definition INITIAL_ROOT_REBUILD_THRESHOLD :: nat where
  "INITIAL_ROOT_REBUILD_THRESHOLD = 64"

definition ROOT_REBUILD_GROWTH_FACTOR :: nat where
  "ROOT_REBUILD_GROWTH_FACTOR = 2"

record ('k, 'v) learned_map =
  lm_root :: "('k, 'v) node"
  lm_len :: usize
  lm_config :: config
  next_root_rebuild :: nat

subsection \<open>Construction\<close>

definition empty_root :: "('k, 'v) node" where
  "empty_root = with_capacity (linear_new (Fin 1) (Fin 0)) 64"

definition lm_with_config :: "config \<Rightarrow> ('k, 'v) learned_map" where
  "lm_with_config cfg =
     \<lparr>lm_root = empty_root, lm_len = 0, lm_config = cfg,
      next_root_rebuild = INITIAL_ROOT_REBUILD_THRESHOLD\<rparr>"

definition lm_new :: "('k, 'v) learned_map" where
  "lm_new = lm_with_config config_default"

definition lm_bulk_load_with_config ::
    "'k::linorder key_impl \<Rightarrow> ('k \<times> 'v) list \<Rightarrow> config \<Rightarrow> (error + ('k, 'v) learned_map) option" where
  "lm_bulk_load_with_config K pairs cfg =
     (let build_config = cfg\<lparr>range_headroom := f64_max (range_headroom cfg) (Fin 1)\<rparr>
      in map_option
           (map_sum id (\<lambda>rt.
              \<lparr>lm_root = rt, lm_len = of_nat (length pairs), lm_config = cfg,
               next_root_rebuild = saturating_mul (length pairs) ROOT_REBUILD_GROWTH_FACTOR\<rparr>))
           (bulk_load K build_config pairs))"

definition lm_bulk_load ::
    "'k::linorder key_impl \<Rightarrow> ('k \<times> 'v) list \<Rightarrow> (error + ('k, 'v) learned_map) option" where
  "lm_bulk_load K pairs = lm_bulk_load_with_config K pairs config_default"

text \<open>\<^verbatim>\<open>windows(2)\<close>, and the pairs whose key differs from the next one.\<close>

definition windows2 :: "'a list \<Rightarrow> ('a \<times> 'a) list" where
  "windows2 xs = zip xs (tl xs)"

definition dedup_pairs :: "('k \<times> 'v) list \<Rightarrow> ('k \<times> 'v) list" where
  "dedup_pairs pairs =
     (let deduped = map fst (filter (\<lambda>(a, b). fst a \<noteq> fst b) (windows2 pairs))
      in if pairs = [] then deduped else deduped @ [last pairs])"

definition lm_bulk_load_dedup_with_config ::
    "'k::linorder key_impl \<Rightarrow> ('k \<times> 'v) list \<Rightarrow> config \<Rightarrow> (error + ('k, 'v) learned_map) option" where
  "lm_bulk_load_dedup_with_config K pairs cfg =
     (if pairs = [] then Some (Inl EmptyData)
      else if list_ex (\<lambda>(a, b). fst b < fst a) (windows2 pairs) then Some (Inl NotSorted)
      else if dedup_pairs pairs = [] then Some (Inl EmptyData)
      else lm_bulk_load_with_config K (dedup_pairs pairs) cfg)"

definition lm_bulk_load_dedup ::
    "'k::linorder key_impl \<Rightarrow> ('k \<times> 'v) list \<Rightarrow> (error + ('k, 'v) learned_map) option" where
  "lm_bulk_load_dedup K pairs = lm_bulk_load_dedup_with_config K pairs config_default"

subsection \<open>Rebuilding the root\<close>

definition lm_rebuild ::
    "'k::linorder key_impl \<Rightarrow> ('k, 'v) learned_map \<Rightarrow> ('k, 'v) learned_map option" where
  "lm_rebuild K m =
     (let pairs = sorted_pairs (lm_root m)
      in if pairs = [] then Some m
         else
           let rebuild_config = (lm_config m)\<lparr>range_headroom := Fin 1\<rparr>
           in Option.bind (bulk_load K rebuild_config pairs) (\<lambda>res.
                case res of
                  Inl _ \<Rightarrow> Some m
                | Inr new_root \<Rightarrow>
                    Some (m\<lparr>lm_root := new_root,
                      next_root_rebuild := saturating_mul (length pairs) ROOT_REBUILD_GROWTH_FACTOR\<rparr>)))"

definition maybe_rebuild_root ::
    "'k::linorder key_impl \<Rightarrow> ('k, 'v) learned_map \<Rightarrow> usize \<Rightarrow> ('k, 'v) learned_map option" where
  "maybe_rebuild_root K m current_len =
     (if \<not> auto_rebuild (lm_config m) then Some m
      else
        let threshold = next_root_rebuild m
        in if unat current_len < threshold then Some m
           else lm_rebuild K
                  (m\<lparr>next_root_rebuild := saturating_mul threshold ROOT_REBUILD_GROWTH_FACTOR\<rparr>))"

subsection \<open>Point operations\<close>

definition lm_get :: "'k::linorder key_impl \<Rightarrow> ('k, 'v) learned_map \<Rightarrow> 'k \<Rightarrow> 'v option" where
  "lm_get K m key = get K (lm_root m) key"

definition lm_insert ::
    "'k::linorder key_impl \<Rightarrow> ('k, 'v) learned_map \<Rightarrow> 'k \<Rightarrow> 'v \<Rightarrow>
     (('k, 'v) learned_map \<times> bool) option" where
  "lm_insert K m key value =
     Option.bind (tree_insert K (lm_config m) (lm_root m) key value) (\<lambda>(rt, result).
       let m' = m\<lparr>lm_root := rt\<rparr>;
           is_new = (result = Inserted)
       in if is_new then
            let new_len = lm_len m' + 1
            in map_option (\<lambda>m''. (m'', is_new))
                 (maybe_rebuild_root K (m'\<lparr>lm_len := new_len\<rparr>) new_len)
          else Some (m', is_new))"

definition lm_remove ::
    "'k::linorder key_impl \<Rightarrow> ('k, 'v) learned_map \<Rightarrow> 'k \<Rightarrow> (('k, 'v) learned_map \<times> bool) option" where
  "lm_remove K m key =
     Option.bind (remove K (lm_config m) (lm_root m) key) (\<lambda>(rt, did_remove).
       let m' = m\<lparr>lm_root := rt\<rparr>
       in Some (if did_remove then m'\<lparr>lm_len := lm_len m' - 1\<rparr> else m', did_remove))"

definition lm_get_or_insert ::
    "'k::linorder key_impl \<Rightarrow> ('k, 'v) learned_map \<Rightarrow> 'k \<Rightarrow> 'v \<Rightarrow>
     (('k, 'v) learned_map \<times> 'v) option" where
  "lm_get_or_insert K m key value =
     Option.bind (get_or_insert K (lm_config m) (lm_root m) key value) (\<lambda>(rt, val, result).
       let m' = m\<lparr>lm_root := rt\<rparr>
       in if result = Inserted then
            let new_len = lm_len m' + 1
            in map_option (\<lambda>m''. (m'', val))
                 (maybe_rebuild_root K (m'\<lparr>lm_len := new_len\<rparr>) new_len)
          else Some (m', val))"

definition lm_get_or_insert_with ::
    "'k::linorder key_impl \<Rightarrow> ('k, 'v) learned_map \<Rightarrow> 'k \<Rightarrow> (unit \<Rightarrow> 'v) \<Rightarrow>
     (('k, 'v) learned_map \<times> 'v) option" where
  "lm_get_or_insert_with K m key f =
     (case lm_get K m key of
        Some val \<Rightarrow> Some (m, val)
      | None \<Rightarrow> lm_get_or_insert K m key (f ()))"

definition lm_contains_key :: "'k::linorder key_impl \<Rightarrow> ('k, 'v) learned_map \<Rightarrow> 'k \<Rightarrow> bool" where
  "lm_contains_key K m key \<longleftrightarrow> lm_get K m key \<noteq> None"

definition lm_length :: "('k, 'v) learned_map \<Rightarrow> nat" where
  "lm_length m = unat (lm_len m)"

definition lm_is_empty :: "('k, 'v) learned_map \<Rightarrow> bool" where
  "lm_is_empty m \<longleftrightarrow> lm_length m = 0"

subsection \<open>Traversals\<close>

definition lm_iter :: "('k, 'v) learned_map \<Rightarrow> ('k, 'v) iter" where
  "lm_iter m = iter_with_hint (lm_root m) (lm_length m)"

definition lm_iter_sorted :: "('k, 'v) learned_map \<Rightarrow> ('k \<times> 'v) list" where
  "lm_iter_sorted m = sorted_pairs (lm_root m)"

definition lm_range ::
    "'k::linorder key_impl \<Rightarrow> ('k, 'v) learned_map \<Rightarrow> 'k bound \<Rightarrow> 'k bound \<Rightarrow> ('k, 'v) range_iter" where
  "lm_range K m lo hi = range_new K (lm_root m) lo hi"

definition lm_first_key_value :: "('k, 'v) learned_map \<Rightarrow> ('k \<times> 'v) option" where
  "lm_first_key_value m = first_entry (lm_root m)"

definition lm_last_key_value :: "('k, 'v) learned_map \<Rightarrow> ('k \<times> 'v) option" where
  "lm_last_key_value m = last_entry (lm_root m)"

definition lm_range_count ::
    "'k::linorder key_impl \<Rightarrow> ('k, 'v) learned_map \<Rightarrow> 'k bound \<Rightarrow> 'k bound \<Rightarrow> nat" where
  "lm_range_count K m lo hi = length (range_collect (lm_range K m lo hi))"

definition lm_allocated_bytes :: "layout \<Rightarrow> ('k, 'v) learned_map \<Rightarrow> nat" where
  "lm_allocated_bytes L m = allocated_bytes L (lm_root m)"

definition lm_max_depth :: "('k, 'v) learned_map \<Rightarrow> nat" where
  "lm_max_depth m = max_depth (lm_root m)"

subsection \<open>Emptying\<close>

definition lm_drain :: "('k, 'v) learned_map \<Rightarrow> ('k, 'v) learned_map \<times> ('k \<times> 'v) list" where
  "lm_drain m =
     (let pairs = sorted_pairs (lm_root m)
      in (m\<lparr>lm_root := empty_root, lm_len := lm_len m - of_nat (length pairs),
            next_root_rebuild := INITIAL_ROOT_REBUILD_THRESHOLD\<rparr>,
          pairs))"

definition lm_clear :: "('k, 'v) learned_map \<Rightarrow> ('k, 'v) learned_map" where
  "lm_clear m =
     (let entry_count = length (iter_collect (iter_new (lm_root m)))
      in m\<lparr>lm_root := empty_root, lm_len := lm_len m - of_nat entry_count,
           next_root_rebuild := INITIAL_ROOT_REBUILD_THRESHOLD\<rparr>)"

subsection \<open>Conversions\<close>

definition lm_extend ::
    "'k::linorder key_impl \<Rightarrow> ('k, 'v) learned_map \<Rightarrow> ('k \<times> 'v) list \<Rightarrow> ('k, 'v) learned_map option" where
  "lm_extend K m pairs = fold_returns (\<lambda>(k, v) m. map_option fst (lm_insert K m k v)) pairs m"

definition lm_from_iter ::
    "'k::linorder key_impl \<Rightarrow> ('k \<times> 'v) list \<Rightarrow> ('k, 'v) learned_map option" where
  "lm_from_iter K pairs = fold_returns (\<lambda>(k, v) m. map_option fst (lm_insert K m k v)) pairs lm_new"

text \<open>
  The sequence handed to a serializer, with its length hint, and the map built from the
  sequence a deserializer returns.
\<close>

definition lm_serialize :: "('k, 'v) learned_map \<Rightarrow> nat \<times> ('k \<times> 'v) list" where
  "lm_serialize m = (lm_length m, iter_collect (lm_iter m))"

definition lm_deserialize ::
    "'k::linorder key_impl \<Rightarrow> ('k \<times> 'v) list \<Rightarrow> (error + ('k, 'v) learned_map) option" where
  "lm_deserialize K pairs = (if pairs = [] then Some (Inr lm_new) else lm_bulk_load_dedup K pairs)"

end
