(* ===== verification/LearnedSet.thy ===== *)
theory LearnedSet
  imports LearnedMap
begin

text \<open>
  \<^verbatim>\<open>src/set.rs\<close>: a set is a map to the unit value.
\<close>

type_synonym 'k learned_set = "('k, unit) learned_map"

definition ls_new :: "'k learned_set" where
  "ls_new = lm_new"

definition ls_with_config :: "config \<Rightarrow> 'k learned_set" where
  "ls_with_config cfg = lm_with_config cfg"

definition ls_bulk_load ::
    "'k::linorder key_impl \<Rightarrow> 'k list \<Rightarrow> (error + 'k learned_set) option" where
  "ls_bulk_load K keys = lm_bulk_load_dedup K (map (\<lambda>k. (k, ())) keys)"

definition ls_insert ::
    "'k::linorder key_impl \<Rightarrow> 'k learned_set \<Rightarrow> 'k \<Rightarrow> ('k learned_set \<times> bool) option" where
  "ls_insert K s key = lm_insert K s key ()"

definition ls_remove ::
    "'k::linorder key_impl \<Rightarrow> 'k learned_set \<Rightarrow> 'k \<Rightarrow> ('k learned_set \<times> bool) option" where
  "ls_remove K s key = lm_remove K s key"

definition ls_contains :: "'k::linorder key_impl \<Rightarrow> 'k learned_set \<Rightarrow> 'k \<Rightarrow> bool" where
  "ls_contains K s key \<longleftrightarrow> lm_contains_key K s key"

definition ls_length :: "'k learned_set \<Rightarrow> nat" where
  "ls_length s = lm_length s"

definition ls_is_empty :: "'k learned_set \<Rightarrow> bool" where
  "ls_is_empty s \<longleftrightarrow> lm_is_empty s"

definition ls_range :: "'k::linorder key_impl \<Rightarrow> 'k learned_set \<Rightarrow> 'k bound \<Rightarrow> 'k bound \<Rightarrow> 'k list" where
  "ls_range K s lo hi = map (\<lambda>(k, _). k) (range_collect (lm_range K s lo hi))"

definition ls_first :: "'k learned_set \<Rightarrow> 'k option" where
  "ls_first s = map_option (\<lambda>(k, _). k) (lm_first_key_value s)"

definition ls_last :: "'k learned_set \<Rightarrow> 'k option" where
  "ls_last s = map_option (\<lambda>(k, _). k) (lm_last_key_value s)"

definition ls_serialize :: "'k learned_set \<Rightarrow> nat \<times> 'k list" where
  "ls_serialize s = (ls_length s, map (\<lambda>(k, _). k) (iter_collect (lm_iter s)))"

definition ls_deserialize :: "'k::linorder key_impl \<Rightarrow> 'k list \<Rightarrow> (error + 'k learned_set) option" where
  "ls_deserialize K keys = (if keys = [] then Some (Inr ls_new) else ls_bulk_load K keys)"

definition ls_extend ::
    "'k::linorder key_impl \<Rightarrow> 'k learned_set \<Rightarrow> 'k list \<Rightarrow> 'k learned_set option" where
  "ls_extend K s keys = fold_returns (\<lambda>k s. map_option fst (ls_insert K s k)) keys s"

definition ls_from_iter :: "'k::linorder key_impl \<Rightarrow> 'k list \<Rightarrow> 'k learned_set option" where
  "ls_from_iter K keys = fold_returns (\<lambda>k s. map_option fst (ls_insert K s k)) keys ls_new"

end
