(* ===== verification/Separation.thy ===== *)
theory Separation
  imports LinearModel_Facts
begin

text \<open>
  Fitted models separate the two ends of their range, for every headroom. The linear candidate
  sends the model input of the first key to slot \<open>0\<close> and of the last key to slot \<open>A / m\<close> of an
  array with last slot \<open>A\<close>, where \<open>m\<close> is the headroom multiplier. Its rounding errors shift it by
  at most about half of \<open>A / m\<close> slots, so the predicted slots of the ends differ, unless the two
  inputs are neighbouring floats of a large magnitude (\<open>neighbours\<close>): then the shift can reach
  \<open>A / m\<close> and the line may send both ends to one slot. All inputs are then one of the two, the
  largest gap is the whole range, and the first gap candidate puts them into slots \<open>0\<close> and \<open>1\<close>.
  This is what bounds the recursion of construction.
\<close>

subsection \<open>Three kinds of pairs of values\<close>

lemma f64_distance:
  assumes a: "is_f64 a" and b: "is_f64 b" and ab: "a \<noteq> b"
    and normal: "pow2 (- 1000) \<le> \<bar>a\<bar>" "\<bar>a\<bar> \<le> pow2 900"
  shows "\<bar>a\<bar> \<le> pow2 52 * \<bar>b - a\<bar> \<or> (\<exists>e. \<bar>a\<bar> = pow2 e) \<or>
    (\<exists>e M. \<bar>b - a\<bar> = pow2 e \<and> a = of_int M * pow2 e \<and> \<bar>M\<bar> < 2 ^ 53)"
proof -
  let ?e = "ilog2 \<bar>a\<bar>" and ?D = "\<bar>b - a\<bar>"
  let ?u = "pow2 (?e - 52)"
  have a0: "0 < \<bar>a\<bar>" using normal(1) pow2_pos [of "- 1000"] by linarith
  have lo: "pow2 ?e \<le> \<bar>a\<bar>" and up: "\<bar>a\<bar> < pow2 (?e + 1)" using ilog2_bounds [OF a0] by auto
  have e_ge: "- 1000 \<le> ?e" using normal(1) by (rule ilog2_ge)
  have e_le: "?e \<le> 900" using lo normal(2) by (metis order_trans pow2_le_iff)
  have ua: "ulp_exp a = ?e - 52" using e_ge by (simp add: ulp_exp_def)
  obtain M where M: "a = of_int M * ?u" using is_f64_on_grid [OF a] ua by auto
  have scale: "pow2 (?e + 1) = of_int (2 ^ 53) * ?u" "pow2 ?e = of_int (2 ^ 52) * ?u"
    using pow2_on_grid [of "?e - 52" "?e + 1"] pow2_on_grid [of "?e - 52" ?e] by simp_all
  have absM: "\<bar>a\<bar> = of_int \<bar>M\<bar> * ?u" by (subst M) (simp add: abs_mult)
  have M_less: "\<bar>M\<bar> < 2 ^ 53"
  proof -
    have "of_int \<bar>M\<bar> * ?u < of_int (2 ^ 53) * ?u" using up absM scale by simp
    then show ?thesis by (simp only: mult_less_cancel_right_pos pow2_pos of_int_less_iff)
  qed
  have M_ge: "2 ^ 52 \<le> \<bar>M\<bar>"
  proof -
    have "of_int (2 ^ 52) * ?u \<le> of_int \<bar>M\<bar> * ?u" using lo absM scale by simp
    then show ?thesis by (simp only: mult_le_cancel_right_pos pow2_pos of_int_le_iff)
  qed
  show ?thesis
  proof (cases "2 * ?u \<le> ?D")
    case True
    have "\<bar>a\<bar> \<le> pow2 52 * (2 * ?u)" using up by (simp flip: pow2_add pow2_Suc add: algebra_simps)
    also have "\<dots> \<le> pow2 52 * ?D" using True by (intro mult_left_mono) simp_all
    finally show ?thesis by blast
  next
    case small: False
    show ?thesis
    proof (cases "\<bar>M\<bar> = 2 ^ 52")
      case True
      then have "\<bar>a\<bar> = pow2 ?e" using absM scale by simp
      then show ?thesis by blast
    next
      case False
      then have M_gt: "2 ^ 52 + 1 \<le> \<bar>M\<bar>" using M_ge by linarith
      show ?thesis
      proof (cases "pow2 ?e \<le> \<bar>b\<bar>")
        case True
        then have ub: "?e - 52 \<le> ulp_exp b" using ilog2_ge by (fastforce simp: ulp_exp_def)
        obtain N where N: "b = of_int N * pow2 (ulp_exp b)" using is_f64_on_grid [OF b] by blast
        have "b = of_int (N * 2 ^ nat (ulp_exp b - (?e - 52))) * ?u"
          using N pow2_on_grid [OF ub] by simp
        then obtain N' where "b = of_int N' * ?u" by blast
        then have "b - a = of_int (N' - M) * ?u" using M by (simp add: algebra_simps)
        then have diff: "?D = of_int \<bar>N' - M\<bar> * ?u" by (simp add: abs_mult)
        have "\<bar>N' - M\<bar> < 2"
        proof (rule ccontr)
          assume "\<not> \<bar>N' - M\<bar> < 2"
          then have "(of_int 2 :: rat) \<le> of_int \<bar>N' - M\<bar>" by (simp only: of_int_le_iff not_less)
          then have "of_int 2 * ?u \<le> of_int \<bar>N' - M\<bar> * ?u" by (intro mult_right_mono) simp_all
          then show False using diff small by simp
        qed
        moreover have "N' - M \<noteq> 0" using diff ab by auto
        ultimately have "\<bar>N' - M\<bar> = 1" by linarith
        then have "?D = ?u" using diff by simp
        then show ?thesis using M M_less by blast
      next
        case False
        have "is_f64 (pow2 ?e)" using e_ge e_le is_f64_multiple [of "pow2 ?e" 1 ?e] by simp
        moreover have "is_f64 \<bar>b\<bar>" using b
          by (cases "0 \<le> b") (auto simp: is_f64_iff round53_minus)
        ultimately have "pow2 (- 53) * pow2 ?e \<le> \<bar>\<bar>b\<bar> - pow2 ?e\<bar>"
          using f64_gap(1) [of "pow2 ?e" "\<bar>b\<bar>"] False by auto
        then have gap: "?u / 2 \<le> pow2 ?e - \<bar>b\<bar>"
          using False pow2_Suc [of "?e - 53"] by (simp flip: pow2_add)
        have "?D \<ge> \<bar>a\<bar> - \<bar>b\<bar>" by linarith
        moreover have "\<bar>a\<bar> - pow2 ?e = of_int (\<bar>M\<bar> - 2 ^ 52) * ?u"
          using absM scale by (simp add: algebra_simps)
        ultimately have D: "of_int (\<bar>M\<bar> - 2 ^ 52) * ?u + ?u / 2 \<le> ?D" using gap by linarith
        have "\<bar>M\<bar> - 2 ^ 52 < 2"
        proof (rule ccontr)
          assume "\<not> \<bar>M\<bar> - 2 ^ 52 < 2"
          then have "(of_int 2 :: rat) \<le> of_int (\<bar>M\<bar> - 2 ^ 52)" by (simp only: of_int_le_iff not_less)
          then have "of_int 2 * ?u \<le> of_int (\<bar>M\<bar> - 2 ^ 52) * ?u" by (intro mult_right_mono) simp_all
          then have "2 * ?u \<le> of_int (\<bar>M\<bar> - 2 ^ 52) * ?u" by simp
          then show False using D small pow2_pos [of "?e - 52"] by linarith
        qed
        then have "\<bar>M\<bar> = 2 ^ 52 + 1" using M_gt by linarith
        then have aM: "\<bar>a\<bar> = (pow2 52 + 1) * ?u" and D': "3 / 2 * ?u \<le> ?D"
          using absM D by (simp_all add: pow2_def)
        have "(pow2 52 + 1) * u \<le> pow2 52 * (3 / 2 * u)" if "0 \<le> u" for u
          using that by (simp add: pow2_def)
        from this [of ?u] have "(pow2 52 + 1) * ?u \<le> pow2 52 * (3 / 2 * ?u)" by simp
        then have "\<bar>a\<bar> \<le> pow2 52 * (3 / 2 * ?u)" using aM by linarith
        also have "\<dots> \<le> pow2 52 * ?D" using D' by (intro mult_left_mono) simp_all
        finally show ?thesis by blast
      qed
    qed
  qed
qed

lemma f64_mantissa:
  assumes "is_f64 x" "pow2 (- 1000) \<le> \<bar>x\<bar>"
  shows "\<exists>M. x = of_int M * pow2 (ilog2 \<bar>x\<bar> - 52) \<and> \<bar>M\<bar> \<le> 2 ^ 53"
proof -
  let ?u = "pow2 (ilog2 \<bar>x\<bar> - 52)"
  have x0: "0 < \<bar>x\<bar>" using assms(2) pow2_pos [of "- 1000"] by linarith
  have "- 1000 \<le> ilog2 \<bar>x\<bar>" using assms(2) by (rule ilog2_ge)
  then have "ulp_exp x = ilog2 \<bar>x\<bar> - 52" by (simp add: ulp_exp_def)
  then obtain M where M: "x = of_int M * ?u" using is_f64_on_grid [OF assms(1)] by auto
  have "\<bar>x\<bar> = of_int \<bar>M\<bar> * ?u" by (subst M) (simp add: abs_mult)
  moreover have "pow2 (ilog2 \<bar>x\<bar> + 1) = of_int (2 ^ 53) * ?u"
    using pow2_on_grid [of "ilog2 \<bar>x\<bar> - 52" "ilog2 \<bar>x\<bar> + 1"] by simp
  ultimately have "of_int \<bar>M\<bar> * ?u < of_int (2 ^ 53) * ?u" using ilog2_bounds(2) [OF x0] by simp
  then have "\<bar>M\<bar> < 2 ^ 53" by (simp only: mult_less_cancel_right_pos pow2_pos of_int_less_iff)
  then show ?thesis using M by (intro exI [of _ M]) simp
qed

lemma round53_error_any: "\<bar>round53 x - x\<bar> \<le> pow2 (- 53) * \<bar>x\<bar> + pow2 (- 1075)"
proof (cases "pow2 (- 1022) \<le> \<bar>x\<bar>")
  case True
  then show ?thesis using round53_error_rel [OF True] pow2_pos [of "- 1075"] by linarith
next
  case False
  then have "\<bar>x\<bar> < pow2 (- 1021)" using pow2_less_iff [of "- 1022" "- 1021"] by linarith
  then have "\<bar>round53 x - x\<bar> \<le> pow2 (- 1021 - 54)" by (rule round53_error_below) simp
  then show ?thesis by (simp add: add_increasing)
qed

subsection \<open>From positions to slots\<close>

lemma round_half_away_ge_1: "1 / 2 \<le> x \<Longrightarrow> 1 \<le> round_half_away x"
  by (simp add: round_half_away_def le_floor_iff)

lemma round_half_away_le: "of_int (round_half_away x) \<le> x + 1 / 2"
  by (auto simp: round_half_away_def) linarith+

lemma round_half_away_step: "x + 1 \<le> y \<Longrightarrow> round_half_away x + 1 \<le> round_half_away y"
  by (auto simp: round_half_away_def; linarith)

lemma slot_less:
  assumes "fl x = Fin f" "fl y = Fin g" and A: "0 < A" "A < 2 ^ 62"
    and "round_half_away f < int A" "1 \<le> round_half_away g"
    and "round_half_away f + 1 \<le> round_half_away g"
  shows "min (f64_to_usize (f64_max (f64_round (fl x)) (Fin 0))) A
    < min (f64_to_usize (f64_max (f64_round (fl y)) (Fin 0))) A"
proof -
  have usize: "f64_to_usize (f64_max (f64_round (Fin z)) (Fin 0)) =
      nat (max 0 (min (round_half_away z) (2 ^ 64 - 1)))" for z
    by (auto simp: f64_max_def)
  show ?thesis unfolding assms(1,2) usize using assms(3-) by (auto simp: min_def max_def nat_less_iff)
qed

text \<open>
  The positions of the two ends on the computed line: either the shift is at most about half
  the span, or both positions are multiples of the span's unit and the shift is one unit less
  than the span.
\<close>

lemma slot_less_half:
  assumes A: "2 \<le> A" "A \<le> 2 ^ 50" and B: "3 / 2 \<le> B" "B \<le> rat_of_nat A"
    and x: "\<bar>x\<bar> \<le> B / 2 * (1 + pow2 (- 40))"
    and y: "B * (1 - pow2 (- 40)) \<le> y - x" "y \<le> 2 * B"
  shows "min (f64_to_usize (f64_max (f64_round (fl x)) (Fin 0))) A
    < min (f64_to_usize (f64_max (f64_round (fl y)) (Fin 0))) A"
proof -
  have "rat_of_nat A \<le> rat_of_nat (2 ^ 50)" using A(2) by (simp only: of_nat_le_iff)
  then have A50: "rat_of_nat A \<le> pow2 50" by (simp add: pow2_def)
  have t: "pow2 (- 40) = 1 / 2 ^ 40" "pow2 (- 53) = 1 / 2 ^ 53" "pow2 (- 1075) \<le> 1 / 2 ^ 60" "pow2 50 = 2 ^ 50"
    using pow2_mono [of "- 1075" "- 60"] by (simp_all add: pow2_def)
  have bound: "\<bar>x\<bar> \<le> 2 * B" "\<bar>y\<bar> \<le> 2 * B" using x y B by (simp_all add: t field_simps) 
  have "pow2 51 \<le> pow2 1023" by (simp only: pow2_le_iff)
  moreover have "pow2 51 = 2 * pow2 50" using pow2_Suc [of 50] by simp
  ultimately have "2 * B \<le> pow2 1023" using B(2) A50 by linarith
  then have fin: "fl x = Fin (round53 x)" "fl y = Fin (round53 y)"
    using bound by (auto intro!: fl_finite)
  have err: "\<bar>round53 z - z\<bar> \<le> B / 2 ^ 51" if "\<bar>z\<bar> \<le> 2 * B" for z
    using round53_error_any [of z] that B(1) t(3) by (simp add: t(2))
  note errs = abs_le_D1 [OF err [OF bound(1)]] abs_le_D2 [OF err [OF bound(1)]]
    abs_le_D1 [OF err [OF bound(2)]] abs_le_D2 [OF err [OF bound(2)]]
    abs_le_D1 [OF x] abs_le_D2 [OF x]
  show ?thesis
  proof (rule slot_less [OF fin])
    have "round53 x \<le> B * (5 / 8)" using errs B(1) by (simp add: t)
    then have "of_int (round_half_away (round53 x)) \<le> B * (5 / 8) + 1 / 2"
      using round_half_away_le [of "round53 x"] by linarith
    also have "\<dots> < rat_of_nat A"
      using B(2) of_nat_le_iff [where 'a = rat, of 2 A] A(1) by simp
    finally show "round_half_away (round53 x) < int A" by linarith
    have "1 / 2 \<le> round53 y" using errs y B(1) by (simp add: t)
    then show "1 \<le> round_half_away (round53 y)" by (rule round_half_away_ge_1)
    have "round53 x + 1 \<le> round53 y" using errs y(1) B(1) by (simp add: t)
    then show "round_half_away (round53 x) + 1 \<le> round_half_away (round53 y)"
      by (rule round_half_away_step)
  qed (use A in simp_all)
qed

lemma pow2_minus_1 [simp]: "pow2 (- 1) = 1 / 2"
  by (simp add: pow2_def)

lemma slot_less_unit:
  assumes A: "2 \<le> A" "A \<le> 2 ^ 50" and p: "\<bar>p\<bar> \<le> int A - 1"
  shows "min (f64_to_usize (f64_max (f64_round (fl (of_int p))) (Fin 0))) A
    < min (f64_to_usize (f64_max (f64_round (fl (of_int (p + int A)))) (Fin 0))) A"
proof (rule slot_less)
  have "int A \<le> int (2 ^ 50)" using A(2) by (simp only: of_nat_le_iff)
  then show "fl (of_int p) = Fin (of_int p)" "fl (of_int (p + int A)) = Fin (of_int (p + int A))"
    using p by (intro fl_of_int; simp)+
  show "round_half_away (of_int p) < int A" "1 \<le> round_half_away (of_int (p + int A))"
    "round_half_away (of_int p) + 1 \<le> round_half_away (of_int (p + int A))"
    using p A(1) unfolding round_half_away_of_int by linarith+
qed (use A in simp_all)

subsection \<open>The computed line\<close>

text \<open>The range, its product with the headroom multiplier, and the slope are rounded.\<close>

lemma relative_span:
  assumes "\<bar>r - D\<bar> \<le> pow2 (- 53) * D" "\<bar>g - r * m\<bar> \<le> pow2 (- 53) * (r * m)"
    and "\<bar>s - A / g\<bar> \<le> pow2 (- 53) * (A / g)" "0 < D" "0 < r" "0 < m" "0 < g" "0 < A"
  shows "A / m * (1 - pow2 (- 50)) \<le> s * D" "s * D \<le> A / m * (1 + pow2 (- 50))"
proof -
  let ?t = "pow2 (- 53)"
  have t: "?t = 1 / 2 ^ 53" "pow2 (- 50) = 8 * ?t" by (simp_all add: pow2_def)
  have D: "D \<le> r * (1 + 2 * ?t)" "r * (1 - 2 * ?t) \<le> D"
    using abs_le_D1 [OF assms(1)] abs_le_D2 [OF assms(1)] assms(4,5) by (simp_all add: t field_simps)
  have "0 < r * m" using assms(5,6) by simp
  then have "r * m \<le> g * (1 + 2 * ?t)" "g * (1 - 2 * ?t) \<le> r * m"
    using abs_le_D1 [OF assms(2)] abs_le_D2 [OF assms(2)] assms(7) by (simp_all add: t field_simps)
  then have r: "r \<le> g / m * (1 + 2 * ?t)" "g / m * (1 - 2 * ?t) \<le> r"
    using assms(6) by (simp_all add: field_simps)
  have s: "s \<le> A / g * (1 + ?t)" "A / g * (1 - ?t) \<le> s" "0 \<le> s"
    using assms(3,7,8) divide_pos_pos [OF assms(8,7)] by (simp_all add: abs_le_iff algebra_simps t)
  have gm: "0 < g / m" and Am: "0 < A / m" using assms(6-8) by simp_all
  have "r * (1 + 2 * ?t) \<le> g / m * (1 + 2 * ?t) * (1 + 2 * ?t)"
    using r(1) by (intro mult_right_mono) (simp_all add: t)
  then have "s * D \<le> A / g * (1 + ?t) * (g / m * (1 + 2 * ?t) * (1 + 2 * ?t))"
    using s D(1) assms(4,7,8) by (intro mult_mono) (simp_all add: t)
  also have "\<dots> = A / m * ((1 + ?t) * (1 + 2 * ?t) * (1 + 2 * ?t))" using assms(7) by simp
  also have "\<dots> \<le> A / m * (1 + pow2 (- 50))" using Am by (intro mult_left_mono) (simp_all add: t)
  finally show "s * D \<le> A / m * (1 + pow2 (- 50))" .
  have "g / m * (1 - 2 * ?t) * (1 - 2 * ?t) \<le> r * (1 - 2 * ?t)"
    using r(2) by (intro mult_right_mono) (simp_all add: t)
  then have low: "g / m * (1 - 2 * ?t) * (1 - 2 * ?t) \<le> D" using D(2) by linarith
  have "A / m * (1 - pow2 (- 50)) \<le> A / m * ((1 - ?t) * (1 - 2 * ?t) * (1 - 2 * ?t))"
    using Am by (intro mult_left_mono) (simp_all add: t)
  also have "\<dots> = A / g * (1 - ?t) * (g / m * (1 - 2 * ?t) * (1 - 2 * ?t))" using assms(7) by simp
  also have "\<dots> \<le> s * D" using s low assms(4,7,8) gm by (intro mult_mono) (simp_all add: t)
  finally show "A / m * (1 - pow2 (- 50)) \<le> s * D" .
qed

text \<open>The rounding error of the intercept.\<close>

lemma shift_far:
  assumes "\<bar>s * a\<bar> \<le> pow2 52 * (B * (1 + pow2 (- 50)))" "3 / 2 \<le> B"
  shows "\<bar>s * a - round53 (s * a)\<bar> \<le> B / 2 * (1 + pow2 (- 40))"
proof -
  have "pow2 (- 1075) \<le> 1 / 2 ^ 60" using pow2_mono [of "- 1075" "- 60"] by (simp add: pow2_def)
  moreover have "pow2 (- 53) * \<bar>s * a\<bar> \<le> pow2 (- 53) * (pow2 52 * (B * (1 + pow2 (- 50))))"
    using assms(1) by (intro mult_left_mono) simp_all
  moreover have "pow2 (- 53) * (pow2 52 * (B * (1 + pow2 (- 50)))) = B / 2 * (1 + pow2 (- 50))"
    by (simp add: pow2_def)
  moreover have "B / 2 * (1 + pow2 (- 50)) + 1 / 2 ^ 60 \<le> B / 2 * (1 + pow2 (- 40))"
    using assms(2) by (simp add: pow2_def)
  ultimately show ?thesis using round53_error_any [of "s * a"] by linarith
qed

lemma shift_power:
  assumes "is_f64 s" "pow2 (- 900) \<le> \<bar>s\<bar>" "\<bar>a\<bar> = pow2 k" "- 2 \<le> k"
  shows "round53 (s * a) = s * a"
proof -
  obtain M where M: "s = of_int M * pow2 (ilog2 \<bar>s\<bar> - 52)" "\<bar>M\<bar> \<le> 2 ^ 53"
    using f64_mantissa [OF assms(1)] order_trans [OF pow2_mono assms(2), of "- 1000"] by auto
  have "- 900 \<le> ilog2 \<bar>s\<bar>" using assms(2) by (rule ilog2_ge)
  then have "round53 (of_int M * pow2 (ilog2 \<bar>s\<bar> - 52 + k)) = of_int M * pow2 (ilog2 \<bar>s\<bar> - 52 + k)"
    using M(2) assms(4) by (intro round53_multiple [OF refl]) simp_all
  moreover have "s * \<bar>a\<bar> = of_int M * pow2 (ilog2 \<bar>s\<bar> - 52 + k)"
    using M(1) assms(3) by (simp add: pow2_add mult.assoc)
  ultimately have "round53 (s * \<bar>a\<bar>) = s * \<bar>a\<bar>" by simp
  then show ?thesis using round53_minus [of "s * \<bar>a\<bar>"] by (cases "0 \<le> a") simp_all
qed

text \<open>Neighbours: the position is a multiple of the unit, and less than the span.\<close>

lemma shift_unit:
  assumes M: "\<bar>M\<bar> < 2 ^ 53" and A: "1 \<le> A"
  shows "\<exists>p. of_int (int A * M) - round53 (of_int (int A * M)) = of_int p \<and> \<bar>p\<bar> \<le> int A - 1"
proof (cases "ulp_exp (of_int (int A * M)) \<le> 0 \<or> M = 0")
  case True
  let ?y = "of_int (int A * M) :: rat"
  have "round53 ?y = ?y"
  proof (cases "M = 0")
    case False
    then have "?y = of_int (int A * M * 2 ^ nat (- ulp_exp ?y)) * pow2 (ulp_exp ?y)"
      using True pow2_on_grid [of "ulp_exp ?y" 0] by simp
    then show ?thesis by (rule round53_exact)
  qed simp
  then show ?thesis using A by (intro exI [of _ 0]) simp
next
  case False
  let ?y = "of_int (int A * M) :: rat"
  let ?k = "ulp_exp ?y"
  have k: "0 < ?k" and y0: "0 < \<bar>?y\<bar>" using False A by simp_all
  obtain q where q: "round53 ?y = of_int q * pow2 ?k" using round53_on_grid by blast
  define p where "p = int A * M - q * 2 ^ nat ?k"
  have p: "?y - round53 ?y = of_int p"
    using q pow2_nat [of ?k] k by (simp add: p_def)
  define P where "P = (2 :: int) ^ nat (?k - 1)"
  have P: "pow2 (?k - 1) = of_int P" using pow2_nat [of "?k - 1"] k by (simp add: P_def)
  have "of_int \<bar>p\<bar> \<le> (of_int P :: rat)"
    using round53_error [of ?y] p P by (simp add: abs_minus_commute)
  then have pP: "\<bar>p\<bar> \<le> P" by (simp only: of_int_le_iff)
  have "?k = ilog2 \<bar>?y\<bar> - 52" using k by (auto simp: ulp_exp_def)
  then have "pow2 (?k - 1) = pow2 (ilog2 \<bar>?y\<bar>) * pow2 (- 53)" by (simp flip: pow2_add)
  also have "\<dots> \<le> \<bar>?y\<bar> * pow2 (- 53)" using ilog2_bounds(1) [OF y0] by simp
  also have "\<dots> = of_int (int A) * (of_int \<bar>M\<bar> * pow2 (- 53))" by (simp add: abs_mult)
  also have "\<dots> < of_int (int A) * 1"
  proof -
    have "(of_int \<bar>M\<bar> :: rat) < of_int (2 ^ 53)" using M by (simp only: of_int_less_iff)
    then have "of_int \<bar>M\<bar> * pow2 (- 53) < 1" by (simp add: pow2_def)
    then show ?thesis using A by simp
  qed
  finally have "of_int P < (of_int (int A) :: rat)" using P by simp
  then have "P < int A" by (simp only: of_int_less_iff)
  then show ?thesis using p pP by (intro exI [of _ p]) simp
qed

lemma predict_line:
  assumes "0 \<le> s" "s \<le> pow2 116" "\<bar>a\<bar> \<le> pow2 128"
  shows "predict_raw (line_through (Fin s) (Fin a)) (Fin v) (A + 1) =
    min (f64_to_usize (f64_max (f64_round (fl (s * v - round53 (s * a)))) (Fin 0))) A"
proof -
  have "s * \<bar>a\<bar> \<le> pow2 116 * pow2 128" using assms by (intro mult_mono) simp_all
  then have "\<bar>- s * a\<bar> \<le> pow2 244" using assms(1) by (simp add: abs_mult flip: pow2_add)
  from fl_bound(1) [OF this] have "fl (- s * a) = Fin (- round53 (s * a))" by (simp add: round53_minus)
  then show ?thesis by (simp add: predict_raw_def line_through_def linear_new_def saturating_sub_def Let_def)
qed

text \<open>The two inputs are neighbouring values of the format: there the intercept is at its worst.\<close>

definition neighbours :: "rat \<Rightarrow> rat \<Rightarrow> bool" where
  "neighbours a b \<longleftrightarrow> (\<exists>e M. b - a = pow2 e \<and> a = of_int M * pow2 e \<and> \<bar>M\<bar> < 2 ^ 53 \<and> 2 ^ 52 < \<bar>M\<bar>)"

lemma distance_cases:
  assumes "is_f64 a" "\<bar>a\<bar> \<le> pow2 128" "is_f64 b" "pow2 (- 53) \<le> b - a"
  obtains "\<bar>a\<bar> \<le> pow2 52 * (b - a)" | e where "pow2 52 * (b - a) < \<bar>a\<bar>" "\<bar>a\<bar> = pow2 e" | "neighbours a b"
proof (cases "\<bar>a\<bar> \<le> pow2 52 * (b - a)")
  case near: False
  have D0: "0 < b - a" using assms(4) pow2_pos [of "- 53"] by linarith
  have "pow2 52 * pow2 (- 53) \<le> pow2 52 * (b - a)" using assms(4) by (intro mult_left_mono) simp_all
  then have "pow2 (- 1) < \<bar>a\<bar>" using near by (simp flip: pow2_add)
  then have "pow2 (- 1000) \<le> \<bar>a\<bar>" using pow2_le_iff [of "- 1000" "- 1"] by linarith
  moreover have "\<bar>a\<bar> \<le> pow2 900" using assms(2) pow2_le_iff [of 128 900] by linarith
  ultimately consider e where "\<bar>a\<bar> = pow2 e" | e M where "b - a = pow2 e" "a = of_int M * pow2 e" "\<bar>M\<bar> < 2 ^ 53"
    using f64_distance [OF assms(1,3)] D0 near by fastforce
  then show thesis
  proof cases
    case 1
    then show ?thesis using that(2) near by simp
  next
    case (2 e M)
    have "pow2 52 * pow2 e < \<bar>a\<bar>" using near unfolding 2(1) by simp
    then have "of_int (2 ^ 52) * pow2 e < of_int \<bar>M\<bar> * pow2 e"
      unfolding 2(2) by (simp add: abs_mult pow2_def [of 52])
    then have "2 ^ 52 < \<bar>M\<bar>" by (simp only: mult_less_cancel_right_pos pow2_pos of_int_less_iff)
    then show ?thesis using that(3) 2 by (auto simp: neighbours_def)
  qed
qed (rule that(1))

text \<open>For other pairs the ends are apart on every line that spans at least one and a half slots.\<close>

lemma line_separates_far:
  assumes a: "is_f64 a" "\<bar>a\<bar> \<le> pow2 128" and b: "is_f64 b" "pow2 (- 53) \<le> b - a" "\<not> neighbours a b"
    and A: "2 \<le> A" "A \<le> 2 ^ 50" and B: "3 / 2 \<le> B" "B \<le> rat_of_nat A"
    and s: "is_f64 s" "pow2 (- 900) \<le> s" "s \<le> pow2 116"
    and span: "B * (1 - pow2 (- 50)) \<le> s * (b - a)" "s * (b - a) \<le> B * (1 + pow2 (- 50))"
  shows "predict_raw (line_through (Fin s) (Fin a)) (Fin a) (A + 1)
    < predict_raw (line_through (Fin s) (Fin a)) (Fin b) (A + 1)"
proof -
  let ?x = "s * a - round53 (s * a)" and ?y = "s * b - round53 (s * a)"
  have s0: "0 \<le> s" using s(2) pow2_pos [of "- 900"] by linarith
  have y: "?y = ?x + s * (b - a)" by (simp add: algebra_simps)
  have far: ?thesis if x: "\<bar>?x\<bar> \<le> B / 2 * (1 + pow2 (- 40))"
    unfolding predict_line [OF s0 s(3) a(2)]
  proof (rule slot_less_half [OF A B x])
    show "B * (1 - pow2 (- 40)) \<le> ?y - ?x" using span(1) B(1) unfolding y by (simp add: pow2_def)
    show "?y \<le> 2 * B" using span(2) B(1) abs_le_D1 [OF x] unfolding y by (simp add: pow2_def)
  qed
  show ?thesis
  proof (rule distance_cases [OF a b(1,2)])
    assume "\<bar>a\<bar> \<le> pow2 52 * (b - a)"
    then have "s * \<bar>a\<bar> \<le> s * (pow2 52 * (b - a))" using s0 by (intro mult_left_mono)
    also have "\<dots> = pow2 52 * (s * (b - a))" by simp
    also have "\<dots> \<le> pow2 52 * (B * (1 + pow2 (- 50)))" using span(2) by (intro mult_left_mono) simp_all
    finally have "\<bar>s * a\<bar> \<le> pow2 52 * (B * (1 + pow2 (- 50)))" using s0 by (simp add: abs_mult)
    then show ?thesis using far shift_far [OF _ B(1)] by simp
  next
    fix e assume e: "pow2 52 * (b - a) < \<bar>a\<bar>" "\<bar>a\<bar> = pow2 e"
    have "pow2 52 * pow2 (- 53) \<le> pow2 52 * (b - a)" using b(2) by (intro mult_left_mono) simp_all
    then have "pow2 (- 1) < pow2 e" using e by (simp flip: pow2_add)
    then have "- 2 \<le> e" by (simp only: pow2_less_iff)
    then have "round53 (s * a) = s * a" using shift_power [OF s(1) _ e(2)] s(2) s0 by simp
    then show ?thesis using far B(1) by simp
  qed (use b(3) in simp)
qed

text \<open>The rounded range of the inputs is a proper divisor.\<close>

lemma rounded_range:
  assumes "\<bar>a\<bar> \<le> pow2 128" "\<bar>b\<bar> \<le> pow2 128" "a < b" "r = round53 (b - a)" "pow2 (- 52) \<le> r"
  shows "pow2 (- 53) \<le> b - a" "\<bar>r - (b - a)\<bar> \<le> pow2 (- 53) * (b - a)" "r \<le> pow2 129" "is_f64 r"
proof -
  show D_ge: "pow2 (- 53) \<le> b - a"
  proof (rule ccontr)
    assume "\<not> pow2 (- 53) \<le> b - a"
    then have "round53 (b - a) \<le> round53 (pow2 (- 53))" by (intro round53_mono) simp
    moreover have "round53 (pow2 (- 53)) = pow2 (- 53)" by (rule round53_pow2) simp
    moreover have "pow2 (- 53) < pow2 (- 52)" by (rule pow2_strict_mono) simp
    ultimately show False using assms(4,5) by linarith
  qed
  have D_le: "\<bar>b - a\<bar> \<le> pow2 129" using assms(1-3) pow2_Suc [of 128] by simp
  have "pow2 (- 1022) \<le> \<bar>b - a\<bar>" using D_ge order_trans [OF pow2_mono, of "- 1022" "- 53"] assms(3) by simp
  from round53_error_rel [OF this] show "\<bar>r - (b - a)\<bar> \<le> pow2 (- 53) * (b - a)" using assms(3,4) by simp
  from fl_bound [OF D_le] show "r \<le> pow2 129" "is_f64 r" using fl_is_f64 by (auto simp: assms(4))
qed

text \<open>The slope the code computes for a range, its bounds, and what the line spans.\<close>

lemma slope_of_range:
  assumes ab: "\<bar>a\<bar> \<le> pow2 128" "\<bar>b\<bar> \<le> pow2 128" "a < b" and r: "r = round53 (b - a)" "pow2 (- 52) \<le> r"
    and m: "1 \<le> m" "m \<le> 256" and A: "2 \<le> A" "A \<le> 2 ^ 50"
  obtains g s where "f64_mul (Fin r) (Fin m) = Fin g" "f64_div (Fin (rat_of_nat A)) (Fin g) = Fin s"
    "0 \<le> s" "s \<le> pow2 116" "is_f64 s" "pow2 (- 900) \<le> s"
    "rat_of_nat A / m * (1 - pow2 (- 50)) \<le> s * (b - a)" "s * (b - a) \<le> rat_of_nat A / m * (1 + pow2 (- 50))"
proof -
  note range = rounded_range [OF ab r]
  have r0: "0 < r" using r(2) pow2_pos [of "- 52"] by linarith
  have A2: "2 \<le> rat_of_nat A" using A(1) of_nat_mono [of 2 A, where 'a = rat] by simp
  have A64: "rat_of_nat A \<le> pow2 64"
    using A(2) of_nat_mono [of A "2 ^ 50", where 'a = rat] pow2_le_iff [of 50 64] by (simp add: pow2_def [of 50])
  define g where "g = round53 (r * m)"
  have rm: "r * 1 \<le> r * m" "r * m \<le> pow2 129 * 256"
    using r0 m range(3) by (intro mult_left_mono mult_mono; simp)+
  have "pow2 129 * 256 = pow2 137" using pow2_add [of 129 8] by (simp add: pow2_def [of 8])
  then have bound: "\<bar>r * m\<bar> \<le> pow2 137" using rm r0 by simp
  have mul: "f64_mul (Fin r) (Fin m) = Fin g" using fl_bound(1) [OF bound] by (simp add: g_def)
  have g: "r \<le> g" using effective_range_ge [OF range(4) r(2), of "Fin m"] mul m(1) by simp
  then have g0: "0 < g" using r0 by linarith
  have "pow2 (- 1022) \<le> \<bar>r * m\<bar>" using r(2) rm(1) order_trans [OF pow2_mono, of "- 1022" "- 52"] by simp
  from round53_error_rel [OF this] have g_err: "\<bar>g - r * m\<bar> \<le> pow2 (- 53) * (r * m)"
    using r0 m(1) by (simp add: g_def)
  define s where "s = round53 (rat_of_nat A / g)"
  have "f64_le (Fin (pow2 (- 52))) (Fin g)" using r(2) g by simp
  from slope_finite [OF _ A64 this] obtain s' where
    "f64_div (Fin (rat_of_nat A)) (Fin g) = Fin s'" "0 \<le> s'" "s' \<le> pow2 116" by auto
  then have slope: "f64_div (Fin (rat_of_nat A)) (Fin g) = Fin s" "0 \<le> s" "s \<le> pow2 116" "is_f64 s"
    using g0 fl_is_f64 by (auto simp: fl_eq_Fin s_def)
  have quot: "pow2 (- 137) \<le> rat_of_nat A / g"
  proof -
    have "pow2 (- 137) * g \<le> pow2 (- 137) * pow2 137"
      using fl_bound(2) [OF bound] by (intro mult_left_mono) (simp_all add: g_def)
    then show ?thesis using A2 g0 by (simp add: pos_le_divide_eq flip: pow2_add)
  qed
  have low: "pow2 (- 900) \<le> s"
    using round53_ge_pow2 [OF quot] order_trans [OF pow2_mono, of "- 900" "- 137"] by (simp add: s_def)
  have "pow2 (- 1022) \<le> \<bar>rat_of_nat A / g\<bar>" using quot order_trans [OF pow2_mono, of "- 1022" "- 137"] A2 g0 by simp
  from round53_error_rel [OF this] have "\<bar>s - rat_of_nat A / g\<bar> \<le> pow2 (- 53) * (rat_of_nat A / g)"
    using A2 g0 by (simp add: s_def)
  from relative_span [OF range(2) g_err this] show thesis
    using that [OF mul slope low] ab(3) r0 g0 m(1) A2 by simp
qed

lemma line_separates:
  assumes a: "is_f64 a" "\<bar>a\<bar> \<le> pow2 128" and b: "is_f64 b" "\<bar>b\<bar> \<le> pow2 128" and ab: "a < b"
    and r: "r = round53 (b - a)" "pow2 (- 52) \<le> r"
    and A: "2 \<le> A" "A \<le> 2 ^ 50" and s: "s = round53 (rat_of_nat A / r)"
  shows "predict_raw (line_through (Fin s) (Fin a)) (Fin a) (A + 1)
    < predict_raw (line_through (Fin s) (Fin a)) (Fin b) (A + 1)"
proof -
  note range = rounded_range [OF a(2) b(2) ab r]
  have r0: "0 < r" using r(2) pow2_pos [of "- 52"] by linarith
  have A2: "2 \<le> rat_of_nat A" using A(1) of_nat_mono [of 2 A, where 'a = rat] by simp
  obtain g s' where gs: "f64_mul (Fin r) (Fin 1) = Fin g" "f64_div (Fin (rat_of_nat A)) (Fin g) = Fin s'"
    "0 \<le> s'" "s' \<le> pow2 116" "is_f64 s'" "pow2 (- 900) \<le> s'"
    "rat_of_nat A / 1 * (1 - pow2 (- 50)) \<le> s' * (b - a)" "s' * (b - a) \<le> rat_of_nat A / 1 * (1 + pow2 (- 50))"
    by (rule slope_of_range [OF a(2) b(2) ab r _ _ A, of 1]) simp_all
  have "g = r" using gs(1) range(4) by (simp add: is_f64_def)
  then have s': "s' = s" using gs(2) r0 by (simp add: s fl_eq_Fin)
  show ?thesis
  proof (cases "neighbours a b")
    case False
    then show ?thesis
      using line_separates_far [OF a b(1) range(1) False A _ _ gs(5,6,4,7,8)] A2 by (simp add: s')
  next
    case True
    then obtain e M where e: "b - a = pow2 e" "a = of_int M * pow2 e" "\<bar>M\<bar> < 2 ^ 53"
      by (auto simp: neighbours_def)
    have "b - a \<le> pow2 129" using a(2) b(2) pow2_Suc [of 128] by simp
    then have e_range: "- 53 \<le> e" "e \<le> 129" using range(1) unfolding e(1) by (simp_all only: pow2_le_iff)
    then have "r = pow2 e" using r(1) e(1) round53_pow2 [of e] by simp
    then have "rat_of_nat A / r = of_int (int A) * pow2 (- e)"
      by (simp add: divide_simps flip: pow2_add mult.assoc)
    moreover have "\<bar>int A\<bar> \<le> 2 ^ 53" using A(2) by simp
    ultimately have s_eq: "s = of_int (int A) * pow2 (- e)"
      using round53_multiple [of _ "int A" "- e"] e_range by (auto simp: s)
    have sa: "s * a = of_int (int A * M)"
      unfolding s_eq e(2) by (simp add: mult.assoc mult.left_commute flip: pow2_add)
    have sD: "s * (b - a) = of_int (int A)"
      unfolding s_eq e(1) by (simp add: mult.assoc flip: pow2_add)
    obtain p where p: "s * a - round53 (s * a) = of_int p" "\<bar>p\<bar> \<le> int A - 1"
      using shift_unit [OF e(3), of A] A(1) unfolding sa by auto
    moreover have "s * b - round53 (s * a) = of_int (p + int A)"
      using p(1) sD by (simp add: algebra_simps)
    ultimately show ?thesis
      unfolding predict_line [OF gs(3,4) a(2), unfolded s'] using slot_less_unit [OF A, of p] by simp
  qed
qed

subsection \<open>Fitting separates the ends\<close>

text \<open>
  The parameters the map fits with: an expansion of at least 1.5 (a rebuilt subtree) or a headroom of
  at least 1 (a root). The upper bounds keep the arrays below \<open>2^50\<close> slots, which no machine holds.
\<close>

definition config_sep :: "config \<Rightarrow> bool" where
  "config_sep cfg \<longleftrightarrow>
     (\<exists>e h. expansion_factor cfg = Fin e \<and> 1 \<le> e \<and> e \<le> 1024 \<and>
        range_headroom cfg = Fin h \<and> 0 \<le> h \<and> h \<le> 255 \<and> (3 / 2 \<le> e \<or> 1 \<le> h))"

definition max_pairs :: nat where
  "max_pairs = 2 ^ 32"

lemma config_sep_ok: "config_sep cfg \<Longrightarrow> config_ok cfg"
  by (auto simp: config_sep_def config_ok_def)

lemma conflicts_of_ends:
  assumes "0 < n"
    and mono: "\<And>i j. i \<le> j \<Longrightarrow> j < n \<Longrightarrow> predict_raw m (ki i) sz \<le> predict_raw m (ki j) sz"
  shows "count_conflicts_fast n ki m sz < n - 1 \<longleftrightarrow>
    predict_raw m (ki 0) sz \<noteq> predict_raw m (ki (n - 1)) sz"
proof -
  let ?p = "\<lambda>i. predict_raw m (ki i) sz"
  have "card {i. 1 \<le> i \<and> i < Suc (n - 1) \<and> ?p i = ?p (i - 1)} = Suc (n - 1) - card (?p ` {0..<Suc (n - 1)})"
    using mono assms(1) by (intro adjacent_equal_count) simp
  then have count: "count_conflicts_fast n ki m sz = n - card (?p ` {0..<n})"
    using assms(1) by (simp add: count_conflicts_fast_eq)
  have sub: "{?p 0, ?p (n - 1)} \<subseteq> ?p ` {0..<n}" using assms(1) by auto
  show ?thesis
  proof (cases "?p 0 = ?p (n - 1)")
    case True
    have const: "?p i = ?p 0" if "i < n" for i
    proof (rule antisym)
      have "?p i \<le> ?p (n - 1)" by (rule mono) (use that in simp_all)
      then show "?p i \<le> ?p 0" by (simp only: True)
      show "?p 0 \<le> ?p i" by (rule mono) (use that in simp_all)
    qed
    have "?p ` {0..<n} = (\<lambda>_. ?p 0) ` {0..<n}" by (intro image_cong refl const) simp
    also have "\<dots> = {?p 0}" using assms(1) by (simp add: image_constant_conv)
    finally have "card (?p ` {0..<n}) = card {?p 0}" by (rule arg_cong)
    then show ?thesis using count True by (simp only: card.empty card.insert) simp
  next
    case False
    then have "2 \<le> card (?p ` {0..<n})" using card_mono [OF _ sub] by simp
    moreover have "card (?p ` {0..<n}) \<le> n" using card_image_le [of "{0..<n}" ?p] by simp
    ultimately show ?thesis using False count by simp
  qed
qed

lemma round53_int: "\<bar>n\<bar> \<le> 2 ^ 53 \<Longrightarrow> round53 (of_int n) = of_int n"
  using fl_of_int [of n] by (simp add: fl_eq_Fin)

lemma round53_double:
  assumes "is_f64 m" "1 \<le> m" shows "round53 (2 * m) = 2 * m"
proof -
  have "pow2 (- 1000) \<le> pow2 0" by (simp only: pow2_le_iff)
  then obtain M where M: "m = of_int M * pow2 (ilog2 \<bar>m\<bar> - 52)" "\<bar>M\<bar> \<le> 2 ^ 53"
    using f64_mantissa [OF assms(1)] assms(2) by auto
  have "0 \<le> ilog2 \<bar>m\<bar>" using assms(2) by (intro ilog2_ge) simp
  moreover have "2 * m = of_int M * pow2 (ilog2 \<bar>m\<bar> - 52 + 1)" using M(1) by (simp only: pow2_Suc)
  ultimately show ?thesis by (intro round53_multiple [OF _ M(2), of _ "ilog2 \<bar>m\<bar> - 52 + 1"]) simp_all
qed

text \<open>The multiplier, and the array with its span: at least one and a half slots.\<close>

lemma headroom_mult:
  assumes "0 \<le> h" "h \<le> 255"
  obtains m where "f64_add (Fin 1) (Fin h) = Fin m" "is_f64 m" "1 \<le> m" "m \<le> 256" "1 \<le> h \<Longrightarrow> 2 \<le> m"
proof -
  have "\<bar>1 + h\<bar> \<le> pow2 8" using assms by (simp add: pow2_def)
  from fl_bound [OF this] have fl: "fl (1 + h) = Fin (round53 (1 + h))" by simp
  have "round53 (of_int 1) \<le> round53 (1 + h)" "round53 (1 + h) \<le> round53 (of_int 256)"
    "1 \<le> h \<Longrightarrow> round53 (of_int 2) \<le> round53 (1 + h)"
    using assms by (auto intro!: round53_mono)
  then show thesis using that [of "round53 (1 + h)"] fl fl_is_f64 [OF fl]
      round53_int [of 1] round53_int [of 256] round53_int [of 2] by simp
qed

lemma fmcd_array_range:
  assumes n: "2 \<le> n" "n \<le> max_pairs" and e: "1 \<le> e" "e \<le> 1024"
    and m: "is_f64 m" "1 \<le> m" "m \<le> 256" "3 / 2 \<le> e \<or> 2 \<le> m"
  shows "3 \<le> fmcd_array n (Fin e) (Fin m)" "fmcd_array n (Fin e) (Fin m) \<le> 2 ^ 50"
    "3 / 2 * m + 1 \<le> rat_of_nat (fmcd_array n (Fin e) (Fin m))"
proof -
  have "int n \<le> 2 ^ 32" using n(2) by (simp add: max_pairs_def)
  then have n_f64: "f64_of_int (int n) = Fin (of_nat n)"
    using fl_of_int [of "int n"] by (simp add: f64_of_int_def)
  have n_rat: "2 \<le> rat_of_nat n" "rat_of_nat n \<le> 2 ^ 32"
    using n of_nat_mono [of 2 n, where 'a = rat] of_nat_mono [of n "2 ^ 32", where 'a = rat]
    by (simp_all add: max_pairs_def)
  define x where "x = round53 (rat_of_nat n * e)"
  have ne: "rat_of_nat n * e \<le> 2 ^ 32 * 1024" "2 * 1 \<le> rat_of_nat n * e"
    using n_rat e by (intro mult_mono; simp)+
  then have "round53 (of_int 2) \<le> x" "x \<le> round53 (of_int (2 ^ 42))"
    unfolding x_def by (auto intro!: round53_mono)
  then have x: "2 \<le> x" "x \<le> 2 ^ 42" using round53_int [of 2] round53_int [of "2 ^ 42"] by simp_all
  have x3: "3 \<le> x" if "3 / 2 \<le> e"
  proof -
    have "2 * (3 / 2) \<le> rat_of_nat n * e" using n_rat that by (intro mult_mono) simp_all
    then have "round53 (of_int 3) \<le> x" unfolding x_def by (intro round53_mono) simp
    then show ?thesis using round53_int [of 3] by simp
  qed
  have "pow2 50 \<le> pow2 1023" by (rule pow2_mono) simp
  then have big: "2 ^ 50 \<le> pow2 1023" by (simp add: pow2_def [of 50])
  have fx: "f64_mul (Fin (of_nat n)) (Fin e) = Fin x"
    using ne big fl_finite [of "rat_of_nat n * e"] by (simp add: x_def)
  define y where "y = round53 (x * m)"
  have "x * m \<le> 2 ^ 42 * 256" using x m by (intro mult_mono) simp_all
  then have xm: "x * m \<le> 2 ^ 50" "0 \<le> x * m" using x m by simp_all
  then have fy: "f64_mul (Fin x) (Fin m) = Fin y" using big fl_finite [of "x * m"] by (simp add: y_def)
  have y50: "y \<le> 2 ^ 50" using round53_mono [OF xm(1)] round53_int [of "2 ^ 50"] by (simp add: y_def)
  have y: "3 / 2 * m + 1 \<le> y"
  proof (cases "2 \<le> m")
    case True
    have "2 * m \<le> x * m" using x(1) m(2) by (intro mult_right_mono) simp_all
    then have "2 * m \<le> y" using round53_mono [of "2 * m" "x * m"] round53_double [OF m(1,2)] by (simp add: y_def)
    then show ?thesis using True by linarith
  next
    case False
    then have "3 * m \<le> x * m" using x3 m by (intro mult_right_mono) auto
    then have y3: "round53 (3 * m) \<le> y" by (simp add: y_def round53_mono)
    have "pow2 (- 1022) \<le> pow2 0" by (simp only: pow2_le_iff)
    then have "\<bar>round53 (3 * m) - 3 * m\<bar> \<le> pow2 (- 53) * \<bar>3 * m\<bar>"
      using m(2) by (intro round53_error_rel) simp
    from abs_le_D2 [OF this] have "3 * m - 1 / 2 ^ 53 * (3 * m) \<le> round53 (3 * m)"
      using m(2) by (simp add: pow2_def)
    then show ?thesis using y3 m(2) by simp
  qed
  have arr: "fmcd_array n (Fin e) (Fin m) = nat (max 0 (min (max \<lceil>y\<rceil> (int n)) (2 ^ 64 - 1)))"
    unfolding fmcd_array_def n_f64 fx fy by (auto simp: f64_max_def max_def)
  have top: "\<lceil>y\<rceil> \<le> 2 ^ 50" using y50 by (simp add: ceiling_le_iff)
  show "fmcd_array n (Fin e) (Fin m) \<le> 2 ^ 50"
    unfolding arr using top \<open>int n \<le> 2 ^ 32\<close> by (simp add: nat_le_iff)
  have "\<lceil>y\<rceil> \<le> int (fmcd_array n (Fin e) (Fin m))"
  proof -
    have "\<lceil>y\<rceil> \<le> min (max \<lceil>y\<rceil> (int n)) (2 ^ 64 - 1)" using top by simp
    then show ?thesis unfolding arr int_nat_eq by (simp only: max.coboundedI2 max.cobounded1 if_True)
  qed
  then have le: "y \<le> rat_of_nat (fmcd_array n (Fin e) (Fin m))" by (simp add: ceiling_le_iff)
  then show "3 / 2 * m + 1 \<le> rat_of_nat (fmcd_array n (Fin e) (Fin m))" using y by linarith
  then have "2 < rat_of_nat (fmcd_array n (Fin e) (Fin m))" using m(2) by linarith
  then show "3 \<le> fmcd_array n (Fin e) (Fin m)" using of_nat_less_iff [where 'a = rat, of 2] by simp
qed

lemma model_raw_mono:
  assumes "model_ok m" "midpoint m = None" "inputs_ok n ki" "i \<le> j" "j < n"
  shows "predict_raw m (ki i) sz \<le> predict_raw m (ki j) sz"
proof -
  obtain s c where "slope m = Fin s" "0 \<le> s" "intercept m = Fin c"
    using assms(1,2) by (auto simp: model_ok_def)
  moreover have "ki i = Fin (f64_val (ki i))" "ki j = Fin (f64_val (ki j))"
    "f64_val (ki i) \<le> f64_val (ki j)"
    using inputs_okD [OF assms(3)] assms(3-5) by (auto simp: inputs_ok_def)
  ultimately show ?thesis using predict_raw_mono by metis
qed

subsection \<open>Neighbouring inputs\<close>

text \<open>Between neighbours there is no other value, so all inputs of a group are one or the other.\<close>

lemma no_f64_between:
  assumes "is_f64 z" "a = of_int M * pow2 e" "2 ^ 52 < \<bar>M\<bar>" "a \<le> z" "z \<le> a + pow2 e" "- 1000 \<le> e"
  shows "z = a \<or> z = a + pow2 e"
proof -
  have "of_int (2 ^ 52) * pow2 e \<le> \<bar>z\<bar>"
  proof (cases "0 \<le> M")
    case True
    have "of_int (2 ^ 52) * pow2 e \<le> of_int M * pow2 e"
      using assms(3) True by (intro mult_right_mono) (simp_all only: of_int_le_iff abs_of_nonneg less_imp_le pow2_nonneg)
    then show ?thesis using assms(2,4) by linarith
  next
    case False
    then have "M + 1 \<le> - (2 ^ 52)" using assms(3) by linarith
    then have "of_int (M + 1) * pow2 e \<le> of_int (- (2 ^ 52)) * pow2 e"
      by (intro mult_right_mono) (simp_all only: of_int_le_iff pow2_nonneg)
    then have "z \<le> - (of_int (2 ^ 52) * pow2 e)" using assms(2,5) by (simp add: algebra_simps)
    then show ?thesis by linarith
  qed
  then have big: "pow2 (52 + e) \<le> \<bar>z\<bar>" by (simp add: pow2_add pow2_def [of 52])
  then have log: "52 + e \<le> ilog2 \<bar>z\<bar>" by (rule ilog2_ge)
  have "pow2 (- 1000) \<le> \<bar>z\<bar>" using big pow2_mono [of "- 1000" "52 + e"] assms(6) by linarith
  then obtain K where "z = of_int K * pow2 (ilog2 \<bar>z\<bar> - 52)" using f64_mantissa [OF assms(1)] by blast
  then obtain N where N: "z = of_int N * pow2 e"
    using pow2_on_grid [of e "ilog2 \<bar>z\<bar> - 52"] log
    by (intro that [of "K * 2 ^ nat (ilog2 \<bar>z\<bar> - 52 - e)"]) simp
  have "of_int M * pow2 e \<le> of_int N * pow2 e" "of_int N * pow2 e \<le> of_int (M + 1) * pow2 e"
    using assms(2,4,5) N by (simp_all add: algebra_simps)
  then have "M \<le> N" "N \<le> M + 1" by (simp_all only: mult_le_cancel_right_pos pow2_pos of_int_le_iff)
  then have "N = M \<or> N = M + 1" by linarith
  then show ?thesis using N assms(2) by (auto simp: algebra_simps)
qed

text \<open>The largest gap is then the whole range.\<close>

lemma max_gap_two:
  assumes inputs: "inputs_ok n ki" and two: "\<And>i. i < n \<Longrightarrow> f64_val (ki i) = a \<or> f64_val (ki i) = b"
    and ends: "f64_val (ki 0) = a" "f64_val (ki (n - 1)) = b" "a < b" "fl (b - a) = Fin g" "0 < g"
  shows "max_key_gap n ki = Fin g"
proof -
  have sub: "f64_sub (ki (i + 1)) (ki i) = Fin (if f64_val (ki i) = f64_val (ki (i + 1)) then 0 else g)"
    if "i + 1 < n" for i
  proof -
    have v: "ki (i + 1) = Fin (f64_val (ki (i + 1)))" "ki i = Fin (f64_val (ki i))"
      "f64_val (ki i) \<le> f64_val (ki (i + 1))"
      using inputs_okD [OF inputs] inputs that by (auto simp: inputs_ok_def)
    show ?thesis
    proof (cases "f64_val (ki i) = f64_val (ki (i + 1))")
      case False
      then have "f64_val (ki i) = a" "f64_val (ki (i + 1)) = b" using two [of i] two [of "i + 1"] v(3) ends(3) that by auto
      then show ?thesis unfolding f64_sub_def using ends(3,4) by (subst v(1), subst v(2)) simp
    qed (unfold f64_sub_def, subst v(1), subst v(2), simp)
  qed
  have "foldl (\<lambda>x i. f64_max x (f64_sub (ki (i + 1)) (ki i))) (Fin 0) [0..<k] =
      Fin (if f64_val (ki k) = a then 0 else g)" if "k < n" for k
    using that
  proof (induction k)
    case (Suc k)
    have "f64_val (ki k) \<le> f64_val (ki (Suc k))" using inputs Suc.prems by (auto simp: inputs_ok_def)
    then show ?case
      using Suc sub [of k] two [of k] two [of "Suc k"] ends(3,5) by (auto simp: f64_max_def)
  qed (simp add: ends(1))
  moreover have "0 < n" using ends(1-3) by (cases n) auto
  ultimately show ?thesis using ends(2,3) by (simp add: max_key_gap_def)
qed

text \<open>The first candidate line then puts one of them into slot 0 and the other into slot 1.\<close>

lemma candidates_neighbours:
  assumes inputs: "inputs_ok n ki" and n: "2 \<le> n"
    and ab: "ki 0 = Fin a" "ki (n - 1) = Fin b" "b - a = pow2 e" "a = of_int M * pow2 e" "\<bar>M\<bar> < 2 ^ 53"
    and e: "0 \<le> e" "e \<le> 129" and A: "2 \<le> A" "A \<le> 2 ^ 50"
    and best: "counted n ki (A + 1) best"
  shows "snd (fmcd_candidates n ki (A + 1) (Fin (pow2 e)) (Fin (rat_of_nat A / pow2 e))
    [1..<max_fmcd_candidates + 1] best) < n - 1"
proof -
  have a128: "\<bar>a\<bar> \<le> pow2 128" using inputs_okD [OF inputs, of 0] n ab(1) by simp
  have s: "f64_div (f64_of_int (int 1)) (Fin (pow2 e)) = Fin (pow2 (- e))"
  proof -
    have "f64_of_int (int 1) = Fin 1" by (simp add: f64_of_int_def)
    moreover have "fl (pow2 (- e)) = Fin (pow2 (- e))"
      using is_f64_multiple [of "pow2 (- e)" 1 "- e"] e by (simp add: is_f64_def)
    moreover have "1 / pow2 e = pow2 (- e)" using pow2_diff [of 0 e] by simp
    ultimately show ?thesis by simp
  qed
  let ?line = "line_through (Fin (pow2 (- e))) (ki 0)"
  let ?c = "count_conflicts_fast n ki ?line (A + 1)"
  have "pow2 (- e) \<le> pow2 116" using e by (simp only: pow2_le_iff)
  then have line: "counted n ki (A + 1) (?line, ?c)" using counted_line [OF inputs] n by simp
  have "pow2 (- e) * pow2 e = 1" by (simp flip: pow2_add)
  then have sa: "pow2 (- e) * a = of_int M" and sb: "pow2 (- e) * b = of_int (M + 1)"
    using ab(3,4) by (simp_all add: algebra_simps)
  have "round53 (of_int M) = of_int M" using ab(5) by (intro round53_int) simp
  then have slot: "predict_raw ?line (Fin v) (A + 1) =
      min (f64_to_usize (f64_max (f64_round (fl (pow2 (- e) * v - of_int M))) (Fin 0))) A" for v
    unfolding ab(1) using predict_line [OF _ \<open>pow2 (- e) \<le> pow2 116\<close> a128, of v A] sa by simp
  have "predict_raw ?line (ki 0) (A + 1) = 0"
    unfolding slot [of a, folded ab(1)] sa using round_half_away_of_int [of 0] by (simp add: f64_max_def)
  moreover have "predict_raw ?line (ki (n - 1)) (A + 1) = 1"
    unfolding slot [of b, folded ab(2)] sb using A(1) round_half_away_of_int [of 1] by (simp add: f64_max_def)
  moreover have "predict_raw ?line (ki i) (A + 1) \<le> predict_raw ?line (ki j) (A + 1)" if "i \<le> j" "j < n" for i j
    using model_raw_mono [OF _ _ inputs that] line by (simp add: counted_def)
  ultimately have c: "?c < n - 1" using conflicts_of_ends [of n ?line ki "A + 1"] n by simp
  have "1 \<le> rat_of_nat A" using A(1) of_nat_mono [of 1 A, where 'a = rat] by simp
  then have "pow2 (- e) \<le> rat_of_nat A / pow2 e" using pow2_diff [of 0 e] by (simp add: divide_right_mono)
  then have below: "\<not> f64_lt (Fin (rat_of_nat A / pow2 e)) (Fin (pow2 (- e)))" by simp
  obtain bm bc where b: "best = (bm, bc)" by fastforce
  let ?best = "if ?c < bc then (?line, ?c) else (bm, bc)"
  let ?rest = "[2..<max_fmcd_candidates + 1]"
  have best': "counted n ki (A + 1) ?best" "snd ?best < n - 1" using line best b c by auto
  have gap: "f64_lt f64_epsilon (Fin (pow2 e))"
    using e(1) pow2_less_iff [of "- 52" e] by (simp add: f64_epsilon_def)
  have "[1..<max_fmcd_candidates + 1] = 1 # ?rest"
    by (simp add: upt_conv_Cons max_fmcd_candidates_def numeral_2_eq_2 del: upt_rec_numeral)
  moreover have "snd (fmcd_candidates n ki (A + 1) (Fin (pow2 e)) ms ?rest ?best) < n - 1" for ms
    using fmcd_candidates_counted [OF inputs _ gap _ best'(1), of ?rest ms] n best'(2)
    by (simp add: max_fmcd_candidates_def del: upt_rec_numeral)
  moreover have "fmcd_candidates n ki (A + 1) (Fin (pow2 e)) (Fin (rat_of_nat A / pow2 e)) (1 # ?rest) best =
      (if snd ?best = 0 then ?best
       else fmcd_candidates n ki (A + 1) (Fin (pow2 e)) (Fin (rat_of_nat A / pow2 e)) ?rest ?best)"
    by (simp only: b fmcd_candidates.simps Let_def s below if_False)
  ultimately show ?thesis using best'(2) by (simp only: split: if_split) simp
qed

lemma neighbours_candidates:
  assumes inputs: "inputs_ok n ki" and ints: "\<And>i. i < n \<Longrightarrow> \<exists>z. f64_val (ki i) = of_int z"
    and f64: "\<And>i. i < n \<Longrightarrow> is_f64 (f64_val (ki i))" and n: "2 \<le> n"
    and ki: "ki 0 = Fin a" "ki (n - 1) = Fin b" "a < b" "neighbours a b" "r = round53 (b - a)"
    and A: "2 \<le> A" "A \<le> 2 ^ 50" and best: "counted n ki (A + 1) best"
  shows "f64_lt f64_epsilon (max_key_gap n ki)"
    "snd (fmcd_candidates n ki (A + 1) (max_key_gap n ki) (f64_div (Fin (rat_of_nat A)) (Fin r))
      [1..<max_fmcd_candidates + 1] best) < n - 1"
proof -
  obtain k M where k: "b - a = pow2 k" "a = of_int M * pow2 k" "\<bar>M\<bar> < 2 ^ 53" "2 ^ 52 < \<bar>M\<bar>"
    using ki(4) by (auto simp: neighbours_def)
  have ab: "\<bar>a\<bar> \<le> pow2 128" "\<bar>b\<bar> \<le> pow2 128"
    using inputs_okD [OF inputs, of 0] inputs_okD [OF inputs, of "n - 1"] n ki(1,2) by simp_all
  obtain y z where "a = of_int y" "b = of_int z" using ints [of 0] ints [of "n - 1"] n ki(1,2) by auto
  then have "(1 :: rat) \<le> b - a" using ki(3) by (simp flip: of_int_diff)
  then have "pow2 0 \<le> pow2 k" using k(1) by simp
  moreover have "pow2 k \<le> pow2 129" using ab pow2_Suc [of 128] unfolding k(1) [symmetric] by simp
  ultimately have k_range: "0 \<le> k" "k \<le> 129" by (simp_all only: pow2_le_iff)
  have ends: "f64_val (ki 0) = a" "f64_val (ki (n - 1)) = b" by (simp_all only: ki(1,2) f64_val.simps)
  have two: "f64_val (ki i) = a \<or> f64_val (ki i) = b" if "i < n" for i
  proof -
    have "a \<le> f64_val (ki i)" "f64_val (ki i) \<le> b" 
      using inputs that unfolding ends [symmetric] by (auto simp: inputs_ok_def)
    moreover have "b = a + pow2 k" using k(1) by (simp add: algebra_simps)
    ultimately show ?thesis using no_f64_between [OF f64 [OF that] k(2,4)] k_range by auto
  qed
  have rk: "r = pow2 k" using k(1) k_range round53_pow2 [of k] by (simp add: ki(5))
  have "fl (b - a) = Fin (pow2 k)"
    using is_f64_multiple [of "pow2 k" 1 k] k_range k(1) by (simp add: is_f64_def)
  from max_gap_two [OF inputs two ends ki(3) this] have gap: "max_key_gap n ki = Fin (pow2 k)"
    by simp
  have q: "rat_of_nat A / pow2 k = of_int (int A) * pow2 (- k)" using pow2_diff [of 0 k] by simp
  then have "is_f64 (rat_of_nat A / pow2 k)" using A(2) k_range by (intro is_f64_multiple [OF q]) simp_all
  then have div: "f64_div (Fin (rat_of_nat A)) (Fin r) = Fin (rat_of_nat A / pow2 k)" by (simp add: rk is_f64_def)
  show "f64_lt f64_epsilon (max_key_gap n ki)"
    using k_range pow2_less_iff [of "- 52" k] gap by (simp add: f64_epsilon_def)
  show "snd (fmcd_candidates n ki (A + 1) (max_key_gap n ki) (f64_div (Fin (rat_of_nat A)) (Fin r))
      [1..<max_fmcd_candidates + 1] best) < n - 1"
    unfolding gap div by (rule candidates_neighbours [OF inputs n ki(1,2) k(1-3) k_range A best])
qed

text \<open>Fitting, once the linear candidate is known.\<close>

lemma fit_fmcd_line:
  assumes "2 \<le> n" "f64_le (Fin 1) e" "f64_add (Fin 1) h = m" "sz = fmcd_array n e m"
    and "f64_sub (ki (n - 1)) (ki 0) = r" "\<not> f64_lt (f64_abs r) f64_epsilon"
    and "f64_div (f64_of_int (int (sz - 1))) (f64_mul r m) = s"
    and "line = line_through s (ki 0)" "c = count_conflicts_fast n ki line sz"
  shows "fit_fmcd n ki e h =
      (if c = 0 then Inr \<lparr>fmcd_model = line, fmcd_array_size = sz, fmcd_conflicts = 0\<rparr>
       else let best = (if f64_lt f64_epsilon (max_key_gap n ki)
           then fmcd_candidates n ki sz (max_key_gap n ki) (f64_div (f64_of_int (int (sz - 1))) r)
             [1..<max_fmcd_candidates + 1] (line, c)
           else (line, c))
         in Inr \<lparr>fmcd_model = fst best, fmcd_array_size = sz, fmcd_conflicts = snd best\<rparr>)"
proof -
  have "n \<noteq> 0" "n \<noteq> 1" using assms(1) by simp_all
  then show ?thesis
    unfolding fit_fmcd_def Let_def assms(3,5) assms(4) [symmetric] assms(7) assms(8) [symmetric] assms(9) [symmetric]
    using assms(2,6) by (simp only: if_True if_False not_True_eq_False not_False_eq_True)
qed

text \<open>The array never has all keys of a group in one slot.\<close>

lemma fit_fmcd_separates:
  assumes inputs: "inputs_ok n ki" and ints: "\<And>i. i < n \<Longrightarrow> \<exists>z. f64_val (ki i) = of_int z"
    and f64: "\<And>i. i < n \<Longrightarrow> is_f64 (f64_val (ki i))"
    and n: "2 \<le> n" "n \<le> max_pairs" and cfg: "config_sep cfg"
    and far: "\<not> f64_lt (f64_abs (f64_sub (ki (n - 1)) (ki 0))) f64_epsilon"
  shows "\<exists>r. fit_fmcd n ki (expansion_factor cfg) (range_headroom cfg) = Inr r \<and>
    fmcd_conflicts r < n - 1"
proof -
  obtain e h where cfg': "expansion_factor cfg = Fin e" "range_headroom cfg = Fin h"
    "1 \<le> e" "e \<le> 1024" "0 \<le> h" "h \<le> 255" "3 / 2 \<le> e \<or> 1 \<le> h"
    using cfg by (auto simp: config_sep_def)
  obtain m where hm: "f64_add (Fin 1) (Fin h) = Fin m" "is_f64 m" "1 \<le> m" "m \<le> 256" "1 \<le> h \<Longrightarrow> 2 \<le> m"
    using headroom_mult [OF cfg'(5,6)] by blast
  define A where "A = fmcd_array n (Fin e) (Fin m) - 1"
  have sz: "3 \<le> A + 1" "A + 1 \<le> 2 ^ 50" "3 / 2 * m + 1 \<le> rat_of_nat (A + 1)" "fmcd_array n (Fin e) (Fin m) = A + 1"
    using fmcd_array_range [OF n cfg'(3,4) hm(2-4)] cfg'(7) hm(5) by (auto simp: A_def)
  then have A: "2 \<le> A" "A \<le> 2 ^ 50" by simp_all
  have B: "3 / 2 \<le> rat_of_nat A / m" "rat_of_nat A / m \<le> rat_of_nat A"
    using sz(3) hm(3) by (simp_all add: pos_le_divide_eq pos_divide_le_eq mult_le_cancel_left1)
  have "\<bar>int A\<bar> \<le> 2 ^ 53" using A(2) by simp
  then have A_f64: "f64_of_int (int (A + 1 - 1)) = Fin (rat_of_nat A)"
    using fl_of_int [of "int A"] by (simp add: f64_of_int_def)
  define a b where "a = f64_val (ki 0)" and "b = f64_val (ki (n - 1))"
  have ki: "ki 0 = Fin a" "ki (n - 1) = Fin b" and ab: "a \<le> b" "\<bar>a\<bar> \<le> pow2 128" "\<bar>b\<bar> \<le> pow2 128"
    and ab_f64: "is_f64 a" "is_f64 b"
    using inputs_okD [OF inputs] inputs f64 n by (auto simp: a_def b_def inputs_ok_def)
  define r where "r = round53 (b - a)"
  have sub: "f64_sub (ki (n - 1)) (ki 0) = Fin r"
    using f64_sub_inputs [OF inputs, of 0 "n - 1"] n by (simp add: r_def a_def b_def)
  have "0 \<le> r" using ab(1) round53_nonneg by (simp add: r_def)
  then have r: "pow2 (- 52) \<le> r" using far sub by (simp add: f64_epsilon_def)
  then have "r \<noteq> 0" using pow2_pos [of "- 52"] by linarith
  then have less: "a < b" using ab(1) by (cases "a = b") (auto simp: r_def)
  obtain g s where gs: "f64_mul (Fin r) (Fin m) = Fin g" "f64_div (Fin (rat_of_nat A)) (Fin g) = Fin s"
    "0 \<le> s" "s \<le> pow2 116" "is_f64 s" "pow2 (- 900) \<le> s"
    "rat_of_nat A / m * (1 - pow2 (- 50)) \<le> s * (b - a)" "s * (b - a) \<le> rat_of_nat A / m * (1 + pow2 (- 50))"
    by (rule slope_of_range [OF ab(2,3) less r_def r hm(3,4) A])
  define line where "line = line_through (Fin s) (ki 0)"
  define c where "c = count_conflicts_fast n ki line (A + 1)"
  let ?gap = "max_key_gap n ki" and ?ms = "f64_div (Fin (rat_of_nat A)) (Fin r)"
  let ?best = "fmcd_candidates n ki (A + 1) ?gap ?ms [1..<max_fmcd_candidates + 1] (line, c)"
  have lin: "counted n ki (A + 1) (line, c)"
    using counted_line [OF inputs _ gs(4,3)] n by (simp add: line_def c_def)
  have "c < n - 1" if "\<not> neighbours a b"
  proof -
    have "predict_raw line (ki i) (A + 1) \<le> predict_raw line (ki j) (A + 1)" if "i \<le> j" "j < n" for i j
      using model_raw_mono [OF _ _ inputs that] lin by (simp add: counted_def)
    moreover have "predict_raw line (ki 0) (A + 1) < predict_raw line (ki (n - 1)) (A + 1)"
      unfolding ki line_def using rounded_range(1) [OF ab(2,3) less r_def r] that
      by (intro line_separates_far [OF ab_f64(1) ab(2) ab_f64(2) _ _ A B gs(5,6,4,7,8)])
    ultimately show ?thesis using conflicts_of_ends [of n line ki "A + 1"] n by (simp add: c_def)
  qed
  moreover have "f64_lt f64_epsilon ?gap" "snd ?best < n - 1" if "neighbours a b"
    using neighbours_candidates [OF inputs ints f64 n(1) ki less that r_def A lin] by simp_all
  moreover have "snd ?best \<le> c" if "f64_lt f64_epsilon ?gap"
    using fmcd_candidates_counted [OF inputs _ that _ lin, of "[1..<max_fmcd_candidates + 1]" ?ms] n
    by (simp add: max_fmcd_candidates_def del: upt_rec_numeral f64_div.simps)
  ultimately have fewer: "c < n - 1 \<or> f64_lt f64_epsilon ?gap" "f64_lt f64_epsilon ?gap \<Longrightarrow> snd ?best < n - 1"
    by (cases "neighbours a b"; simp del: f64_div.simps; linarith)+
  have "f64_div (f64_of_int (int (A + 1 - 1))) (f64_mul (Fin r) (Fin m)) = Fin s"
    unfolding A_f64 gs(1) by (rule gs(2))
  moreover have "f64_le (Fin 1) (Fin e)" using cfg'(3) by simp
  ultimately have "fit_fmcd n ki (Fin e) (Fin h) =
      (if c = 0 then Inr \<lparr>fmcd_model = line, fmcd_array_size = A + 1, fmcd_conflicts = 0\<rparr>
       else let best = (if f64_lt f64_epsilon ?gap then ?best else (line, c))
         in Inr \<lparr>fmcd_model = fst best, fmcd_array_size = A + 1, fmcd_conflicts = snd best\<rparr>)"
    using fit_fmcd_line [OF n(1) _ hm(1) sz(4) [symmetric] sub _ _ line_def c_def] far
    unfolding sub A_f64 by blast
  then show ?thesis using fewer n cfg'(1,2) by (auto simp: Let_def simp del: f64_div.simps upt_rec_numeral)
qed

end
