(* ===== verification/Total.thy ===== *)
theory Total
  imports Remove Separation
begin

text \<open>
  The operations return. A conflict within a fitted node never holds all keys of the node, so
  the recursion of construction ends; a conflict node separates its two keys, so it never needs
  the recursive insertion the code provides for. Both rest on the theory of separation.
\<close>

definition config_total :: "config \<Rightarrow> bool" where
  "config_total cfg \<longleftrightarrow>
     (\<exists>e h. expansion_factor cfg = Fin e \<and> 1 \<le> e \<and> e \<le> 1024 \<and>
        range_headroom cfg = Fin h \<and> 0 \<le> h \<and> h \<le> 255)"

lemma config_total_default: "config_total config_default"
  by (simp add: config_total_def config_default_def)

lemma config_total_ok: "config_total cfg \<Longrightarrow> config_ok cfg"
  by (auto simp: config_total_def config_ok_def)

text \<open>The two configurations construction runs with: a headroom raised to 1, or a boosted expansion.\<close>

lemma config_total_headroom: "config_total cfg \<Longrightarrow> config_sep (cfg\<lparr>range_headroom := Fin 1\<rparr>)"
  by (auto simp: config_total_def config_sep_def)

lemma config_total_headroom_max:
  "config_total cfg \<Longrightarrow> config_sep (cfg\<lparr>range_headroom := f64_max (range_headroom cfg) (Fin 1)\<rparr>)"
  by (auto simp: config_total_def config_sep_def f64_max_def)

lemma config_total_boosted: "config_total cfg \<Longrightarrow> config_sep (boosted_config cfg)"
proof -
  assume "config_total cfg"
  then obtain e h where e: "expansion_factor cfg = Fin e" "1 \<le> e" "e \<le> 1024"
    "range_headroom cfg = Fin h" "0 \<le> h" "h \<le> 255"
    by (auto simp: config_total_def)
  have "f64_le (fl (3 / 2)) (fl (e * (3 / 2)))" using e(2) by (intro fl_mono) simp
  moreover have "fl (3 / 2) = Fin (3 / 2)"
    using is_f64_multiple [of "3 / 2" 3 "- 1"] by (simp add: is_f64_def)
  ultimately have "\<exists>b. boosted_factor cfg = Fin b \<and> 3 / 2 \<le> b \<and> b \<le> 4"
    using e(1) by (cases "fl (e * (3 / 2))") (auto simp: boosted_factor_def f64_min_def)
  then show ?thesis using e(4-6) by (auto simp: boosted_config_def config_sep_def)
qed

text \<open>The boost is capped at 4, also when the configured factor is already larger.\<close>

lemma boosted_factor_capped:
  assumes "expansion_factor cfg = Fin e" "4 \<le> e"
  shows "boosted_factor cfg = Fin 4"
proof -
  have "f64_le (fl 4) (fl (e * (3 / 2)))" using assms(2) by (intro fl_mono) simp
  then show ?thesis using assms(1) fl_numeral [of "num.Bit0 (num.Bit0 num.One)"]
    by (cases "fl (e * (3 / 2))") (auto simp: boosted_factor_def f64_min_def)
qed

subsection \<open>Construction\<close>

context key_contract
begin

lemma fit_pairs_separates:
  assumes "sorted_keys ps" "2 \<le> length ps" "length ps \<le> max_pairs" "config_sep cfg" "\<not> is_degenerate_group K ps"
  shows "\<exists>r. fit_fmcd (length ps) (\<lambda>i. to_model_input K (fst (ps ! i))) (expansion_factor cfg)
      (range_headroom cfg) = Inr r \<and> fmcd_conflicts r < length ps - 1"
proof (rule fit_fmcd_separates [OF pairs_inputs_ok [OF assms(1)] _ _ assms(2-4)])
  show "\<exists>z. f64_val (to_model_input K (fst (ps ! i))) = of_int z"
    "is_f64 (f64_val (to_model_input K (fst (ps ! i))))" for i
    using input_integer [of "fst (ps ! i)"] by auto
  show "\<not> f64_lt (f64_abs (f64_sub (to_model_input K (fst (ps ! (length ps - 1))))
      (to_model_input K (fst (ps ! 0))))) f64_epsilon"
    using assms(2,5) by (simp add: is_degenerate_group_def)
qed

end

lemma build_recursive_total:
  assumes "key_contract K" "config_sep cfg"
  shows "sorted_keys ps \<Longrightarrow> ps \<noteq> [] \<Longrightarrow> length ps \<le> max_pairs \<Longrightarrow>
    \<exists>n. build_recursive K cfg ps = Some n"
proof (induction ps rule: measure_induct_rule [where f = length])
  case (less ps)
  let ?ki = "\<lambda>i. to_model_input K (fst (ps ! i))"
  show ?case
  proof (cases "1 < length ps \<and> is_degenerate_group K ps")
    case True
    then show ?thesis by (simp add: build_recursive.simps [of K cfg ps] Let_def)
  next
    case far: False
    have "max_pairs \<le> usize_max" by (simp add: max_pairs_def usize_max_def)
    then have len: "length ps \<le> usize_max" using less.prems(3) by linarith
    obtain r where fit: "fit_fmcd (length ps) ?ki (expansion_factor cfg) (range_headroom cfg) = Inr r"
      and r: "1 \<le> fmcd_array_size r" "model_ok (fmcd_model r)" "midpoint (fmcd_model r) = None"
      "fmcd_conflicts r = count_conflicts_fast (length ps) ?ki (fmcd_model r) (fmcd_array_size r)"
      by (rule key_contract.fit_pairs [OF assms(1) less.prems(1,2) len config_sep_ok [OF assms(2)]])
    show ?thesis
    proof (cases "fmcd_conflicts r = 0")
      case True
      then have "build_recursive K cfg ps = Some (fold (store_pair K) ps
          (with_capacity_leaf (fmcd_model r) (fmcd_array_size r)))"
        unfolding build_recursive.simps [of K cfg ps] Let_def fit sum.case
        using far by (simp only: if_True if_False refl)
      then show ?thesis by blast
    next
      case False
      let ?n = "length ps"
      have inputs: "inputs_ok ?n ?ki" by (rule key_contract.pairs_inputs_ok [OF assms(1) less.prems(1)])
      have n2: "2 \<le> ?n"
      proof (rule ccontr)
        assume "\<not> 2 \<le> ?n"
        moreover have "0 < ?n" using less.prems(2) by simp
        ultimately have "?n = 1" by linarith
        then show False using False r(4) by (simp add: count_conflicts_fast_def)
      qed
      have "fmcd_conflicts r < ?n - 1"
        using key_contract.fit_pairs_separates [OF assms(1) less.prems(1) n2 less.prems(3) assms(2)] far n2 fit
        by fastforce
      then have ends: "predict_raw (fmcd_model r) (?ki 0) (fmcd_array_size r)
          \<noteq> predict_raw (fmcd_model r) (?ki (?n - 1)) (fmcd_array_size r)"
        using conflicts_of_ends [of ?n "fmcd_model r" ?ki "fmcd_array_size r"] model_raw_mono [OF r(2,3) inputs]
          n2 r(4) less.prems(2) by simp
      define n0 :: "('a, 'b) node" where "n0 = with_capacity (fmcd_model r) (fmcd_array_size r)"
      have ends': "predict_slot K n0 (fst (ps ! 0)) \<noteq> predict_slot K n0 (fst (ps ! (?n - 1)))"
        using ends by (simp add: n0_def predict_slot_def predict_eq_raw [OF r(3)])
      have shorter: "length (map (\<lambda>idx. ps ! idx) run) < ?n"
        "sorted_keys (map (\<lambda>idx. ps ! idx) run)" "map (\<lambda>idx. ps ! idx) run \<noteq> []"
        if "(s, run) \<in> set (slot_runs (slot_assignments K n0 ps))" for s run
      proof -
        note run = slot_runs_assignments [OF that]
        show "map (\<lambda>idx. ps ! idx) run \<noteq> []" using run(1) by simp
        show "sorted_keys (map (\<lambda>idx. ps ! idx) run)"
          unfolding run(2) using less.prems(1) by (rule sorted_keys_filter)
        have "ps ! 0 \<in> set ps" "ps ! (?n - 1) \<in> set ps" using n2 less.prems(2) by simp_all
        then have "\<exists>p\<in>set ps. predict_slot K n0 (fst p) \<noteq> s"
          using ends' by metis
        then show "length (map (\<lambda>idx. ps ! idx) run) < ?n"
          unfolding run(2) by (auto intro: length_filter_less)
      qed
      have child: "\<exists>c. build_recursive K cfg (map (\<lambda>idx. ps ! idx) run) = Some c"
        if "(s, run) \<in> set (slot_runs (slot_assignments K n0 ps))" for s run
        using less.IH [OF shorter [OF that]] shorter(1) [OF that] less.prems(3) by simp
      have "\<exists>n. fold_returns
          (\<lambda>(slot_idx, run) node.
             if length run = 1 then
               let p = ps ! (run ! 0)
               in Some (inc_keys (store_data slot_idx (fst p) (snd p) node))
             else
               let child_pairs = map (\<lambda>idx. ps ! idx) run
               in Option.bind
                    (if is_degenerate_group K child_pairs
                     then Some (build_degenerate K child_pairs)
                     else build_recursive K cfg child_pairs)
                    (\<lambda>child. Some (store_child slot_idx child node)))
          (slot_runs (slot_assignments K n0 ps)) n0 = Some n"
      proof (rule fold_returns_total)
        fix x and node :: "('a, 'b) node"
        assume "x \<in> set (slot_runs (slot_assignments K n0 ps))"
        moreover obtain s run where "x = (s, run)" by fastforce
        ultimately obtain c where "x = (s, run)" "build_recursive K cfg (map (\<lambda>idx. ps ! idx) run) = Some c"
          using child by blast
        then show "\<exists>t. (case x of (slot_idx, run) \<Rightarrow> \<lambda>node.
             if length run = 1 then
               let p = ps ! (run ! 0)
               in Some (inc_keys (store_data slot_idx (fst p) (snd p) node))
             else
               let child_pairs = map (\<lambda>idx. ps ! idx) run
               in Option.bind
                    (if is_degenerate_group K child_pairs
                     then Some (build_degenerate K child_pairs)
                     else build_recursive K cfg child_pairs)
                    (\<lambda>child. Some (store_child slot_idx child node))) node = Some t"
          by (simp add: Let_def)
      qed
      then show ?thesis
        unfolding build_recursive.simps [of K cfg ps] Let_def fit sum.case n0_def
        using far False by (simp only: if_False)
    qed
  qed
qed

lemma bulk_load_total:
  assumes "key_contract K" "config_sep cfg" "length ps \<le> max_pairs"
  shows "\<exists>res. bulk_load K cfg ps = Some res"
proof (cases "ps = [] \<or> (\<exists>i<length ps - 1. fst (ps ! (i + 1)) \<le> fst (ps ! i))")
  case True
  then show ?thesis by (auto simp: bulk_load_def)
next
  case False
  then have "sorted_keys ps"
    by (intro sorted_wrt_iff_nth_Suc_transp [THEN iffD2])
      (auto simp: transp_on_def not_le less_diff_conv)
  then show ?thesis using build_recursive_total [OF assms(1,2)] assms(3) False
    by (fastforce simp: bulk_load_def)
qed

subsection \<open>Rebuilds\<close>

lemma try_rebuild_total:
  assumes "key_contract K" "config_total cfg" "wf_node K n" "length (entries n) \<le> max_pairs"
  shows "\<exists>n' b. try_rebuild_subtree K cfg n i = Some (n', b)"
proof (cases "load_child n i")
  case None
  then show ?thesis by (intro exI [of _ n] exI [of _ False]) (simp add: try_rebuild_subtree_def)
next
  case (Some c)
  have wf: "wf_node K c" using assms(3) Some by (rule load_child_wf)
  have "length (entries c) \<le> length (entries n)"
    using entries_split [OF load_child_Some(1) [OF Some]] load_child_Some(3) [OF Some]
    by (cases "slots n ! i") auto
  then have "\<exists>c'. build_recursive K (boosted_config cfg) (entries c) = Some c'" if "entries c \<noteq> []"
    using build_recursive_total [OF assms(1) config_total_boosted [OF assms(2)]
        key_contract.entries_sorted [OF assms(1) wf] that] assms(4) by simp
  then show ?thesis
    by (cases "entries c") (auto simp: try_rebuild_subtree_def Some Let_def iter_collect_entries(3) [OF wf])
qed

subsection \<open>Conflict nodes\<close>

text \<open>The two keys of a conflict node have different slots.\<close>

lemma conflict_frame_separates:
  assumes "key_contract K" "lo < hi"
  shows "predict_slot K (conflict_frame K lo hi :: ('k::linorder, 'v) node) lo
    < predict_slot K (conflict_frame K lo hi :: ('k, 'v) node) hi"
proof (cases "f64_lt (f64_abs (f64_sub (to_model_input K hi) (to_model_input K lo))) f64_epsilon")
  case True
  have le: "to_exact_ordinal K lo \<le> to_exact_ordinal K hi"
    using key_contract.ordinal_mono [OF assms(1)] assms(2) by simp
  have near: "to_exact_ordinal K hi - to_exact_ordinal K lo < 2 ^ 127"
    using key_contract.ordinal_near [OF assms(1) _ True] assms(2) by simp
  show ?thesis
  proof (cases "to_exact_ordinal K lo = to_exact_ordinal K hi")
    case True
    then show ?thesis using \<open>f64_lt _ _\<close> assms(2)
      by (simp add: conflict_frame_def Let_def predict_slot_def saturating_sub_def)
  next
    case False
    then have "to_exact_ordinal K lo < to_exact_ordinal K hi" using le by simp
    then have "to_exact_ordinal K lo \<le> split_midpoint (to_exact_ordinal K lo) (to_exact_ordinal K hi)"
      "split_midpoint (to_exact_ordinal K lo) (to_exact_ordinal K hi) < to_exact_ordinal K hi"
      using split_midpoint_between key_contract.ordinal_range [OF assms(1)] near by blast+
    then show ?thesis using \<open>f64_lt _ _\<close> False
      by (simp add: conflict_frame_def Let_def predict_slot_def predict_def binary_split_def saturating_sub_def)
  qed
next
  case False
  obtain a b where ab: "to_model_input K lo = Fin a" "to_model_input K hi = Fin b" "a \<le> b"
    "\<bar>a\<bar> \<le> pow2 128" "\<bar>b\<bar> \<le> pow2 128" "is_f64 a" "is_f64 b"
    using key_contract.input_finite [OF assms(1)] key_contract.input_mono [OF assms(1), of lo hi] assms(2)
    by (metis f64_le.simps(1) less_imp_le)
  have "\<bar>b - a\<bar> \<le> pow2 129" using ab pow2_Suc [of 128] by simp
  then have sub: "f64_sub (Fin b) (Fin a) = Fin (round53 (b - a))"
    using fl_bound(1) by (simp add: f64_sub_def)
  have "0 \<le> round53 (b - a)" using ab(3) round53_nonneg by simp
  then have r: "pow2 (- 52) \<le> round53 (b - a)"
    using False ab(1,2) sub by (simp add: f64_epsilon_def)
  then have r0: "0 < round53 (b - a)" using pow2_pos [of "- 52"] by linarith
  then have "a < b" using ab(3) by (cases "a = b") auto
  define s where "s = round53 (rat_of_nat 3 / round53 (b - a))"
  have "f64_le (Fin (pow2 (- 52))) (Fin (round53 (b - a)))" using r by simp
  from slope_finite [OF _ _ this, of 3] have "\<exists>s'. f64_div (Fin 3) (Fin (round53 (b - a))) = Fin s'"
    by (auto simp: pow2_def)
  then have div: "f64_div (Fin 3) (Fin (round53 (b - a))) = Fin s"
    using r0 by (auto simp: fl_eq_Fin s_def)
  have "f64_of_int (int (4 - 1)) = Fin 3" by (simp add: f64_of_int_def fl_numeral)
  then have frame: "conflict_frame K lo hi = with_capacity (line_through (Fin s) (Fin a)) 4"
    using False ab(1,2) sub div by (simp add: conflict_frame_def Let_def line_through_def)
  have "predict_raw (line_through (Fin s) (Fin a)) (Fin a) (3 + 1)
      < predict_raw (line_through (Fin s) (Fin a)) (Fin b) (3 + 1)"
    by (rule line_separates [OF ab(6,4,7,5) \<open>a < b\<close> refl r _ _ s_def]) simp_all
  then show ?thesis unfolding frame
    by (simp add: predict_slot_def ab(1,2) predict_eq_raw line_through_def linear_new_def)
qed

lemma build_conflict_node_total:
  assumes "key_contract K" "k1 \<noteq> k2"
  shows "\<exists>c. build_conflict_node K cfg k1 v1 k2 v2 = Some c"
proof -
  obtain lo lo_v hi hi_v where order:
    "(if k1 < k2 then (k1, v1, k2, v2) else (k2, v2, k1, v1)) = (lo, lo_v, hi, hi_v)"
    by (metis prod_cases4)
  have "lo < hi" using order assms(2) by (auto split: if_splits)
  from conflict_frame_separates [OF assms(1) this, where 'v = 'b]
  have "(predict_slot K (conflict_frame K lo hi :: ('a, 'b) node) lo =
      predict_slot K (conflict_frame K lo hi :: ('a, 'b) node) hi) = False" by simp
  then show ?thesis
    unfolding build_conflict_node.simps [of K cfg k1 v1 k2 v2] order Let_def prod.case
    by (simp only: if_False) blast
qed

subsection \<open>Operations on a tree\<close>

lemma insert_at_total:
  assumes "key_contract K" "wf_node K n"
    and conflict: "\<And>k v k' v'. k \<noteq> k' \<Longrightarrow> \<exists>c. conflict k v k' v' = Some c"
  shows "\<exists>n' r rb. insert_at conflict K cfg key value depth n = Some (n', r, rb)"
  using assms(2)
proof (induction n arbitrary: depth rule: node_induct)
  case (Node n)
  let ?i = "predict_slot K n key"
  have i: "?i < capacity n" by (rule predict_slot_less) (rule wf_nodeD(1) [OF Node.prems])
  note step = insert_at.simps [of conflict K cfg key "value" depth n, unfolded Let_def slot_at_eq [OF i]]
  have child: "\<exists>n' r rb. insert_at conflict K cfg key value (depth + 1) c = Some (n', r, rb)"
    if "load_child n ?i = Some c" for c
    using Node.IH [OF load_child_Some(2,3) [OF that] load_child_wf [OF Node.prems that]] .
  show ?case
  proof (cases "slots n ! ?i")
    case (Data k v)
    then show ?thesis using step conflict [of k key v "value"] i
      by (auto simp: cas_data_to_child_stale_def slot_at_eq)
  next
    case (Child c)
    then show ?thesis using step child [of c] load_child_eq [OF Node.prems i] by auto
  next
    case (ChildStale k v c)
    then show ?thesis using step child [of c] load_child_eq [OF Node.prems i] by auto
  qed (use step i in \<open>auto simp: cas_empty_to_data_def cas_tombstone_to_child_stale_def slot_at_eq\<close>)
qed

lemma get_or_insert_at_total:
  assumes "key_contract K" "config_ok cfg" "wf_node K n"
  shows "\<exists>n' val r rb. get_or_insert_at K cfg key value depth n = Some (n', val, r, rb)"
  using assms(3)
proof (induction n arbitrary: depth rule: node_induct)
  case (Node n)
  let ?i = "predict_slot K n key"
  have i: "?i < capacity n" by (rule predict_slot_less) (rule wf_nodeD(1) [OF Node.prems])
  note step = get_or_insert_at.simps [of K cfg key "value" depth n, unfolded Let_def slot_at_eq [OF i]]
  have child: "\<exists>n' val r rb. get_or_insert_at K cfg key value (depth + 1) c = Some (n', val, r, rb)"
    if "load_child n ?i = Some c" for c
    using Node.IH [OF load_child_Some(2,3) [OF that] load_child_wf [OF Node.prems that]] .
  show ?case
  proof (cases "slots n ! ?i")
    case (Data k v)
    show ?thesis
    proof (cases "k = key")
      case False
      obtain c where c: "build_conflict_node K cfg k v key value = Some c"
        using build_conflict_node_total [OF assms(1) False, of cfg v "value"] ..
      note built = build_conflict_node_correct [OF c assms(1,2) False]
      have "wf_node K c" by (rule built [THEN conjunct1])
      moreover have "map_of (entries c) = [k \<mapsto> v, key \<mapsto> value]" by (rule built [THEN conjunct2])
      ultimately have "get K c key = Some value" by (simp add: get_eq_map_of)
      then show ?thesis using step c Data False i
        by (auto simp: cas_data_to_child_stale_def slot_at_eq)
    qed (use step Data in auto)
  next
    case (Tombstone k v)
    have "get K (build_single_entry_child K key value) key = Some value"
      using single_entry_child [OF assms(1), of key "value"]
        get_eq_map_of [of K "build_single_entry_child K key value" key] by simp
    then show ?thesis using step Tombstone i
      by (auto simp: cas_tombstone_to_child_stale_def slot_at_eq)
  next
    case (Child c)
    then show ?thesis using step child [of c] load_child_eq [OF Node.prems i] by auto
  next
    case (ChildStale k v c)
    then show ?thesis using step child [of c] load_child_eq [OF Node.prems i] by auto
  qed (use step i in \<open>auto simp: cas_empty_to_data_def slot_at_eq\<close>)
qed

text \<open>A rebuild after an update returns.\<close>

lemma updates_at_rebuild_total:
  assumes "updates_at K n n1 key x" "key_contract K" "wf_node K n" "config_total cfg"
    and "length (entries n) < max_pairs \<or> x = None \<and> length (entries n) \<le> max_pairs"
  shows "\<exists>n' b. try_rebuild_subtree K cfg n1 i = Some (n', b)"
proof -
  have wf: "wf_node K n1" and map: "map_of (entries n1) = (map_of (entries n))(key := x)"
    using assms(1) by (simp_all add: updates_at_def)
  have "length (entries n1) \<le> length (entries n)" if "x = None"
    unfolding key_contract.length_entries [OF assms(2) wf] key_contract.length_entries [OF assms(2,3)] map
    using that finite_dom_map_of [of "entries n"] by (intro card_mono) auto
  then have "length (entries n1) \<le> max_pairs"
    using key_contract.updates_at_length [OF assms(2,1,3)] assms(5) by auto
  then show ?thesis by (intro try_rebuild_total [OF assms(2,4) wf])
qed

lemma tree_insert_total:
  assumes "key_contract K" "wf_node K n" "config_total cfg" "length (entries n) < max_pairs"
  shows "\<exists>n' r. tree_insert K cfg n key value = Some (n', r)"
proof -
  obtain n1 r rb where n1: "insert_at (build_conflict_node K cfg) K cfg key value 0 n = Some (n1, r, rb)"
    using insert_at_total [OF assms(1,2)] build_conflict_node_total [OF assms(1)] by metis
  have "updates_at K n n1 key (Some value)"
    using insert_at_correct [OF n1 assms(1,2)] conflict_ok_build [OF assms(1) config_total_ok [OF assms(3)]]
    by blast
  then obtain n2 b where "try_rebuild_subtree K cfg n1 (predict_slot K n key) = Some (n2, b)"
    using updates_at_rebuild_total [OF _ assms(1-3)] assms(4) by blast
  then show ?thesis using n1 by (simp add: tree_insert_def insert_with_def)
qed

lemma get_or_insert_total:
  assumes "key_contract K" "wf_node K n" "config_total cfg" "length (entries n) < max_pairs"
  shows "\<exists>n' val r. get_or_insert K cfg n key value = Some (n', val, r)"
proof -
  obtain n1 val r rb where n1: "get_or_insert_at K cfg key value 0 n = Some (n1, val, r, rb)"
    using get_or_insert_at_total [OF assms(1) config_total_ok [OF assms(3)] assms(2)] by metis
  have "\<exists>x. updates_at K n n1 key x"
    using get_or_insert_at_correct [OF n1 assms(1,2) config_total_ok [OF assms(3)]]
    by (auto simp: gets_or_inserts_def split: option.splits)
  then obtain x where "updates_at K n n1 key x" ..
  then obtain n2 b where "try_rebuild_subtree K cfg n1 (predict_slot K n key) = Some (n2, b)"
    using updates_at_rebuild_total [OF _ assms(1-3)] assms(4) by blast
  then show ?thesis using n1 by (simp add: get_or_insert_def)
qed

lemma remove_total:
  assumes "key_contract K" "wf_node K n" "config_total cfg" "length (entries n) \<le> max_pairs"
  shows "\<exists>n' removed. remove K cfg n key = Some (n', removed)"
proof -
  obtain n1 removed rb where n1: "remove_at K cfg key False n = Some (n1, removed, rb)"
    and upd: "updates_at K n n1 key None"
    using remove_at_correct [OF assms(1,2)] by blast
  from upd obtain n2 b where "try_rebuild_subtree K cfg n1 (predict_slot K n key) = Some (n2, b)"
    using updates_at_rebuild_total [OF _ assms(1-3)] assms(4) by blast
  then show ?thesis using n1 by (simp add: remove_def)
qed

end
