(* ===== verification/Map_Interface.thy ===== *)
theory Map_Interface
  imports Prelude "HOL-Library.Multiset"
begin

text \<open>
  What the users of a sorted map rely on: the map type \<open>LearnedMap\<close> itself for the sets and the
  conversions, the LSM engine for its memtable. \<open>content\<close> is the partial function the map
  stands for, \<open>pairs\<close> its sorted traversal and \<open>room\<close> the number of entries up to which an
  insertion is promised to return.
\<close>

locale keyed_map =
  fixes ok :: "'m \<Rightarrow> bool"
    and content :: "'m \<Rightarrow> 'k::linorder \<Rightarrow> 'v option"
    and pairs :: "'m \<Rightarrow> ('k \<times> 'v) list"
    and put :: "'m \<Rightarrow> 'k \<Rightarrow> 'v \<Rightarrow> ('m \<times> bool) option"
    and del :: "'m \<Rightarrow> 'k \<Rightarrow> ('m \<times> bool) option"
    and room :: nat
  assumes pairs_sorted: "ok m \<Longrightarrow> sorted_keys (pairs m)"
    and pairs_content: "ok m \<Longrightarrow> map_of (pairs m) = content m"
    and put_law: "ok m \<Longrightarrow> length (pairs m) < room \<Longrightarrow>
      \<exists>m'. put m k v = Some (m', content m k = None) \<and> ok m' \<and> content m' = (content m)(k \<mapsto> v)"
    and del_law: "ok m \<Longrightarrow>
      \<exists>m'. del m k = Some (m', content m k \<noteq> None) \<and> ok m' \<and> content m' = (content m)(k := None)"
begin

lemma pairs_unique: "ok m \<Longrightarrow> ok m' \<Longrightarrow> content m = content m' \<Longrightarrow> pairs m = pairs m'"
  by (rule sorted_keys_unique) (simp_all add: pairs_sorted pairs_content)

lemma length_pairs: "ok m \<Longrightarrow> length (pairs m) = card (dom (content m))"
  using pairs_sorted [of m] strict_sorted_distinct [of "map fst (pairs m)"]
  by (simp add: pairs_content [symmetric] dom_map_of_conv_image_fst sorted_wrt_map
      distinct_card flip: set_map)

lemma length_update:
  assumes "ok m" "ok m'" "content m' = (content m)(k := x)"
  shows "length (pairs m') =
    (case x of
       None \<Rightarrow> length (pairs m) - (if content m k = None then 0 else 1)
     | Some _ \<Rightarrow> length (pairs m) + (if content m k = None then 1 else 0))"
proof -
  have fin: "finite (dom (content m))"
    using finite_dom_map_of [of "pairs m"] by (simp add: pairs_content assms(1))
  have "dom (content m') =
      (case x of None \<Rightarrow> dom (content m) - {k} | Some _ \<Rightarrow> insert k (dom (content m)))"
    by (simp add: assms(3) split: option.splits)
  then show ?thesis using fin
    by (cases x) (simp_all add: length_pairs assms(1,2) card_insert_if card_Diff_singleton_if domIff)
qed

lemma put_length:
  "ok m \<Longrightarrow> ok m' \<Longrightarrow> content m' = (content m)(k := x) \<Longrightarrow> length (pairs m') \<le> Suc (length (pairs m))"
  using length_update [of m m' k x] by (auto split: option.splits)

text \<open>Inserting a sequence: later pairs override earlier ones.\<close>

lemma put_all:
  assumes "ok m" "length (pairs m) + length kvs \<le> room"
  shows "\<exists>m'. fold_returns (\<lambda>(k, v) m. map_option fst (put m k v)) kvs m = Some m' \<and> ok m' \<and>
    content m' = content m ++ map_of (rev kvs)"
  using assms
proof (induction kvs arbitrary: m)
  case (Cons kv kvs)
  obtain k v where kv: "kv = (k, v)" by fastforce
  obtain m1 where m1: "put m k v = Some (m1, content m k = None)" "ok m1"
    "content m1 = (content m)(k \<mapsto> v)"
    using put_law [of m k v] Cons.prems by auto
  have "length (pairs m1) + length kvs \<le> room"
    using put_length [OF Cons.prems(1) m1(2,3)] Cons.prems(2) by simp
  from Cons.IH [OF m1(2) this] m1 show ?case
    by (fastforce simp: kv map_add_def fun_eq_iff split: option.splits)
qed simp

text \<open>The order of insertion does not matter for distinct keys.\<close>

lemma put_all_order:
  assumes "ok m" "length (pairs m) + length kvs \<le> room"
    and "distinct (map fst kvs)" "mset kvs = mset kvs'"
  shows "\<exists>m1 m2. fold_returns (\<lambda>(k, v) m. map_option fst (put m k v)) kvs m = Some m1 \<and>
    fold_returns (\<lambda>(k, v) m. map_option fst (put m k v)) kvs' m = Some m2 \<and> pairs m1 = pairs m2"
proof -
  have len: "length kvs' = length kvs" using assms(4) by (metis size_mset)
  have "distinct (map fst kvs')" using assms(3,4) by (metis mset_map mset_eq_imp_distinct_iff)
  moreover have "set (rev kvs) = set (rev kvs')" using assms(4) by (simp flip: set_mset_mset)
  ultimately have "map_of (rev kvs) = map_of (rev kvs')"
    using assms(3) by (intro map_of_inject_set [THEN iffD2]) (simp_all add: rev_map [symmetric])
  then show ?thesis
    using put_all [OF assms(1,2)] put_all [of m kvs'] assms(1,2) len pairs_unique by metis
qed

text \<open>A removed key is absent, the other keys keep their values.\<close>

lemma del_content:
  assumes "ok m" "del m k = Some (m', removed)"
  shows "content m' k = None" "k' \<noteq> k \<Longrightarrow> content m' k' = content m k'" "removed \<longleftrightarrow> content m k \<noteq> None"
  using del_law [OF assms(1), of k] assms(2) by auto

end

end
