(* ===== verification/LearnedMap_Facts.thy ===== *)
theory LearnedMap_Facts
  imports LearnedMap Total Map_Interface
begin

text \<open>
  Correctness of the map: its invariant, and every operation as an operation on the partial
  function and on the sorted list of entries the map stands for. Each operation returns.
\<close>

definition map_pairs :: "('k, 'v) learned_map \<Rightarrow> ('k \<times> 'v) list" where
  "map_pairs m = entries (lm_root m)"

definition map_content :: "('k, 'v) learned_map \<Rightarrow> 'k \<Rightarrow> 'v option" where
  "map_content m = map_of (map_pairs m)"

definition map_ok :: "'k::linorder key_impl \<Rightarrow> ('k, 'v) learned_map \<Rightarrow> bool" where
  "map_ok K m \<longleftrightarrow>
     key_contract K \<and> wf_node K (lm_root m) \<and> config_total (lm_config m) \<and>
     unat (lm_len m) = length (map_pairs m) \<and> length (map_pairs m) \<le> max_pairs"

lemma map_okD:
  assumes "map_ok K m"
  shows "key_contract K" "wf_node K (lm_root m)" "config_total (lm_config m)"
    "config_ok (lm_config m)"
    "unat (lm_len m) = length (map_pairs m)" "length (map_pairs m) \<le> max_pairs"
  using assms config_total_ok by (auto simp: map_ok_def)

lemma max_pairs_usize: "max_pairs < usize_max"
  by (simp add: max_pairs_def usize_max_def)

lemma map_pairs_sorted: "map_ok K m \<Longrightarrow> sorted_keys (map_pairs m)"
  using key_contract.entries_sorted [OF map_okD(1,2)] by (simp add: map_pairs_def)

lemma map_pairs_select [simp]:
  "map_pairs (m\<lparr>lm_len := l\<rparr>) = map_pairs m" "map_pairs (m\<lparr>next_root_rebuild := t\<rparr>) = map_pairs m"
  "map_pairs (m\<lparr>lm_root := r\<rparr>) = entries r"
  by (simp_all add: map_pairs_def)

lemma map_pairs_empty_root [simp]: "entries (empty_root :: ('k, 'v) node) = []"
  by (simp add: empty_root_def)

lemma wf_empty_root: "wf_node K empty_root"
  by (simp add: empty_root_def wf_fresh model_ok_def linear_new_def)

subsection \<open>Construction\<close>

lemma map_ok_with_config:
  assumes "key_contract K" "config_total cfg"
  shows "map_ok K (lm_with_config cfg)" "map_pairs (lm_with_config cfg) = []"
  using assms by (simp_all add: map_ok_def lm_with_config_def map_pairs_def wf_empty_root)

lemma config_sep_ok_headroom: "config_total cfg \<Longrightarrow> config_ok (cfg\<lparr>range_headroom := Fin 1\<rparr>)"
  by (rule config_sep_ok [OF config_total_headroom])

text \<open>Bulk loading with a separating configuration succeeds on sorted pairs and reproduces them.\<close>

lemma bulk_load_sep:
  assumes "key_contract K" "config_sep cfg" "length ps \<le> max_pairs" "ps \<noteq> []" "sorted_keys ps"
  shows "\<exists>n. bulk_load K cfg ps = Some (Inr n) \<and> wf_node K n \<and> entries n = ps"
proof -
  obtain res where res: "bulk_load K cfg ps = Some res"
    using bulk_load_total [OF assms(1-3)] by blast
  have "\<not> fst (ps ! (i + 1)) \<le> fst (ps ! i)" if "i < length ps - 1" for i
    using sorted_wrt_nth_less [OF assms(5), of i "i + 1"] that by (simp add: less_diff_conv)
  then have sorted: "(\<exists>i<length ps - 1. fst (ps ! (i + 1)) \<le> fst (ps ! i)) = False" by blast
  obtain n where "res = Inr n"
    using res assms(4) unfolding bulk_load_def sorted by auto
  then show ?thesis
    using bulk_load_correct [OF res [unfolded \<open>res = Inr n\<close>] assms(1) _ config_sep_ok [OF assms(2)]]
      assms(3) max_pairs_usize res by auto
qed

lemma bulk_load_headroom:
  assumes "key_contract K" "config_total cfg" "length ps \<le> max_pairs" "ps \<noteq> []" "sorted_keys ps"
  shows "\<exists>n. bulk_load K (cfg\<lparr>range_headroom := Fin 1\<rparr>) ps = Some (Inr n) \<and> wf_node K n \<and> entries n = ps"
  by (rule bulk_load_sep [OF assms(1) config_total_headroom [OF assms(2)] assms(3-5)])

lemma lm_bulk_load_sorted:
  assumes "key_contract K" "config_total cfg" "length ps \<le> max_pairs" "ps \<noteq> []" "sorted_keys ps"
  shows "\<exists>m. lm_bulk_load_with_config K ps cfg = Some (Inr m) \<and> map_ok K m \<and> map_pairs m = ps \<and>
    lm_config m = cfg"
proof -
  obtain n where "bulk_load K (cfg\<lparr>range_headroom := f64_max (range_headroom cfg) (Fin 1)\<rparr>) ps = Some (Inr n)"
    "wf_node K n" "entries n = ps"
    using bulk_load_sep [OF assms(1) config_total_headroom_max [OF assms(2)] assms(3-5)] by blast
  moreover have "unat (of_nat (length ps) :: usize) = length ps"
    using assms(3) by (simp add: unsigned_of_nat take_bit_nat_eq_self max_pairs_def)
  ultimately show ?thesis using assms
    by (simp add: lm_bulk_load_with_config_def map_ok_def map_pairs_def)
qed

subsection \<open>Rebuilding the root\<close>

lemma lm_rebuild_correct:
  assumes "map_ok K m"
  shows "\<exists>m'. lm_rebuild K m = Some m' \<and> map_ok K m' \<and> map_pairs m' = map_pairs m \<and>
    lm_len m' = lm_len m \<and> lm_config m' = lm_config m"
proof (cases "map_pairs m = []")
  case True
  then show ?thesis using assms
    by (simp add: lm_rebuild_def iter_collect_entries(3) [OF map_okD(2)] map_pairs_def)
next
  case False
  then obtain n where n: "bulk_load K ((lm_config m)\<lparr>range_headroom := Fin 1\<rparr>) (map_pairs m) = Some (Inr n)"
    "wf_node K n" "entries n = map_pairs m"
    using bulk_load_headroom [OF map_okD(1,3,6) [OF assms] False map_pairs_sorted [OF assms]] by blast
  then show ?thesis using False assms
    by (simp add: lm_rebuild_def iter_collect_entries(3) [OF map_okD(2) [OF assms]] map_ok_def
        map_pairs_def)
qed

lemma map_ok_threshold: "map_ok K (m\<lparr>next_root_rebuild := t\<rparr>) = map_ok K m"
  by (simp add: map_ok_def)

lemma maybe_rebuild_root_correct:
  assumes "map_ok K m"
  shows "\<exists>m'. maybe_rebuild_root K m l = Some m' \<and> map_ok K m' \<and> map_pairs m' = map_pairs m \<and>
    lm_len m' = lm_len m \<and> lm_config m' = lm_config m"
  using lm_rebuild_correct [of K "m\<lparr>next_root_rebuild :=
      saturating_mul (next_root_rebuild m) ROOT_REBUILD_GROWTH_FACTOR\<rparr>"] assms
  by (auto simp: maybe_rebuild_root_def Let_def map_ok_threshold)

subsection \<open>Point operations\<close>

lemma lm_get_content: "map_ok K m \<Longrightarrow> lm_get K m k = map_content m k"
  by (simp add: lm_get_def map_content_def map_pairs_def get_eq_map_of map_okD)

text \<open>The number of entries after an update, from the domain of the map.\<close>

lemma entries_update_length:
  assumes "key_contract K" "wf_node K n" "wf_node K n'"
    "map_of (entries n') = (map_of (entries n))(k := x)"
  shows "length (entries n') =
    (case x of None \<Rightarrow> if map_of (entries n) k = None then length (entries n) else length (entries n) - 1
     | Some _ \<Rightarrow> if map_of (entries n) k = None then length (entries n) + 1 else length (entries n))"
proof -
  have fin: "finite (dom (map_of (entries n)))" by (rule finite_dom_map_of)
  have dom: "dom (map_of (entries n')) =
      (case x of None \<Rightarrow> dom (map_of (entries n)) - {k} | Some _ \<Rightarrow> insert k (dom (map_of (entries n))))"
    by (simp add: assms(4) split: option.splits)
  show ?thesis
    unfolding key_contract.length_entries [OF assms(1,2)] key_contract.length_entries [OF assms(1,3)] dom
    using fin by (cases x) (auto simp only: option.case card_insert_if card_Diff_singleton_if domIff if_True if_False
        not_True_eq_False not_False_eq_True Suc_eq_plus1
        split: if_split)
qed

lemma unat_Suc_len: "unat (l :: usize) < max_pairs \<Longrightarrow> unat (l + 1) = Suc (unat l)"
  by (simp add: unat_word_ariths max_pairs_def)

lemma unat_pred_len: "l \<noteq> (0 :: usize) \<Longrightarrow> unat (l - 1) = unat l - 1"
  by (simp add: unat_minus_one)

text \<open>Counting an update that the tree performed.\<close>

lemma lm_insert_correct:
  assumes "map_ok K m" "length (map_pairs m) < max_pairs"
  shows "\<exists>m'. lm_insert K m k v = Some (m', map_content m k = None) \<and> map_ok K m' \<and>
    map_content m' = (map_content m)(k \<mapsto> v) \<and> lm_config m' = lm_config m"
proof -
  note ok = map_okD [OF assms(1)]
  obtain n r where n: "tree_insert K (lm_config m) (lm_root m) k v = Some (n, r)"
    using tree_insert_total [OF ok(1,2,3)] assms(2) unfolding map_pairs_def by blast
  have spec: "wf_node K n" "map_of (entries n) = (map_of (entries (lm_root m)))(k \<mapsto> v)"
    "r = (if map_content m k = None then Inserted else Updated)"
    using tree_insert_correct [OF n ok(1,2,4)] assms(2) max_pairs_usize
    by (simp_all add: map_pairs_def map_content_def)
  note len = entries_update_length [OF ok(1,2) spec(1,2)]
  show ?thesis
  proof (cases "map_content m k = None")
    case True
    have "unat (lm_len m + 1) = Suc (unat (lm_len m))"
      using ok(5) assms(2) by (intro unat_Suc_len) simp
    then have "map_ok K (m\<lparr>lm_root := n, lm_len := lm_len m + 1\<rparr>)"
      using ok assms(2) spec(1) len True by (simp add: map_ok_def map_content_def map_pairs_def)
    from maybe_rebuild_root_correct [OF this, of "lm_len m + 1"] show ?thesis
      using n spec True
      by (auto simp: lm_insert_def map_content_def map_pairs_def [of m] simp del: fun_upd_apply)
  next
    case False
    then show ?thesis using n spec ok len
      by (auto simp: lm_insert_def map_ok_def map_content_def map_pairs_def)
  qed
qed

lemma lm_get_or_insert_correct:
  assumes "map_ok K m" "length (map_pairs m) < max_pairs"
  shows "\<exists>m' val. lm_get_or_insert K m k v = Some (m', val) \<and> map_ok K m' \<and>
    val = (case map_content m k of None \<Rightarrow> v | Some old \<Rightarrow> old) \<and>
    map_content m' = (map_content m)(k \<mapsto> val) \<and> lm_config m' = lm_config m"
proof -
  note ok = map_okD [OF assms(1)]
  obtain n val r where n: "get_or_insert K (lm_config m) (lm_root m) k v = Some (n, val, r)"
    using get_or_insert_total [OF ok(1,2,3)] assms(2) unfolding map_pairs_def by blast
  have "gets_or_inserts K (lm_root m) n k v val r"
    using get_or_insert_correct [OF n ok(1,2,4)] assms(2) max_pairs_usize by (simp add: map_pairs_def)
  then have spec: "wf_node K n" "map_of (entries n) = (map_of (entries (lm_root m)))(k \<mapsto> val)"
    "val = (case map_content m k of None \<Rightarrow> v | Some old \<Rightarrow> old)"
    "r = (if map_content m k = None then Inserted else Updated)"
    by (auto simp: gets_or_inserts_def updates_at_def map_content_def map_pairs_def split: option.splits)
  note len = entries_update_length [OF ok(1,2) spec(1,2)]
  show ?thesis
  proof (cases "map_content m k = None")
    case True
    have "unat (lm_len m + 1) = Suc (unat (lm_len m))"
      using ok(5) assms(2) by (intro unat_Suc_len) simp
    then have "map_ok K (m\<lparr>lm_root := n, lm_len := lm_len m + 1\<rparr>)"
      using ok assms(2) spec(1) len True by (simp add: map_ok_def map_content_def map_pairs_def)
    from maybe_rebuild_root_correct [OF this, of "lm_len m + 1"] show ?thesis
      using n spec True
      by (auto simp: lm_get_or_insert_def map_content_def map_pairs_def [of m] simp del: fun_upd_apply)
  next
    case False
    then show ?thesis using n spec ok len
      by (auto simp: lm_get_or_insert_def map_ok_def map_content_def map_pairs_def)
  qed
qed

lemma lm_remove_correct:
  assumes "map_ok K m"
  shows "\<exists>m'. lm_remove K m k = Some (m', map_content m k \<noteq> None) \<and> map_ok K m' \<and>
    map_content m' = (map_content m)(k := None) \<and> lm_config m' = lm_config m"
proof -
  note ok = map_okD [OF assms(1)]
  obtain n r where n: "remove K (lm_config m) (lm_root m) k = Some (n, r)"
    using remove_total [OF ok(1,2,3)] ok(6) unfolding map_pairs_def by blast
  have spec: "wf_node K n" "map_of (entries n) = (map_of (entries (lm_root m)))(k := None)"
    "r = (map_content m k \<noteq> None)"
    using remove_correct [OF n ok(1,2,4)] ok(6) max_pairs_usize
    by (simp_all add: map_pairs_def map_content_def)
  note len = entries_update_length [OF ok(1,2) spec(1,2)]
  have "lm_len m \<noteq> 0" if "map_content m k \<noteq> None"
    using ok(5) that by (auto simp: map_content_def)
  then show ?thesis using n spec ok len
    by (auto simp: lm_remove_def map_ok_def map_content_def map_pairs_def unat_pred_len)
qed

interpretation lm: keyed_map "map_ok K" map_content map_pairs "lm_insert K" "lm_remove K" max_pairs
  for K :: "'k::linorder key_impl"
proof
  fix m :: "('k, 'v) learned_map" and k v
  assume "map_ok K m"
  then show "sorted_keys (map_pairs m)" "map_of (map_pairs m) = map_content m"
    "\<exists>m'. lm_remove K m k = Some (m', map_content m k \<noteq> None) \<and> map_ok K m' \<and>
      map_content m' = (map_content m)(k := None)"
    using map_pairs_sorted lm_remove_correct [of K m k] by (auto simp: map_content_def)
  assume "length (map_pairs m) < max_pairs"
  then show "\<exists>m'. lm_insert K m k v = Some (m', map_content m k = None) \<and> map_ok K m' \<and>
      map_content m' = (map_content m)(k \<mapsto> v)"
    using lm_insert_correct [OF \<open>map_ok K m\<close>, of k v] by blast
qed

subsection \<open>Traversals\<close>

lemma lm_traversals:
  assumes "map_ok K m"
  shows "iter_collect (lm_iter m) = map_pairs m" "lm_iter_sorted m = map_pairs m"
    "range_collect (lm_range K m lo hi) = filter (\<lambda>p. in_range lo hi (fst p)) (map_pairs m)"
    "lm_first_key_value m = (case map_pairs m of [] \<Rightarrow> None | p # _ \<Rightarrow> Some p)"
    "lm_last_key_value m = (if map_pairs m = [] then None else Some (last (map_pairs m)))"
    "lm_length m = length (map_pairs m)"
  using iter_collect_entries [OF map_okD(2) [OF assms]] first_entry_entries [OF map_okD(2) [OF assms]]
    last_entry_entries [OF map_okD(2) [OF assms]]
    key_contract.range_entries [OF map_okD(1,2) [OF assms], of lo hi] map_okD(5) [OF assms]
  by (simp_all add: lm_iter_def lm_iter_sorted_def lm_range_def lm_first_key_value_def
      lm_last_key_value_def lm_length_def map_pairs_def)

lemma lm_range_count_eq:
  "map_ok K m \<Longrightarrow> lm_range_count K m lo hi = card {k \<in> dom (map_content m). in_range lo hi k}"
proof -
  assume ok: "map_ok K m"
  let ?ps = "filter (\<lambda>p. in_range lo hi (fst p)) (map_pairs m)"
  have "sorted_keys ?ps" using sorted_keys_filter map_pairs_sorted [OF ok] .
  then have "distinct (map fst ?ps)" using strict_sorted_distinct [of "map fst ?ps"] by (simp add: sorted_wrt_map)
  then have "length ?ps = card (set (map fst ?ps))" by (simp add: distinct_card flip: set_map)
  also have "set (map fst ?ps) = {k \<in> dom (map_content m). in_range lo hi k}"
    by (force simp: map_content_def dom_map_of_conv_image_fst)
  finally show ?thesis by (simp add: lm_range_count_def lm_traversals(3) [OF ok])
qed

subsection \<open>Emptying\<close>

lemma lm_drain_correct:
  assumes "map_ok K m"
  shows "snd (lm_drain m) = map_pairs m" "map_ok K (fst (lm_drain m))"
    "map_pairs (fst (lm_drain m)) = []" "lm_config (fst (lm_drain m)) = lm_config m"
proof -
  have "of_nat (length (map_pairs m)) = lm_len m"
    by (simp flip: map_okD(5) [OF assms])
  then show "snd (lm_drain m) = map_pairs m" "map_ok K (fst (lm_drain m))"
    "map_pairs (fst (lm_drain m)) = []" "lm_config (fst (lm_drain m)) = lm_config m"
    using map_okD [OF assms]
    by (simp_all add: lm_drain_def iter_collect_entries(3) [OF map_okD(2) [OF assms]] map_ok_def
        map_pairs_def wf_empty_root)
qed

text \<open>Clearing leaves the state that draining leaves.\<close>

lemma lm_clear_drain:
  assumes "map_ok K m"
  shows "lm_clear m = fst (lm_drain m)"
  using iter_collect_entries [OF map_okD(2) [OF assms]]
  by (simp add: lm_clear_def lm_drain_def Let_def)

subsection \<open>Removing duplicates\<close>

lemma windows2_Cons2: "windows2 (x # y # xs) = (x, y) # windows2 (y # xs)"
  by (simp add: windows2_def)

lemma dedup_pairs_simps:
  "dedup_pairs [] = []" "dedup_pairs [p] = [p]"
  "dedup_pairs (p # q # ps) = (if fst p \<noteq> fst q then [p] else []) @ dedup_pairs (q # ps)"
  by (simp_all add: dedup_pairs_def windows2_def)

lemma dedup_pairs_set: "set (dedup_pairs ps) \<subseteq> set ps"
  by (induction ps rule: induct_list012) (auto simp: dedup_pairs_simps)

lemma dedup_pairs_length: "length (dedup_pairs ps) \<le> length ps"
  by (induction ps rule: induct_list012) (auto simp: dedup_pairs_simps)

lemma dedup_pairs_nonempty: "dedup_pairs ps = [] \<longleftrightarrow> ps = []"
  by (induction ps rule: induct_list012) (auto simp: dedup_pairs_simps)

lemma windows2_sorted:
  "\<not> list_ex (\<lambda>(a, b). fst b < fst a) (windows2 ps) \<longleftrightarrow> sorted (map fst (ps :: ('k::linorder \<times> 'v) list))"
  by (induction ps rule: induct_list012) (auto simp: windows2_Cons2 windows2_def not_less)

lemma dedup_pairs_sorted: "sorted (map fst ps) \<Longrightarrow> sorted_keys (dedup_pairs ps)"
proof (induction ps rule: induct_list012)
  case (3 p q ps)
  have "fst p < fst x" if ne: "fst p \<noteq> fst q" and x: "x \<in> set (dedup_pairs (q # ps))" for x
  proof -
    have "x \<in> set (q # ps)" using x dedup_pairs_set [of "q # ps"] by blast
    then have "fst q \<le> fst x" using 3(3) by auto
    moreover have "fst p < fst q" using 3(3) ne by (simp add: order.strict_iff_order)
    ultimately show ?thesis by (rule order.strict_trans2 [rotated])
  qed
  then show ?case using 3(2,3) by (auto simp: dedup_pairs_simps(3))
qed (simp_all add: dedup_pairs_simps)

text \<open>Of the pairs with one key, the last one stays.\<close>

lemma dedup_pairs_last: "sorted (map fst ps) \<Longrightarrow> map_of (dedup_pairs ps) = map_of (rev ps)"
proof (induction ps rule: induct_list012)
  case (3 p q ps)
  have IH: "map_of (dedup_pairs (q # ps)) = map_of (rev (q # ps))" using 3(2,3) by simp
  show ?case
  proof (cases "fst p = fst q")
    case True
    then show ?thesis using IH
      by (cases p; cases q) (auto simp: dedup_pairs_simps(3) map_add_def fun_eq_iff split: option.splits)
  next
    case False
    then have "fst p < fst q" using 3(3) by (simp add: order.strict_iff_order)
    then have "fst p \<notin> fst ` set (q # ps)" using 3(3) by fastforce
    then have "map_of (rev (q # ps)) (fst p) = None" by (auto simp: map_of_eq_None_iff)
    then show ?thesis using IH False
      by (cases p) (auto simp: dedup_pairs_simps(3) map_add_def fun_eq_iff split: option.splits)
  qed
qed (simp_all add: dedup_pairs_simps)

lemma lm_bulk_load_dedup_correct:
  assumes "key_contract K" "config_total cfg" "length ps \<le> max_pairs" "ps \<noteq> []" "sorted (map fst ps)"
  shows "\<exists>m. lm_bulk_load_dedup_with_config K ps cfg = Some (Inr m) \<and> map_ok K m \<and>
    map_pairs m = dedup_pairs ps \<and> map_content m = map_of (rev ps) \<and> lm_config m = cfg"
proof -
  have "length (dedup_pairs ps) \<le> max_pairs" using dedup_pairs_length assms(3) le_trans by blast
  then obtain m where "lm_bulk_load_with_config K (dedup_pairs ps) cfg = Some (Inr m)" "map_ok K m"
    "map_pairs m = dedup_pairs ps" "lm_config m = cfg"
    using lm_bulk_load_sorted [OF assms(1,2)] dedup_pairs_nonempty assms(4)
      dedup_pairs_sorted [OF assms(5)] by blast
  moreover have "\<not> list_ex (\<lambda>(a, b). fst b < fst a) (windows2 ps)"
    using assms(5) windows2_sorted by blast
  ultimately show ?thesis using assms(4) dedup_pairs_last [OF assms(5)]
    by (simp add: lm_bulk_load_dedup_with_config_def dedup_pairs_nonempty map_content_def)
qed

lemma dedup_pairs_id: "sorted_keys ps \<Longrightarrow> dedup_pairs ps = ps"
  by (induction ps rule: induct_list012) (auto simp: dedup_pairs_simps)

subsection \<open>Conversions\<close>

lemma map_ok_new: "key_contract K \<Longrightarrow> map_ok K lm_new"
  by (simp add: lm_new_def map_ok_with_config config_total_default)

lemma map_pairs_new [simp]: "map_pairs lm_new = []"
  by (simp add: lm_new_def lm_with_config_def map_pairs_def)

text \<open>Deserializing the serialized sequence restores the entries.\<close>

lemma lm_deserialize_serialize:
  assumes "map_ok K m"
  shows "\<exists>m'. lm_deserialize K (snd (lm_serialize m)) = Some (Inr m') \<and> map_ok K m' \<and>
    map_pairs m' = map_pairs m"
proof (cases "map_pairs m = []")
  case True
  then show ?thesis using map_ok_new [OF map_okD(1) [OF assms]]
    by (simp add: lm_serialize_def lm_traversals [OF assms] lm_deserialize_def)
next
  case False
  have "sorted (map fst (map_pairs m))"
    using map_pairs_sorted [OF assms] by (simp add: sorted_wrt_map strict_sorted_imp_sorted)
      (auto intro: sorted_wrt_mono_rel [rotated])
  then show ?thesis
    using lm_bulk_load_dedup_correct [OF map_okD(1) [OF assms] config_total_default _ False] map_okD(6) [OF assms]
      dedup_pairs_id [OF map_pairs_sorted [OF assms]] False
    by (auto simp: lm_serialize_def lm_traversals [OF assms] lm_deserialize_def lm_bulk_load_dedup_def)
qed

text \<open>A small map for the concrete instances.\<close>

lemma sample_map:
  "\<exists>m :: (64 word, nat) learned_map. map_ok unsigned_key m \<and> map_pairs m = [(1, 10), (2, 20), (5, 50)]"
  using lm_bulk_load_sorted [OF u64.key_contract_axioms config_total_default,
      of "[(1, 10), (2, 20), (5, 50)]"] by (auto simp: max_pairs_def)

end
