(* ===== verification/LearnedSet_Facts.thy ===== *)
theory LearnedSet_Facts
  imports LearnedSet LearnedMap_Facts
begin

text \<open>
  Correctness of the set: a user of the map interface with unit values. Its own interface, a
  set with sorted members, is provided by the laws of the map.
\<close>

locale keyed_set =
  fixes ok :: "'s \<Rightarrow> bool"
    and members :: "'s \<Rightarrow> 'k::linorder list"
    and add :: "'s \<Rightarrow> 'k \<Rightarrow> ('s \<times> bool) option"
    and del :: "'s \<Rightarrow> 'k \<Rightarrow> ('s \<times> bool) option"
    and room :: nat
  assumes members_sorted: "ok s \<Longrightarrow> sorted_wrt (<) (members s)"
    and add_law: "ok s \<Longrightarrow> length (members s) < room \<Longrightarrow>
      \<exists>s'. add s k = Some (s', k \<notin> set (members s)) \<and> ok s' \<and> set (members s') = insert k (set (members s))"
    and del_law: "ok s \<Longrightarrow>
      \<exists>s'. del s k = Some (s', k \<in> set (members s)) \<and> ok s' \<and> set (members s') = set (members s) - {k}"
begin

lemma length_members: "ok s \<Longrightarrow> length (members s) = card (set (members s))"
  using strict_sorted_distinct [OF members_sorted] distinct_card by metis

lemma members_unique: "ok s \<Longrightarrow> ok s' \<Longrightarrow> set (members s) = set (members s') \<Longrightarrow> members s = members s'"
  by (rule sorted_distinct_set_unique)
    (simp_all add: members_sorted strict_sorted_distinct strict_sorted_imp_sorted)

lemma add_all:
  assumes "ok s" "length (members s) + length ks \<le> room"
  shows "\<exists>s'. fold_returns (\<lambda>k s. map_option fst (add s k)) ks s = Some s' \<and> ok s' \<and>
    set (members s') = set (members s) \<union> set ks"
  using assms
proof (induction ks arbitrary: s)
  case (Cons k ks)
  obtain s1 where s1: "add s k = Some (s1, k \<notin> set (members s))" "ok s1"
    "set (members s1) = insert k (set (members s))"
    using add_law [of s k] Cons.prems by auto
  have "length (members s1) \<le> Suc (length (members s))"
    by (simp add: length_members s1(2,3) Cons.prems(1) card_insert_if)
  then obtain s' where "fold_returns (\<lambda>k s. map_option fst (add s k)) ks s1 = Some s'" "ok s'"
    "set (members s') = set (members s1) \<union> set ks"
    using Cons.IH [OF s1(2)] Cons.prems(2) by auto
  then show ?case using s1 by simp
qed simp

end

definition set_members :: "'k learned_set \<Rightarrow> 'k list" where
  "set_members s = map fst (map_pairs s)"

lemma set_members_content: "set (set_members s) = dom (map_content s)"
  by (simp add: set_members_def map_content_def dom_map_of_conv_image_fst)

interpretation ls: keyed_set "map_ok K" set_members "ls_insert K" "ls_remove K" max_pairs
  for K :: "'k::linorder key_impl"
proof
  fix s :: "'k learned_set" and k
  assume ok: "map_ok K s"
  then show "sorted_wrt (<) (set_members s)"
    using map_pairs_sorted by (simp add: set_members_def sorted_wrt_map)
  show "\<exists>s'. ls_remove K s k = Some (s', k \<in> set (set_members s)) \<and> map_ok K s' \<and>
      set (set_members s') = set (set_members s) - {k}"
    using lm.del_law [OF ok, of k] by (auto simp: ls_remove_def set_members_content domIff)
  assume "length (set_members s) < max_pairs"
  then have "length (map_pairs s) < max_pairs" by (simp add: set_members_def)
  then show "\<exists>s'. ls_insert K s k = Some (s', k \<notin> set (set_members s)) \<and> map_ok K s' \<and>
      set (set_members s') = insert k (set (set_members s))"
    using lm.put_law [OF ok, of k "()"] by (auto simp: ls_insert_def set_members_content)
qed

text \<open>Bulk loading a set sorts out duplicates; reading back gives the members in order.\<close>

lemma ls_bulk_load_correct:
  assumes "key_contract K" "sorted ks" "ks \<noteq> []" "length ks \<le> max_pairs"
  shows "\<exists>s. ls_bulk_load K ks = Some (Inr s) \<and> map_ok K s \<and> set_members s = sorted_list_of_set (set ks)"
proof -
  obtain s where s: "lm_bulk_load_dedup_with_config K (map (\<lambda>k. (k, ())) ks) config_default = Some (Inr s)"
    "map_ok K s" "map_content s = map_of (rev (map (\<lambda>k. (k, ())) ks))"
    using lm_bulk_load_dedup_correct [OF assms(1) config_total_default, of "map (\<lambda>k. (k, ())) ks"]
      assms(2-4) by (auto simp: comp_def)
  have "set (set_members s) = set ks"
    unfolding set_members_content s(3) dom_map_of_conv_image_fst by force
  then have "set_members s = sorted_list_of_set (set ks)"
    using ls.members_sorted [OF s(2)] by (metis sorted_list_of_set.idem_if_sorted_distinct
        strict_sorted_distinct strict_sorted_imp_sorted)
  then show ?thesis using s(1,2) by (auto simp: ls_bulk_load_def lm_bulk_load_dedup_def)
qed

lemma ls_queries:
  assumes "map_ok K s"
  shows "ls_contains K s k \<longleftrightarrow> k \<in> set (set_members s)"
    "ls_length s = length (set_members s)"
    "ls_range K s lo hi = filter (in_range lo hi) (set_members s)"
    "ls_first s = (if set_members s = [] then None else Some (hd (set_members s)))"
    "ls_last s = (if set_members s = [] then None else Some (last (set_members s)))"
proof -
  show "ls_contains K s k \<longleftrightarrow> k \<in> set (set_members s)"
    by (simp add: ls_contains_def lm_contains_key_def set_members_content domIff lm_get_content [OF assms])
  show "ls_length s = length (set_members s)"
    by (simp add: ls_length_def set_members_def lm_traversals [OF assms])
  show "ls_range K s lo hi = filter (in_range lo hi) (set_members s)"
    by (simp add: ls_range_def set_members_def lm_traversals [OF assms] filter_map comp_def case_prod_beta)
  show "ls_first s = (if set_members s = [] then None else Some (hd (set_members s)))"
    by (cases "map_pairs s") (simp_all add: ls_first_def set_members_def lm_traversals [OF assms] case_prod_beta)
  show "ls_last s = (if set_members s = [] then None else Some (last (set_members s)))"
    by (simp add: ls_last_def set_members_def lm_traversals [OF assms] case_prod_beta last_map)
qed

end
