(* ===== verification/Handles.thy ===== *)
theory Handles
  imports LearnedSet_Facts
begin

text \<open>
  \<^verbatim>\<open>MapRef\<close> of \<^verbatim>\<open>src/map.rs\<close> and \<^verbatim>\<open>SetRef\<close> of \<^verbatim>\<open>src/set.rs\<close>: handles that borrow a map and forward
  every call to it. Several handles can borrow the same map, so the maps are in a store and a handle
  has the address of its map. The guard a handle owns keeps memory from being reclaimed; the model
  reclaims none.
\<close>

type_synonym ('k, 'v) maps = "nat \<Rightarrow> ('k, 'v) learned_map"

record map_ref =
  ref_map :: nat

definition lm_pin :: "nat \<Rightarrow> map_ref" where
  "lm_pin a = \<lparr>ref_map = a\<rparr>"

text \<open>A call that changes the borrowed map and returns a value.\<close>

definition on_map ::
    "map_ref \<Rightarrow> ('k, 'v) maps \<Rightarrow> (('k, 'v) learned_map \<Rightarrow> (('k, 'v) learned_map \<times> 'r) option) \<Rightarrow>
     (('k, 'v) maps \<times> 'r) option" where
  "on_map r st call = map_option (\<lambda>(m, x). (st(ref_map r := m), x)) (call (st (ref_map r)))"

definition ref_get :: "'k::linorder key_impl \<Rightarrow> map_ref \<Rightarrow> ('k, 'v) maps \<Rightarrow> 'k \<Rightarrow> 'v option" where
  "ref_get K r st key = lm_get K (st (ref_map r)) key"

definition ref_insert ::
    "'k::linorder key_impl \<Rightarrow> map_ref \<Rightarrow> ('k, 'v) maps \<Rightarrow> 'k \<Rightarrow> 'v \<Rightarrow> (('k, 'v) maps \<times> bool) option" where
  "ref_insert K r st key value = on_map r st (\<lambda>m. lm_insert K m key value)"

definition ref_remove ::
    "'k::linorder key_impl \<Rightarrow> map_ref \<Rightarrow> ('k, 'v) maps \<Rightarrow> 'k \<Rightarrow> (('k, 'v) maps \<times> bool) option" where
  "ref_remove K r st key = on_map r st (\<lambda>m. lm_remove K m key)"

definition ref_get_or_insert ::
    "'k::linorder key_impl \<Rightarrow> map_ref \<Rightarrow> ('k, 'v) maps \<Rightarrow> 'k \<Rightarrow> 'v \<Rightarrow> (('k, 'v) maps \<times> 'v) option" where
  "ref_get_or_insert K r st key value = on_map r st (\<lambda>m. lm_get_or_insert K m key value)"

definition ref_get_or_insert_with ::
    "'k::linorder key_impl \<Rightarrow> map_ref \<Rightarrow> ('k, 'v) maps \<Rightarrow> 'k \<Rightarrow> (unit \<Rightarrow> 'v) \<Rightarrow> (('k, 'v) maps \<times> 'v) option" where
  "ref_get_or_insert_with K r st key f = on_map r st (\<lambda>m. lm_get_or_insert_with K m key f)"

definition ref_contains_key :: "'k::linorder key_impl \<Rightarrow> map_ref \<Rightarrow> ('k, 'v) maps \<Rightarrow> 'k \<Rightarrow> bool" where
  "ref_contains_key K r st key \<longleftrightarrow> lm_contains_key K (st (ref_map r)) key"

definition ref_length :: "map_ref \<Rightarrow> ('k, 'v) maps \<Rightarrow> nat" where
  "ref_length r st = lm_length (st (ref_map r))"

definition ref_is_empty :: "map_ref \<Rightarrow> ('k, 'v) maps \<Rightarrow> bool" where
  "ref_is_empty r st \<longleftrightarrow> lm_is_empty (st (ref_map r))"

definition ref_iter :: "map_ref \<Rightarrow> ('k, 'v) maps \<Rightarrow> ('k, 'v) iter" where
  "ref_iter r st = lm_iter (st (ref_map r))"

definition ref_iter_sorted :: "map_ref \<Rightarrow> ('k, 'v) maps \<Rightarrow> ('k \<times> 'v) list" where
  "ref_iter_sorted r st = lm_iter_sorted (st (ref_map r))"

definition ref_range ::
    "'k::linorder key_impl \<Rightarrow> map_ref \<Rightarrow> ('k, 'v) maps \<Rightarrow> 'k bound \<Rightarrow> 'k bound \<Rightarrow> ('k, 'v) range_iter" where
  "ref_range K r st lo hi = lm_range K (st (ref_map r)) lo hi"

definition ref_first_key_value :: "map_ref \<Rightarrow> ('k, 'v) maps \<Rightarrow> ('k \<times> 'v) option" where
  "ref_first_key_value r st = lm_first_key_value (st (ref_map r))"

definition ref_last_key_value :: "map_ref \<Rightarrow> ('k, 'v) maps \<Rightarrow> ('k \<times> 'v) option" where
  "ref_last_key_value r st = lm_last_key_value (st (ref_map r))"

definition ref_range_count ::
    "'k::linorder key_impl \<Rightarrow> map_ref \<Rightarrow> ('k, 'v) maps \<Rightarrow> 'k bound \<Rightarrow> 'k bound \<Rightarrow> nat" where
  "ref_range_count K r st lo hi = lm_range_count K (st (ref_map r)) lo hi"

definition ref_allocated_bytes :: "layout \<Rightarrow> map_ref \<Rightarrow> ('k, 'v) maps \<Rightarrow> nat" where
  "ref_allocated_bytes L r st = lm_allocated_bytes L (st (ref_map r))"

definition ref_max_depth :: "map_ref \<Rightarrow> ('k, 'v) maps \<Rightarrow> nat" where
  "ref_max_depth r st = lm_max_depth (st (ref_map r))"

definition ref_rebuild ::
    "'k::linorder key_impl \<Rightarrow> map_ref \<Rightarrow> ('k, 'v) maps \<Rightarrow> (('k, 'v) maps \<times> unit) option" where
  "ref_rebuild K r st = on_map r st (\<lambda>m. map_option (\<lambda>m'. (m', ())) (lm_rebuild K m))"

definition ref_drain :: "map_ref \<Rightarrow> ('k, 'v) maps \<Rightarrow> (('k, 'v) maps \<times> ('k \<times> 'v) list) option" where
  "ref_drain r st = on_map r st (\<lambda>m. Some (lm_drain m))"

definition ref_clear :: "map_ref \<Rightarrow> ('k, 'v) maps \<Rightarrow> (('k, 'v) maps \<times> unit) option" where
  "ref_clear r st = on_map r st (\<lambda>m. Some (lm_clear m, ()))"

subsection \<open>Handles of sets\<close>

record set_ref =
  inner_ref :: map_ref

definition ls_pin :: "nat \<Rightarrow> set_ref" where
  "ls_pin a = \<lparr>inner_ref = lm_pin a\<rparr>"

definition sref_insert ::
    "'k::linorder key_impl \<Rightarrow> set_ref \<Rightarrow> ('k, unit) maps \<Rightarrow> 'k \<Rightarrow> (('k, unit) maps \<times> bool) option" where
  "sref_insert K r st key = ref_insert K (inner_ref r) st key ()"

definition sref_remove ::
    "'k::linorder key_impl \<Rightarrow> set_ref \<Rightarrow> ('k, unit) maps \<Rightarrow> 'k \<Rightarrow> (('k, unit) maps \<times> bool) option" where
  "sref_remove K r st key = ref_remove K (inner_ref r) st key"

definition sref_contains :: "'k::linorder key_impl \<Rightarrow> set_ref \<Rightarrow> ('k, unit) maps \<Rightarrow> 'k \<Rightarrow> bool" where
  "sref_contains K r st key \<longleftrightarrow> ref_contains_key K (inner_ref r) st key"

definition sref_length :: "set_ref \<Rightarrow> ('k, unit) maps \<Rightarrow> nat" where
  "sref_length r st = ref_length (inner_ref r) st"

definition sref_is_empty :: "set_ref \<Rightarrow> ('k, unit) maps \<Rightarrow> bool" where
  "sref_is_empty r st \<longleftrightarrow> ref_is_empty (inner_ref r) st"

definition sref_range ::
    "'k::linorder key_impl \<Rightarrow> set_ref \<Rightarrow> ('k, unit) maps \<Rightarrow> 'k bound \<Rightarrow> 'k bound \<Rightarrow> 'k list" where
  "sref_range K r st lo hi = map (\<lambda>(k, _). k) (range_collect (ref_range K (inner_ref r) st lo hi))"

definition sref_first :: "set_ref \<Rightarrow> ('k, unit) maps \<Rightarrow> 'k option" where
  "sref_first r st = map_option (\<lambda>(k, _). k) (ref_first_key_value (inner_ref r) st)"

definition sref_last :: "set_ref \<Rightarrow> ('k, unit) maps \<Rightarrow> 'k option" where
  "sref_last r st = map_option (\<lambda>(k, _). k) (ref_last_key_value (inner_ref r) st)"

subsection \<open>A handle is a map, and a handle of a set a set\<close>

lemma on_map_Some: "call (st (ref_map r)) = Some (m, x) \<Longrightarrow> on_map r st call = Some (st(ref_map r := m), x)"
  by (simp add: on_map_def)

interpretation handle: keyed_map "\<lambda>st. map_ok K (st (ref_map r))" "\<lambda>st. map_content (st (ref_map r))"
  "\<lambda>st. map_pairs (st (ref_map r))" "ref_insert K r" "ref_remove K r" max_pairs
  for K :: "'k::linorder key_impl" and r
proof
  fix st :: "('k, 'v) maps" and k v
  assume ok: "map_ok K (st (ref_map r))"
  then show "sorted_keys (map_pairs (st (ref_map r)))" "map_of (map_pairs (st (ref_map r))) = map_content (st (ref_map r))"
    by (rule lm.pairs_sorted lm.pairs_content)+
  show "\<exists>st'. ref_remove K r st k = Some (st', map_content (st (ref_map r)) k \<noteq> None) \<and>
      map_ok K (st' (ref_map r)) \<and> map_content (st' (ref_map r)) = (map_content (st (ref_map r)))(k := None)"
    using lm.del_law [OF ok, of k] by (fastforce simp: ref_remove_def on_map_def)
  assume "length (map_pairs (st (ref_map r))) < max_pairs"
  then show "\<exists>st'. ref_insert K r st k v = Some (st', map_content (st (ref_map r)) k = None) \<and>
      map_ok K (st' (ref_map r)) \<and> map_content (st' (ref_map r)) = (map_content (st (ref_map r)))(k \<mapsto> v)"
    using lm.put_law [OF ok, of k v] by (fastforce simp: ref_insert_def on_map_def)
qed

interpretation set_handle: keyed_set "\<lambda>st. map_ok K (st (ref_map (inner_ref r)))"
  "\<lambda>st. set_members (st (ref_map (inner_ref r)))" "sref_insert K r" "sref_remove K r" max_pairs
  for K :: "'k::linorder key_impl" and r
proof
  fix st :: "('k, unit) maps" and k
  let ?s = "st (ref_map (inner_ref r))"
  assume ok: "map_ok K ?s"
  then show "sorted_wrt (<) (set_members ?s)" by (rule ls.members_sorted)
  show "\<exists>st'. sref_remove K r st k = Some (st', k \<in> set (set_members ?s)) \<and>
      map_ok K (st' (ref_map (inner_ref r))) \<and>
      set (set_members (st' (ref_map (inner_ref r)))) = set (set_members ?s) - {k}"
    using ls.del_law [OF ok, of k] by (fastforce simp: sref_remove_def ref_remove_def on_map_def ls_remove_def)
  assume "length (set_members ?s) < max_pairs"
  then show "\<exists>st'. sref_insert K r st k = Some (st', k \<notin> set (set_members ?s)) \<and>
      map_ok K (st' (ref_map (inner_ref r))) \<and>
      set (set_members (st' (ref_map (inner_ref r)))) = insert k (set (set_members ?s))"
    using ls.add_law [OF ok, of k] by (fastforce simp: sref_insert_def ref_insert_def on_map_def ls_insert_def)
qed

text \<open>What any handle of the same map reads.\<close>

lemma ref_reads:
  assumes "map_ok K (st (ref_map r))"
  shows "ref_get K r st k = map_content (st (ref_map r)) k"
    "ref_contains_key K r st k \<longleftrightarrow> map_content (st (ref_map r)) k \<noteq> None"
    "ref_length r st = length (map_pairs (st (ref_map r)))"
    "ref_is_empty r st \<longleftrightarrow> map_pairs (st (ref_map r)) = []"
    "iter_collect (ref_iter r st) = map_pairs (st (ref_map r))"
    "ref_iter_sorted r st = map_pairs (st (ref_map r))"
    "range_collect (ref_range K r st lo hi) = filter (\<lambda>p. in_range lo hi (fst p)) (map_pairs (st (ref_map r)))"
  by (simp_all add: ref_get_def ref_contains_key_def ref_length_def ref_is_empty_def ref_iter_def
      ref_iter_sorted_def ref_range_def lm_contains_key_def lm_is_empty_def lm_get_content [OF assms]
      lm_traversals [OF assms])

text \<open>A call through one handle touches no other map.\<close>

lemma on_map_frame: "on_map r st call = Some (st', x) \<Longrightarrow> a \<noteq> ref_map r \<Longrightarrow> st' a = st a"
  by (auto simp: on_map_def)

end
