(* ===== verification/Storage.thy ===== *)
theory Storage
  imports Prelude Keys
begin

text \<open>
  What the storage engine \<^verbatim>\<open>scry-lsm\<close> uses of the standard library: little-endian integers,
  a directory of files, exact reads and the buffered writer; and \<^verbatim>\<open>src/error.rs\<close>. The files
  of the directory of the engine are a map from file names to contents. Reads and writes of the
  operating system do not fail, except that a file may not exist or may be too short.
\<close>

type_synonym bytes = "u8 list"
type_synonym disk = "string \<rightharpoonup> bytes"

subsection \<open>Errors\<close>

datatype io_error = NotFound | InvalidData string | UnexpectedEof

text \<open>The text of an I/O error belongs to the standard library.\<close>

fun io_error_display :: "io_error \<Rightarrow> string" where
  "io_error_display NotFound = ''entity not found''"
| "io_error_display (InvalidData msg) = msg"
| "io_error_display UnexpectedEof = ''failed to fill whole buffer''"

datatype lsm_error = Io io_error | Corruption string | Poisoned

fun lsm_error_display :: "lsm_error \<Rightarrow> string" where
  "lsm_error_display (Io e) = ''I/O error: '' @ io_error_display e"
| "lsm_error_display (Corruption msg) = ''corruption: '' @ msg"
| "lsm_error_display Poisoned = ''lock poisoned''"

fun lsm_error_source :: "lsm_error \<Rightarrow> io_error option" where
  "lsm_error_source (Io e) = Some e"
| "lsm_error_source (Corruption _) = None"
| "lsm_error_source Poisoned = None"

subsection \<open>Results\<close>

text \<open>The operator \<^verbatim>\<open>?\<close>, and the conversion of an I/O error it performs.\<close>

fun and_then :: "'e + 'a \<Rightarrow> ('a \<Rightarrow> 'e + 'b) \<Rightarrow> 'e + 'b" where
  "and_then (Inl e) f = Inl e"
| "and_then (Inr x) f = f x"

lemma and_then_eq_Inr: "and_then r f = Inr y \<longleftrightarrow> (\<exists>x. r = Inr x \<and> f x = Inr y)"
  by (cases r) simp_all

lemma and_then_cong [fundef_cong]:
  "r = r' \<Longrightarrow> (\<And>x. r' = Inr x \<Longrightarrow> f x = g x) \<Longrightarrow> and_then r f = and_then r' g"
  by (cases r') simp_all

definition io :: "io_error + 'a \<Rightarrow> lsm_error + 'a" where
  "io r = map_sum Io id r"

lemma io_simps [simp]: "io (Inl e) = Inl (Io e)" "io (Inr x) = Inr x"
  by (simp_all add: io_def)

subsection \<open>Little-endian integers\<close>

fun le_bytes :: "nat \<Rightarrow> nat \<Rightarrow> bytes" where
  "le_bytes 0 x = []"
| "le_bytes (Suc n) x = of_nat (x mod 256) # le_bytes n (x div 256)"

fun from_le :: "bytes \<Rightarrow> nat" where
  "from_le [] = 0"
| "from_le (b # bs) = unat b + 256 * from_le bs"

definition u32_le :: "u32 \<Rightarrow> bytes" where
  "u32_le w = le_bytes 4 (unat w)"

definition u64_le :: "u64 \<Rightarrow> bytes" where
  "u64_le w = le_bytes 8 (unat w)"

lemma length_le_bytes [simp]: "length (le_bytes n x) = n"
  by (induction n arbitrary: x) simp_all

lemma from_le_bytes: "x < 256 ^ n \<Longrightarrow> from_le (le_bytes n x) = x"
proof (induction n arbitrary: x)
  case (Suc n)
  then have "from_le (le_bytes n (x div 256)) = x div 256"
    by (intro Suc.IH) (simp add: less_mult_imp_div_less mult.commute)
  moreover have "unat (of_nat (x mod 256) :: u8) = x mod 256"
    by (simp add: unsigned_of_nat take_bit_nat_def)
  ultimately show ?case by simp
qed simp

lemma length_int_le [simp]: "length (u32_le w) = 4" "length (u64_le w') = 8"
  by (simp_all add: u32_le_def u64_le_def)

lemma from_u32_le [simp]: "from_le (u32_le w) = unat w"
  using unsigned_less [of w, where 'a = nat] by (simp add: u32_le_def from_le_bytes)

lemma from_u64_le [simp]: "from_le (u64_le w) = unat w"
  using unsigned_less [of w, where 'a = nat] by (simp add: u64_le_def from_le_bytes)

text \<open>\<^verbatim>\<open>len as u32\<close> keeps the low 32 bits.\<close>

definition len_u32 :: "'a list \<Rightarrow> u32" where
  "len_u32 xs = of_nat (length xs)"

lemma unat_len_u32: "length xs < 2 ^ 32 \<Longrightarrow> unat (len_u32 xs) = length xs"
  by (simp add: len_u32_def unsigned_of_nat take_bit_nat_eq_self)

subsection \<open>Exact reads\<close>

definition read_exact :: "nat \<Rightarrow> bytes \<Rightarrow> io_error + bytes \<times> bytes" where
  "read_exact n stream =
     (if n \<le> length stream then Inr (take n stream, drop n stream) else Inl UnexpectedEof)"

lemma read_exact_append: "length a = n \<Longrightarrow> read_exact n (a @ b) = Inr (a, b)"
  by (simp add: read_exact_def)

lemma read_exact_1: "read_exact (Suc 0) (b # s) = Inr ([b], s)"
  by (simp add: read_exact_def)

lemma read_exact_Inr: "read_exact n s = Inr (a, b) \<longleftrightarrow> n \<le> length s \<and> a = take n s \<and> b = drop n s"
  by (auto simp: read_exact_def)

subsection \<open>Buffered writer\<close>

text \<open>
  \<^verbatim>\<open>BufWriter\<close> over a file: the bytes not yet handed to the file. Data that does not fit into
  the buffer pushes the buffer out; data as long as the buffer goes straight to the file.
\<close>

definition buf_capacity :: nat where
  "buf_capacity = 8192"

definition disk_append :: "disk \<Rightarrow> string \<Rightarrow> bytes \<Rightarrow> disk" where
  "disk_append d p bs = d(p \<mapsto> (case d p of None \<Rightarrow> [] | Some old \<Rightarrow> old) @ bs)"

definition write_all :: "string \<Rightarrow> bytes \<Rightarrow> bytes \<times> disk \<Rightarrow> bytes \<times> disk" where
  "write_all p bs = (\<lambda>(buf, d).
     let (buf, d) =
       (if length bs < buf_capacity - length buf then (buf, d)
        else if length bs > buf_capacity - length buf then ([], disk_append d p buf)
        else (buf, d))
     in if length bs \<ge> buf_capacity then (buf, disk_append d p bs) else (buf @ bs, d))"

definition flush_buf :: "string \<Rightarrow> bytes \<times> disk \<Rightarrow> bytes \<times> disk" where
  "flush_buf p = (\<lambda>(buf, d). ([], disk_append d p buf))"

text \<open>All bytes handed over so far: those in the file, then those in the buffer.\<close>

definition written :: "string \<Rightarrow> bytes \<times> disk \<Rightarrow> bytes" where
  "written p = (\<lambda>(buf, d). (case d p of None \<Rightarrow> [] | Some old \<Rightarrow> old) @ buf)"

lemma written_write_all:
  assumes "length (fst s) \<le> buf_capacity"
  shows "written p (write_all p bs s) = written p s @ bs"
    "length (fst (write_all p bs s)) \<le> buf_capacity"
    "p' \<noteq> p \<Longrightarrow> snd (write_all p bs s) p' = snd s p'"
proof -
  have "fst s = []" if "buf_capacity \<le> buf_capacity - length (fst s)"
    using that by (cases "fst s") (simp_all add: buf_capacity_def)
  then show "written p (write_all p bs s) = written p s @ bs"
    "length (fst (write_all p bs s)) \<le> buf_capacity"
    "p' \<noteq> p \<Longrightarrow> snd (write_all p bs s) p' = snd s p'"
    using assms by (auto simp: written_def write_all_def disk_append_def Let_def split: prod.splits)
qed

lemma written_flush:
  "written p (flush_buf p s) = written p s" "fst (flush_buf p s) = []"
  "snd (flush_buf p s) p = Some (written p s)"
  "p' \<noteq> p \<Longrightarrow> snd (flush_buf p s) p' = snd s p'"
  by (auto simp: written_def flush_buf_def disk_append_def split: prod.splits)

end
