(* ===== verification/Memtable.thy ===== *)
theory Memtable
  imports LearnedMap_Facts Storage
begin

text \<open>
  \<^verbatim>\<open>src/memtable/\<close>: the trait of the in-memory buffers, as a record of its methods, and its
  three implementations. The one over \<^verbatim>\<open>BTreeMap\<close> keeps the sorted list of its entries. The one
  over \<^verbatim>\<open>SkipMap\<close>, a type of another crate, takes the operations of that type as a parameter.
  Byte counts wrap around like \<^verbatim>\<open>fetch_add\<close>.
\<close>

record 'm memtable_ops =
  mt_insert :: "'m \<Rightarrow> bytes \<Rightarrow> bytes \<Rightarrow> 'm option"
  mt_get :: "'m \<Rightarrow> bytes \<Rightarrow> bytes option"
  mt_delete :: "'m \<Rightarrow> bytes \<Rightarrow> 'm option"
  mt_len :: "'m \<Rightarrow> nat"
  mt_bytes :: "'m \<Rightarrow> usize"
  mt_drain :: "'m \<Rightarrow> (bytes \<times> bytes) list \<times> 'm"

definition mt_is_empty :: "'m memtable_ops \<Rightarrow> 'm \<Rightarrow> bool" where
  "mt_is_empty ops m \<longleftrightarrow> mt_len ops m = 0"

subsection \<open>LearnedMemtable\<close>

record learned_memtable =
  lmt_map :: "(bytes, bytes) learned_map"
  lmt_byte_count :: usize

definition lmt_new :: learned_memtable where
  "lmt_new = \<lparr>lmt_map = lm_new, lmt_byte_count = 0\<rparr>"

definition lmt_insert :: "learned_memtable \<Rightarrow> bytes \<Rightarrow> bytes \<Rightarrow> learned_memtable option" where
  "lmt_insert t key value =
     (let added_bytes = of_nat (length key + length value)
      in Option.bind (lm_insert vec_u8_key (lmt_map t) key value) (\<lambda>(m, is_new).
           if is_new then Some (t\<lparr>lmt_map := m, lmt_byte_count := lmt_byte_count t + added_bytes\<rparr>)
           else
             Option.bind (lm_remove vec_u8_key m key) (\<lambda>(m, _).
               Option.bind (lm_insert vec_u8_key m key value) (\<lambda>(m, _).
                 Some (t\<lparr>lmt_map := m\<rparr>)))))"

definition lmt_get :: "learned_memtable \<Rightarrow> bytes \<Rightarrow> bytes option" where
  "lmt_get t key = lm_get vec_u8_key (lmt_map t) key"

definition lmt_delete :: "learned_memtable \<Rightarrow> bytes \<Rightarrow> learned_memtable option" where
  "lmt_delete t key = lmt_insert t key []"

definition lmt_len :: "learned_memtable \<Rightarrow> nat" where
  "lmt_len t = lm_length (lmt_map t)"

definition lmt_drain_sorted :: "learned_memtable \<Rightarrow> (bytes \<times> bytes) list \<times> learned_memtable" where
  "lmt_drain_sorted t =
     (let (m, entries) = lm_drain (lmt_map t)
      in (entries, t\<lparr>lmt_map := m, lmt_byte_count := 0\<rparr>))"

definition learned_ops :: "learned_memtable memtable_ops" where
  "learned_ops =
     \<lparr>mt_insert = lmt_insert, mt_get = lmt_get, mt_delete = lmt_delete, mt_len = lmt_len,
      mt_bytes = lmt_byte_count, mt_drain = lmt_drain_sorted\<rparr>"

subsection \<open>BTreeMemtable\<close>

record btree_memtable =
  bt_map :: "(bytes \<times> bytes) list"
  bt_byte_count :: usize

definition bt_new :: btree_memtable where
  "bt_new = \<lparr>bt_map = [], bt_byte_count = 0\<rparr>"

fun btree_insert :: "'k::linorder \<Rightarrow> 'v \<Rightarrow> ('k \<times> 'v) list \<Rightarrow> ('k \<times> 'v) list" where
  "btree_insert k v [] = [(k, v)]"
| "btree_insert k v ((k', v') # es) =
     (if k < k' then (k, v) # (k', v') # es
      else if k = k' then (k, v) # es
      else (k', v') # btree_insert k v es)"

definition bt_insert :: "btree_memtable \<Rightarrow> bytes \<Rightarrow> bytes \<Rightarrow> btree_memtable option" where
  "bt_insert t key value =
     (let added_bytes = of_nat (length key + length value)
      in Some (t\<lparr>bt_map := btree_insert key value (bt_map t),
                 bt_byte_count := bt_byte_count t + added_bytes\<rparr>))"

definition bt_get :: "btree_memtable \<Rightarrow> bytes \<Rightarrow> bytes option" where
  "bt_get t key = map_of (bt_map t) key"

definition bt_delete :: "btree_memtable \<Rightarrow> bytes \<Rightarrow> btree_memtable option" where
  "bt_delete t key = bt_insert t key []"

definition bt_len :: "btree_memtable \<Rightarrow> nat" where
  "bt_len t = length (bt_map t)"

definition bt_drain_sorted :: "btree_memtable \<Rightarrow> (bytes \<times> bytes) list \<times> btree_memtable" where
  "bt_drain_sorted t = (let old = bt_map t in (old, t\<lparr>bt_map := [], bt_byte_count := 0\<rparr>))"

definition btree_ops :: "btree_memtable memtable_ops" where
  "btree_ops =
     \<lparr>mt_insert = bt_insert, mt_get = bt_get, mt_delete = bt_delete, mt_len = bt_len,
      mt_bytes = bt_byte_count, mt_drain = bt_drain_sorted\<rparr>"

subsection \<open>SkipListMemtable\<close>

text \<open>What the memtable calls of the skip list, and what its documentation promises.\<close>

record 's skip_ops =
  sk_insert :: "'s \<Rightarrow> bytes \<Rightarrow> bytes \<Rightarrow> 's"
  sk_get :: "'s \<Rightarrow> bytes \<Rightarrow> bytes option"
  sk_remove :: "'s \<Rightarrow> bytes \<Rightarrow> 's"
  sk_len :: "'s \<Rightarrow> nat"
  sk_iter :: "'s \<Rightarrow> (bytes \<times> bytes) list"

definition skip_laws :: "'s skip_ops \<Rightarrow> bool" where
  "skip_laws sk \<longleftrightarrow>
     (\<forall>s. sorted_keys (sk_iter sk s)) \<and>
     (\<forall>s k. sk_get sk s k = map_of (sk_iter sk s) k) \<and>
     (\<forall>s. sk_len sk s = length (sk_iter sk s)) \<and>
     (\<forall>s k v. map_of (sk_iter sk (sk_insert sk s k v)) = (map_of (sk_iter sk s))(k \<mapsto> v)) \<and>
     (\<forall>s k. map_of (sk_iter sk (sk_remove sk s k)) = (map_of (sk_iter sk s))(k := None))"

record 's skip_memtable =
  sl_map :: 's
  sl_byte_count :: usize

definition sl_new :: "'s \<Rightarrow> 's skip_memtable" where
  "sl_new s0 = \<lparr>sl_map = s0, sl_byte_count = 0\<rparr>"

definition sl_insert :: "'s skip_ops \<Rightarrow> 's skip_memtable \<Rightarrow> bytes \<Rightarrow> bytes \<Rightarrow> 's skip_memtable option" where
  "sl_insert sk t key value =
     (let added_bytes = of_nat (length key + length value)
      in Some (t\<lparr>sl_map := sk_insert sk (sl_map t) key value,
                 sl_byte_count := sl_byte_count t + added_bytes\<rparr>))"

definition sl_get :: "'s skip_ops \<Rightarrow> 's skip_memtable \<Rightarrow> bytes \<Rightarrow> bytes option" where
  "sl_get sk t key = sk_get sk (sl_map t) key"

definition sl_delete :: "'s skip_ops \<Rightarrow> 's skip_memtable \<Rightarrow> bytes \<Rightarrow> 's skip_memtable option" where
  "sl_delete sk t key = sl_insert sk t key []"

definition sl_len :: "'s skip_ops \<Rightarrow> 's skip_memtable \<Rightarrow> nat" where
  "sl_len sk t = sk_len sk (sl_map t)"

definition sl_drain_sorted ::
    "'s skip_ops \<Rightarrow> 's skip_memtable \<Rightarrow> (bytes \<times> bytes) list \<times> 's skip_memtable" where
  "sl_drain_sorted sk t =
     (let entries = sk_iter sk (sl_map t)
      in (entries, t\<lparr>sl_map := fold (\<lambda>(key, _) s. sk_remove sk s key) entries (sl_map t),
                     sl_byte_count := 0\<rparr>))"

definition skiplist_ops :: "'s skip_ops \<Rightarrow> 's skip_memtable memtable_ops" where
  "skiplist_ops sk =
     \<lparr>mt_insert = sl_insert sk, mt_get = sl_get sk, mt_delete = sl_delete sk, mt_len = sl_len sk,
      mt_bytes = sl_byte_count, mt_drain = sl_drain_sorted sk\<rparr>"

subsection \<open>The contract of the trait\<close>

locale write_buffer =
  fixes ops :: "'m memtable_ops"
    and ok :: "'m \<Rightarrow> bool"
    and content :: "'m \<Rightarrow> bytes \<Rightarrow> bytes option"
    and room :: nat
  assumes get_law: "ok m \<Longrightarrow> mt_get ops m k = content m k"
    and insert_law: "ok m \<Longrightarrow> card (dom (content m)) < room \<Longrightarrow>
      \<exists>m'. mt_insert ops m k v = Some m' \<and> ok m' \<and> content m' = (content m)(k \<mapsto> v)"
    and delete_law: "mt_delete ops m k = mt_insert ops m k []"
    and len_law: "ok m \<Longrightarrow> mt_len ops m = card (dom (content m)) \<and> finite (dom (content m))"
    and drain_law: "ok m \<Longrightarrow> \<exists>es m'. mt_drain ops m = (es, m') \<and> ok m' \<and> content m' = Map.empty \<and>
      sorted_keys es \<and> map_of es = content m \<and> mt_bytes ops m' = 0"
begin

lemma finite_content: "ok m \<Longrightarrow> finite (dom (content m))"
  using len_law by blast

lemma insert_card:
  "ok m \<Longrightarrow> card (dom ((content m)(k \<mapsto> v))) \<le> Suc (card (dom (content m)))"
  by (simp add: finite_content card_insert_if)

text \<open>A deleted key reads as the empty value.\<close>

lemma delete_get:
  assumes "ok m" "card (dom (content m)) < room"
  shows "\<exists>m'. mt_delete ops m k = Some m' \<and> ok m' \<and> mt_get ops m' k = Some []"
  using insert_law [OF assms, of k "[]"] get_law by (auto simp: delete_law)

text \<open>A sequence of insertions, as at recovery.\<close>

lemma insert_all:
  assumes "ok m" "card (dom (content m)) + length kvs \<le> room"
  shows "\<exists>m'. fold_returns (\<lambda>(k, v) m. mt_insert ops m k v) kvs m = Some m' \<and> ok m' \<and>
    content m' = content m ++ map_of (rev kvs)"
  using assms
proof (induction kvs arbitrary: m)
  case (Cons kv kvs)
  obtain k v where kv: "kv = (k, v)" by fastforce
  obtain m1 where m1: "mt_insert ops m k v = Some m1" "ok m1" "content m1 = (content m)(k \<mapsto> v)"
    using insert_law [of m k v] Cons.prems by auto
  have "card (dom (content m1)) + length kvs \<le> room"
    using insert_card [OF Cons.prems(1), of k v] Cons.prems(2) m1(3) by simp
  from Cons.IH [OF m1(2) this] m1 show ?case
    by (fastforce simp: kv map_add_def fun_eq_iff split: option.splits)
qed simp

end

subsection \<open>The implementations keep the contract\<close>

definition lmt_ok :: "learned_memtable \<Rightarrow> bool" where
  "lmt_ok t \<longleftrightarrow> map_ok vec_u8_key (lmt_map t)"

definition lmt_content :: "learned_memtable \<Rightarrow> bytes \<Rightarrow> bytes option" where
  "lmt_content t = map_content (lmt_map t)"

lemma map_content_length: "map_ok K m \<Longrightarrow> card (dom (map_content m)) = length (map_pairs m)"
  by (simp add: lm.length_pairs)

lemma lmt_insert_correct:
  assumes "lmt_ok t" "card (dom (lmt_content t)) < max_pairs"
  shows "\<exists>t'. lmt_insert t k v = Some t' \<and> lmt_ok t' \<and> lmt_content t' = (lmt_content t)(k \<mapsto> v) \<and>
    lmt_byte_count t' = lmt_byte_count t +
      (if lmt_content t k = None then of_nat (length k + length v) else 0)"
proof -
  have ok: "map_ok vec_u8_key (lmt_map t)" using assms(1) by (simp add: lmt_ok_def)
  have room: "length (map_pairs (lmt_map t)) < max_pairs"
    using assms(2) map_content_length [OF ok] by (simp add: lmt_content_def)
  obtain m1 where m1: "lm_insert vec_u8_key (lmt_map t) k v = Some (m1, lmt_content t k = None)"
    "map_ok vec_u8_key m1" "map_content m1 = (lmt_content t)(k \<mapsto> v)"
    using lm.put_law [OF ok room, of k v] by (auto simp: lmt_content_def)
  show ?thesis
  proof (cases "lmt_content t k = None")
    case True
    then show ?thesis using m1 by (auto simp: lmt_insert_def lmt_ok_def lmt_content_def)
  next
    case False
    obtain m2 where m2: "lm_remove vec_u8_key m1 k = Some (m2, True)" "map_ok vec_u8_key m2"
      "map_content m2 = (lmt_content t)(k := None)"
      using lm.del_law [OF m1(2), of k] m1(3) by auto
    have "length (map_pairs m2) < max_pairs"
      using lm.length_update [OF ok m2(2), of k None] m2(3) room by (auto simp: lmt_content_def split: if_splits)
    then obtain m3 b where "lm_insert vec_u8_key m2 k v = Some (m3, b)" "map_ok vec_u8_key m3"
      "map_content m3 = (lmt_content t)(k \<mapsto> v)"
      using lm.put_law [OF m2(2), of k v] m2(3) by auto
    then show ?thesis using m1(1) m2(1) False by (auto simp: lmt_insert_def lmt_ok_def lmt_content_def)
  qed
qed

interpretation learned: write_buffer learned_ops lmt_ok lmt_content max_pairs
proof
  fix m :: learned_memtable and k v :: bytes
  show "mt_delete learned_ops m k = mt_insert learned_ops m k []"
    by (simp add: learned_ops_def lmt_delete_def)
  assume ok: "lmt_ok m"
  then have ok': "map_ok vec_u8_key (lmt_map m)" by (simp add: lmt_ok_def)
  show "mt_get learned_ops m k = lmt_content m k"
    by (simp add: learned_ops_def lmt_get_def lmt_content_def lm_get_content [OF ok'])
  show "mt_len learned_ops m = card (dom (lmt_content m)) \<and> finite (dom (lmt_content m))"
    by (simp add: learned_ops_def lmt_len_def lm_traversals(6) [OF ok'] map_content_length [OF ok']
        lmt_content_def) (simp add: map_content_def finite_dom_map_of)
  show "\<exists>es m'. mt_drain learned_ops m = (es, m') \<and> lmt_ok m' \<and> lmt_content m' = Map.empty \<and>
      sorted_keys es \<and> map_of es = lmt_content m \<and> mt_bytes learned_ops m' = 0"
    using lm_drain_correct [OF ok'] map_pairs_sorted [OF ok']
    by (auto simp: learned_ops_def lmt_drain_sorted_def lmt_ok_def lmt_content_def map_content_def
        split: prod.splits)
  assume "card (dom (lmt_content m)) < max_pairs"
  from lmt_insert_correct [OF ok this, of k v]
  show "\<exists>m'. mt_insert learned_ops m k v = Some m' \<and> lmt_ok m' \<and> lmt_content m' = (lmt_content m)(k \<mapsto> v)"
    by (auto simp: learned_ops_def)
qed

lemma btree_insert_correct:
  assumes "sorted_keys es"
  shows "sorted_keys (btree_insert k v es)" "map_of (btree_insert k v es) = (map_of es)(k \<mapsto> v)"
    "fst ` set (btree_insert k v es) = insert k (fst ` set es)"
  using assms by (induction k v es rule: btree_insert.induct) auto

lemma length_sorted_keys: "sorted_keys es \<Longrightarrow> length es = card (dom (map_of es))"
  using strict_sorted_distinct [of "map fst es"]
  by (simp add: dom_map_of_conv_image_fst sorted_wrt_map distinct_card flip: set_map)

interpretation btree: write_buffer btree_ops "\<lambda>t. sorted_keys (bt_map t)" "\<lambda>t. map_of (bt_map t)" max_pairs
  by unfold_locales (auto simp: btree_ops_def bt_get_def bt_insert_def bt_delete_def bt_len_def
      bt_drain_sorted_def btree_insert_correct length_sorted_keys finite_dom_map_of)

lemma skip_remove_all:
  assumes "skip_laws sk"
  shows "map_of (sk_iter sk (fold (\<lambda>(key, _) s. sk_remove sk s key) es s)) k =
    (if k \<in> fst ` set es then None else map_of (sk_iter sk s) k)"
  using assms by (induction es arbitrary: s) (auto simp: skip_laws_def)

interpretation skiplist: write_buffer "skiplist_ops sk" "\<lambda>_. skip_laws sk"
    "\<lambda>t. map_of (sk_iter sk (sl_map t))" max_pairs for sk :: "'s skip_ops"
proof
  fix m :: "'s skip_memtable" and k v :: bytes
  show "mt_delete (skiplist_ops sk) m k = mt_insert (skiplist_ops sk) m k []"
    by (simp add: skiplist_ops_def sl_delete_def)
  assume laws: "skip_laws sk"
  then show "mt_get (skiplist_ops sk) m k = map_of (sk_iter sk (sl_map m)) k"
    by (simp add: skiplist_ops_def sl_get_def skip_laws_def)
  show "mt_len (skiplist_ops sk) m = card (dom (map_of (sk_iter sk (sl_map m)))) \<and>
      finite (dom (map_of (sk_iter sk (sl_map m))))"
    using laws by (simp add: skiplist_ops_def sl_len_def skip_laws_def length_sorted_keys finite_dom_map_of)
  have "map_of (sk_iter sk (fold (\<lambda>(key, _) s. sk_remove sk s key) (sk_iter sk (sl_map m)) (sl_map m))) = Map.empty"
    by (rule ext) (simp add: skip_remove_all [OF laws] map_of_eq_None_iff)
  then show "\<exists>es m'. mt_drain (skiplist_ops sk) m = (es, m') \<and> skip_laws sk \<and>
      map_of (sk_iter sk (sl_map m')) = Map.empty \<and> sorted_keys es \<and>
      map_of es = map_of (sk_iter sk (sl_map m)) \<and> mt_bytes (skiplist_ops sk) m' = 0"
    using laws by (simp add: skiplist_ops_def sl_drain_sorted_def skip_laws_def Let_def)
  show "\<exists>m'. mt_insert (skiplist_ops sk) m k v = Some m' \<and> skip_laws sk \<and>
      map_of (sk_iter sk (sl_map m')) = (map_of (sk_iter sk (sl_map m)))(k \<mapsto> v)"
    using laws by (simp add: skiplist_ops_def sl_insert_def skip_laws_def Let_def)
qed

end
