(* ===== verification/Wal.thy ===== *)
theory Wal
  imports Storage
begin

text \<open>
  \<^verbatim>\<open>src/wal.rs\<close>: the write-ahead log of the engine. A log is the name of its file and the
  buffer of its writer; its operations act on the directory. A crash loses the buffer and
  keeps the file.
\<close>

definition record_put :: u8 where "record_put = 0x01"
definition record_delete :: u8 where "record_delete = 0x02"

datatype wal_record = WalPut bytes bytes | WalDelete bytes

record wal =
  wal_path :: string
  wal_buffer :: bytes

subsection \<open>Writing\<close>

definition wal_open :: "string \<Rightarrow> disk \<Rightarrow> wal \<times> disk" where
  "wal_open path d =
     (\<lparr>wal_path = path, wal_buffer = []\<rparr>, if d path = None then d(path \<mapsto> []) else d)"

definition wal_write :: "bytes \<Rightarrow> wal \<times> disk \<Rightarrow> wal \<times> disk" where
  "wal_write bs = (\<lambda>(w, d).
     let (buf, d) = write_all (wal_path w) bs (wal_buffer w, d) in (w\<lparr>wal_buffer := buf\<rparr>, d))"

definition append_put :: "bytes \<Rightarrow> bytes \<Rightarrow> wal \<times> disk \<Rightarrow> wal \<times> disk" where
  "append_put key value s =
     (let s = wal_write [record_put] s;
          s = wal_write (u32_le (len_u32 key)) s;
          s = wal_write key s;
          s = wal_write (u32_le (len_u32 value)) s
      in wal_write value s)"

definition append_delete :: "bytes \<Rightarrow> wal \<times> disk \<Rightarrow> wal \<times> disk" where
  "append_delete key s =
     (let s = wal_write [record_delete] s;
          s = wal_write (u32_le (len_u32 key)) s;
          s = wal_write key s
      in wal_write (u32_le 0) s)"

definition wal_sync :: "wal \<times> disk \<Rightarrow> wal \<times> disk" where
  "wal_sync = (\<lambda>(w, d).
     let (buf, d) = flush_buf (wal_path w) (wal_buffer w, d) in (w\<lparr>wal_buffer := buf\<rparr>, d))"

definition wal_truncate :: "wal \<times> disk \<Rightarrow> wal \<times> disk" where
  "wal_truncate s = (let (w, d) = wal_sync s in (w\<lparr>wal_buffer := []\<rparr>, d(wal_path w \<mapsto> [])))"

subsection \<open>Recovery\<close>

definition read_length_prefixed :: "bytes \<Rightarrow> io_error + bytes \<times> bytes" where
  "read_length_prefixed stream =
     and_then (read_exact 4 stream) (\<lambda>(len_buf, stream). read_exact (from_le len_buf) stream)"

lemma read_length_prefixed_less:
  "read_length_prefixed s = Inr (a, s') \<Longrightarrow> length s' < length s"
  by (auto simp: read_length_prefixed_def and_then_eq_Inr read_exact_Inr)

function wal_replay :: "bytes \<Rightarrow> wal_record list \<Rightarrow> lsm_error + wal_record list" where
  "wal_replay stream records =
     (case read_exact 1 stream of
        Inl _ \<Rightarrow> Inr records
      | Inr (type_buf, stream') \<Rightarrow>
          (case read_length_prefixed stream' of
             Inl _ \<Rightarrow> Inr records
           | Inr (key, stream'') \<Rightarrow>
               (case read_length_prefixed stream'' of
                  Inl _ \<Rightarrow> Inr records
                | Inr (value, stream''') \<Rightarrow>
                    if type_buf ! 0 = record_put
                    then wal_replay stream''' (records @ [WalPut key value])
                    else if type_buf ! 0 = record_delete
                    then wal_replay stream''' (records @ [WalDelete key])
                    else Inl (Corruption ''unknown WAL record type''))))"
  by pat_completeness auto
termination
  by (relation "measure (\<lambda>(s, _). length s)")
    (auto dest!: read_length_prefixed_less simp: read_exact_Inr)

declare wal_replay.simps [simp del]

definition wal_recover :: "string \<Rightarrow> disk \<Rightarrow> lsm_error + wal_record list" where
  "wal_recover path d = (case d path of None \<Rightarrow> Inr [] | Some file \<Rightarrow> wal_replay file [])"

subsection \<open>The bytes of a record\<close>

fun encode_record :: "wal_record \<Rightarrow> bytes" where
  "encode_record (WalPut key value) =
     record_put # u32_le (len_u32 key) @ key @ u32_le (len_u32 value) @ value"
| "encode_record (WalDelete key) = record_delete # u32_le (len_u32 key) @ key @ u32_le 0"

definition encode_records :: "wal_record list \<Rightarrow> bytes" where
  "encode_records rs = concat (map encode_record rs)"

fun append_record :: "wal_record \<Rightarrow> wal \<times> disk \<Rightarrow> wal \<times> disk" where
  "append_record (WalPut key value) = append_put key value"
| "append_record (WalDelete key) = append_delete key"

text \<open>Lengths fit into the four bytes of their prefix.\<close>

fun record_fits :: "wal_record \<Rightarrow> bool" where
  "record_fits (WalPut key value) \<longleftrightarrow> length key < 2 ^ 32 \<and> length value < 2 ^ 32"
| "record_fits (WalDelete key) \<longleftrightarrow> length key < 2 ^ 32"

definition wal_written :: "wal \<times> disk \<Rightarrow> bytes" where
  "wal_written = (\<lambda>(w, d). written (wal_path w) (wal_buffer w, d))"

definition wal_ok :: "wal \<times> disk \<Rightarrow> bool" where
  "wal_ok = (\<lambda>(w, d). length (wal_buffer w) \<le> buf_capacity \<and> d (wal_path w) \<noteq> None)"

lemma wal_write_correct:
  assumes "wal_ok s"
  shows "wal_ok (wal_write bs s)" "wal_written (wal_write bs s) = wal_written s @ bs"
    "wal_path (fst (wal_write bs s)) = wal_path (fst s)"
    "p \<noteq> wal_path (fst s) \<Longrightarrow> snd (wal_write bs s) p = snd s p"
proof -
  obtain w d where s: "s = (w, d)" by fastforce
  obtain buf d' where wr: "write_all (wal_path w) bs (wal_buffer w, d) = (buf, d')" by fastforce
  have "d' (wal_path w) \<noteq> None"
    using assms wr by (auto simp: s wal_ok_def write_all_def disk_append_def Let_def split: if_splits)
  then show "wal_ok (wal_write bs s)" "wal_written (wal_write bs s) = wal_written s @ bs"
    "wal_path (fst (wal_write bs s)) = wal_path (fst s)"
    "p \<noteq> wal_path (fst s) \<Longrightarrow> snd (wal_write bs s) p = snd s p"
    using written_write_all(1,2) [of "(wal_buffer w, d)" "wal_path w" bs]
      written_write_all(3) [of "(wal_buffer w, d)" p "wal_path w" bs] assms
    by (simp_all add: s wal_write_def wr wal_written_def wal_ok_def)
qed

lemma append_record_correct:
  assumes "wal_ok s"
  shows "wal_ok (append_record r s)" "wal_written (append_record r s) = wal_written s @ encode_record r"
    "wal_path (fst (append_record r s)) = wal_path (fst s)"
    "p \<noteq> wal_path (fst s) \<Longrightarrow> snd (append_record r s) p = snd s p"
  using assms by (cases r; simp add: append_put_def append_delete_def wal_write_correct)+

lemma wal_sync_correct:
  assumes "wal_ok s"
  shows "wal_ok (wal_sync s)" "wal_written (wal_sync s) = wal_written s"
    "wal_path (fst (wal_sync s)) = wal_path (fst s)"
    "snd (wal_sync s) (wal_path (fst s)) = Some (wal_written s)"
    "p \<noteq> wal_path (fst s) \<Longrightarrow> snd (wal_sync s) p = snd s p"
  using written_flush(1-3) [of "wal_path (fst s)" "(wal_buffer (fst s), snd s)"]
    written_flush(4) [of p "wal_path (fst s)" "(wal_buffer (fst s), snd s)"] assms
  by (auto simp: wal_sync_def wal_ok_def wal_written_def buf_capacity_def split: prod.splits)

lemma append_records_correct:
  assumes "wal_ok s"
  shows "wal_ok (fold append_record rs s)"
    "wal_written (fold append_record rs s) = wal_written s @ encode_records rs"
    "wal_path (fst (fold append_record rs s)) = wal_path (fst s)"
  using assms by (induction rs arbitrary: s) (simp_all add: encode_records_def append_record_correct)

lemma wal_open_correct:
  "wal_ok (wal_open p d)" "wal_path (fst (wal_open p d)) = p"
  "wal_written (wal_open p d) = (case d p of None \<Rightarrow> [] | Some file \<Rightarrow> file)"
  by (simp_all add: wal_open_def wal_ok_def wal_written_def written_def split: option.splits)

text \<open>What is on disk at any time is a prefix of what was written.\<close>

lemma wal_file_prefix:
  assumes "wal_ok s"
  shows "\<exists>file. snd s (wal_path (fst s)) = Some file \<and> (\<exists>rest. wal_written s = file @ rest)"
  using assms by (auto simp: wal_ok_def wal_written_def written_def split: prod.splits)

subsection \<open>Replaying\<close>

lemma read_length_prefixed_append:
  "length xs < 2 ^ 32 \<Longrightarrow> read_length_prefixed (u32_le (len_u32 xs) @ xs @ rest) = Inr (xs, rest)"
  by (simp add: read_length_prefixed_def read_exact_append [of _ 4] unat_len_u32 read_exact_append)

lemma replay_record:
  assumes "record_fits r"
  shows "wal_replay (encode_record r @ rest) records = wal_replay rest (records @ [r])"
proof -
  have "read_length_prefixed (u32_le 0 @ rest) = Inr ([], rest)"
    using read_length_prefixed_append [of "[]" rest] by (simp add: len_u32_def)
  then show ?thesis using assms
    by (cases r) (simp_all add: wal_replay.simps [of "_ # _"] read_exact_def
        read_length_prefixed_append record_put_def record_delete_def)
qed

lemma replay_records:
  "list_all record_fits rs \<Longrightarrow>
     wal_replay (encode_records rs @ rest) records = wal_replay rest (records @ rs)"
  by (induction rs arbitrary: records) (simp_all add: encode_records_def replay_record)

lemma read_length_prefixed_short:
  assumes "length xs < 2 ^ 32" "n < 4 + length xs"
  shows "\<exists>e. read_length_prefixed (take n (u32_le (len_u32 xs) @ xs)) = Inl e"
proof (cases "n < 4")
  case False
  then have "take n (u32_le (len_u32 xs) @ xs) = u32_le (len_u32 xs) @ take (n - 4) xs" by simp
  then show ?thesis using assms False
    by (simp add: read_length_prefixed_def read_exact_append [of _ 4] unat_len_u32) (simp add: read_exact_def)
qed (simp add: read_length_prefixed_def read_exact_def)

text \<open>A record cut short is skipped.\<close>

lemma replay_torn:
  assumes "record_fits r" "n < length (encode_record r)"
  shows "wal_replay (take n (encode_record r)) records = Inr records"
proof -
  have torn: "wal_replay (take n (t # u32_le (len_u32 k) @ k @ u32_le (len_u32 v) @ v)) records = Inr records"
    if len: "length k < 2 ^ 32" "length v < 2 ^ 32" and n: "n < 9 + length k + length v" for t k v
  proof (cases n)
    case (Suc m)
    show ?thesis
    proof (cases "m < 4 + length k")
      case True
      then obtain e where "read_length_prefixed (take m (u32_le (len_u32 k) @ k)) = Inl e"
        using read_length_prefixed_short [OF len(1)] by blast
      moreover have "take m (u32_le (len_u32 k) @ k @ u32_le (len_u32 v) @ v) =
          take m (u32_le (len_u32 k) @ k)" using True by simp
      ultimately show ?thesis
        by (simp add: Suc wal_replay.simps [of "_ # _"] read_exact_def del: take_append)
    next
      case False
      let ?l = "m - (4 + length k)"
      have "take m (u32_le (len_u32 k) @ k @ u32_le (len_u32 v) @ v) =
          u32_le (len_u32 k) @ k @ take ?l (u32_le (len_u32 v) @ v)"
        using False by (simp add: diff_diff_eq)
      moreover have "?l < 4 + length v" using n Suc False by simp
      moreover from this obtain e where "read_length_prefixed (take ?l (u32_le (len_u32 v) @ v)) = Inl e"
        using read_length_prefixed_short [OF len(2)] by blast
      ultimately show ?thesis using len
        by (simp add: Suc wal_replay.simps [of "_ # _"] read_exact_1 read_length_prefixed_append
            del: take_append)
    qed
  qed (simp add: wal_replay.simps read_exact_def)
  show ?thesis
  proof (cases r)
    case (WalPut k v)
    then show ?thesis using torn [of k v record_put] assms by simp
  next
    case (WalDelete k)
    then show ?thesis using torn [of k "[]" record_delete] assms by (simp add: len_u32_def)
  qed
qed

text \<open>Any prefix of a log replays to a prefix of its records.\<close>

lemma replay_prefix:
  assumes "list_all record_fits rs" "encode_records rs = dat @ rest"
  shows "\<exists>n. wal_replay dat recs = Inr (recs @ take n rs)"
  using assms
proof (induction rs arbitrary: dat recs)
  case Nil
  then show ?case by (simp add: encode_records_def wal_replay.simps read_exact_def)
next
  case (Cons r rs)
  have enc: "encode_record r @ encode_records rs = dat @ rest"
    using Cons.prems(2) by (simp add: encode_records_def)
  show ?case
  proof (cases "length dat < length (encode_record r)")
    case True
    then have "dat = take (length dat) (encode_record r)"
      using arg_cong [OF enc, of "take (length dat)"] by simp
    then show ?thesis using replay_torn [of r "length dat" recs] True Cons.prems(1)
      by (intro exI [of _ 0]) simp
  next
    case False
    then obtain dat' where dat: "dat = encode_record r @ dat'"
      using enc by (auto simp: append_eq_append_conv2)
    then have "encode_records rs = dat' @ rest" using enc by simp
    then obtain n where "wal_replay dat' (recs @ [r]) = Inr ((recs @ [r]) @ take n rs)"
      using Cons.IH [of dat' "recs @ [r]"] Cons.prems(1) by auto
    then show ?thesis using Cons.prems(1) by (intro exI [of _ "Suc n"]) (simp add: dat replay_record)
  qed
qed

end
