(* ===== verification/Sstable.thy ===== *)
theory Sstable
  imports Storage
begin

text \<open>
  \<^verbatim>\<open>src/sstable/\<close>: the sorted table files, their writer and their reader. The bytes handed to
  the writer reach the file when it is finished; until then the file is empty. The handle of a
  reader is the contents of the file. The program computes the length of the index of a corrupt
  file by an unchecked subtraction: where it underflows, a debug build panics and a release build
  seeks or allocates beyond all bounds; the model lets it wrap and reports the end of the file.
\<close>

definition sst_magic :: u32 where "sst_magic = 0x5353544C"
definition default_block_size :: nat where "default_block_size = 4096"
definition footer_size :: nat where "footer_size = 20"

record sstable_meta =
  meta_id :: u64
  meta_level :: nat
  meta_path :: string
  meta_entry_count :: u64
  meta_min_key :: bytes
  meta_max_key :: bytes

subsection \<open>Writer\<close>

record sst_writer =
  w_path :: string
  w_out :: bytes
  w_block_size :: nat
  w_block_buf :: bytes
  w_block_first_key :: "bytes option"
  w_block_offset :: u64
  w_index :: "(bytes \<times> u64 \<times> u64) list"
  w_entry_count :: u64
  w_min_key :: "bytes option"
  w_max_key :: "bytes option"

definition writer_with_block_size :: "string \<Rightarrow> nat \<Rightarrow> disk \<Rightarrow> sst_writer \<times> disk" where
  "writer_with_block_size path block_size d =
     (\<lparr>w_path = path, w_out = [], w_block_size = block_size, w_block_buf = [],
       w_block_first_key = None, w_block_offset = 0, w_index = [], w_entry_count = 0,
       w_min_key = None, w_max_key = None\<rparr>, d(path \<mapsto> []))"

definition writer_new :: "string \<Rightarrow> disk \<Rightarrow> sst_writer \<times> disk" where
  "writer_new path d = writer_with_block_size path default_block_size d"

definition flush_block :: "sst_writer \<Rightarrow> sst_writer" where
  "flush_block w =
     (let block_len = of_nat (length (w_block_buf w)) :: u64;
          w = w\<lparr>w_out := w_out w @ w_block_buf w\<rparr>;
          w = (case w_block_first_key w of
                 Some first_key \<Rightarrow>
                   w\<lparr>w_block_first_key := None,
                     w_index := w_index w @ [(first_key, w_block_offset w, block_len)]\<rparr>
               | None \<Rightarrow> w)
      in w\<lparr>w_block_offset := w_block_offset w + block_len, w_block_buf := []\<rparr>)"

definition writer_add :: "bytes \<Rightarrow> bytes \<Rightarrow> sst_writer \<Rightarrow> sst_writer" where
  "writer_add key value w =
     (let w = (if w_min_key w = None then w\<lparr>w_min_key := Some key\<rparr> else w);
          w = w\<lparr>w_max_key := Some key\<rparr>;
          w = (if w_block_first_key w = None then w\<lparr>w_block_first_key := Some key\<rparr> else w);
          w = w\<lparr>w_block_buf := w_block_buf w @ u32_le (len_u32 key) @ key
                  @ u32_le (len_u32 value) @ value\<rparr>;
          w = w\<lparr>w_entry_count := w_entry_count w + 1\<rparr>
      in if w_block_size w \<le> length (w_block_buf w) then flush_block w else w)"

definition index_bytes :: "(bytes \<times> u64 \<times> u64) list \<Rightarrow> bytes" where
  "index_bytes index =
     concat (map (\<lambda>(first_key, off, block_len).
       u32_le (len_u32 first_key) @ first_key @ u64_le off @ u64_le block_len) index)"

definition unwrap_or_default :: "'a list option \<Rightarrow> 'a list" where
  "unwrap_or_default x = (case x of None \<Rightarrow> [] | Some xs \<Rightarrow> xs)"

definition writer_finish :: "sst_writer \<Rightarrow> disk \<Rightarrow> (u64 \<times> bytes \<times> bytes) \<times> disk" where
  "writer_finish w d =
     (let w = (if w_block_buf w \<noteq> [] then flush_block w else w);
          index_offset = w_block_offset w;
          out = w_out w @ index_bytes (w_index w) @ u64_le index_offset
                  @ u64_le (w_entry_count w) @ u32_le sst_magic
      in ((w_entry_count w, unwrap_or_default (w_min_key w), unwrap_or_default (w_max_key w)),
          d(w_path w \<mapsto> out)))"

subsection \<open>Reader\<close>

record index_entry =
  first_key :: bytes
  offset :: u64
  block_len :: u64

record sst_reader =
  r_file :: bytes
  r_index :: "index_entry list"
  r_entry_count :: u64

text \<open>The bytes \<^verbatim>\<open>buf[i..i + n]\<close>, and a read of \<open>n\<close> bytes from position \<open>i\<close> of a file.\<close>

definition slice :: "bytes \<Rightarrow> nat \<Rightarrow> nat \<Rightarrow> bytes" where
  "slice buf i n = take n (drop i buf)"

definition read_at :: "bytes \<Rightarrow> nat \<Rightarrow> nat \<Rightarrow> io_error + bytes" where
  "read_at file i n = map_sum id fst (read_exact n (drop i file))"

function parse_index_from :: "bytes \<Rightarrow> nat \<Rightarrow> index_entry list \<Rightarrow> index_entry list" where
  "parse_index_from buf cursor entries =
     (if cursor < length buf then
        if cursor + 4 > length buf then entries
        else
          let key_len = from_le (slice buf cursor 4);
              cursor = cursor + 4
          in if cursor + key_len + 16 > length buf then entries
             else
               let key = slice buf cursor key_len;
                   cursor = cursor + key_len;
                   off = of_nat (from_le (slice buf cursor 8));
                   cursor = cursor + 8;
                   len = of_nat (from_le (slice buf cursor 8));
                   cursor = cursor + 8
               in parse_index_from buf cursor
                    (entries @ [\<lparr>first_key = key, offset = off, block_len = len\<rparr>])
      else entries)"
  by pat_completeness auto
termination
  by (relation "measure (\<lambda>(buf, cursor, _). length buf - cursor)") auto

definition parse_index :: "bytes \<Rightarrow> index_entry list" where
  "parse_index buf = parse_index_from buf 0 []"

definition reader_open :: "string \<Rightarrow> disk \<Rightarrow> io_error + sst_reader" where
  "reader_open path d =
     (case d path of
        None \<Rightarrow> Inl NotFound
      | Some file \<Rightarrow>
          if length file < footer_size then Inl (InvalidData ''file too small to be an SSTable'')
          else
            let footer_buf = drop (length file - footer_size) file;
                index_offset = of_nat (from_le (slice footer_buf 0 8)) :: u64;
                entry_count = of_nat (from_le (slice footer_buf 8 8)) :: u64;
                magic = of_nat (from_le (slice footer_buf 16 4)) :: u32
            in if magic \<noteq> sst_magic then Inl (InvalidData ''bad SSTable magic'')
               else
                 let index_len = of_nat (length file) - of_nat footer_size - index_offset
                 in and_then (read_at file (unat index_offset) (unat index_len)) (\<lambda>index_buf.
                      Inr \<lparr>r_file = file, r_index = parse_index index_buf,
                           r_entry_count = entry_count\<rparr>))"

definition truncated_entry :: io_error where
  "truncated_entry = InvalidData ''truncated entry in data block''"

definition decode_entry :: "bytes \<Rightarrow> nat \<Rightarrow> io_error + bytes \<times> bytes \<times> nat" where
  "decode_entry block cursor =
     (if cursor + 4 > length block then Inl truncated_entry
      else
        let key_len = from_le (slice block cursor 4);
            pos = cursor + 4
        in if pos + key_len + 4 > length block then Inl truncated_entry
           else
             let key = slice block pos key_len;
                 pos = pos + key_len;
                 val_len = from_le (slice block pos 4);
                 pos = pos + 4
             in if pos + val_len > length block then Inl truncated_entry
                else Inr (key, slice block pos val_len, pos + val_len))"

lemma decode_entry_next: "decode_entry block cursor = Inr (k, v, next) \<Longrightarrow> cursor < next"
  by (auto simp: decode_entry_def Let_def split: if_splits)

definition read_block :: "sst_reader \<Rightarrow> index_entry \<Rightarrow> io_error + bytes" where
  "read_block r ie = read_at (r_file r) (unat (offset ie)) (unat (block_len ie))"

text \<open>
  \<^verbatim>\<open>partition_point\<close> on an index, which is partitioned by the predicate because it is sorted.
\<close>

definition partition_point :: "('a \<Rightarrow> bool) \<Rightarrow> 'a list \<Rightarrow> nat" where
  "partition_point P xs = length (takeWhile P xs)"

definition find_block :: "index_entry list \<Rightarrow> bytes \<Rightarrow> nat option" where
  "find_block index key =
     (if index = [] then None
      else
        let pos = partition_point (\<lambda>e. first_key e \<le> key) index
        in if pos = 0 then
             if key < first_key (index ! 0) then None else Some 0
           else Some (pos - 1))"

function scan_block :: "bytes \<Rightarrow> nat \<Rightarrow> bytes \<Rightarrow> io_error + bytes option" where
  "scan_block block cursor key =
     (if cursor < length block then
        (case decode_entry block cursor of
           Inl e \<Rightarrow> Inl e
         | Inr (k, v, next_pos) \<Rightarrow>
             if k = key then Inr (Some v)
             else if key < k then Inr None
             else scan_block block next_pos key)
      else Inr None)"
  by pat_completeness auto
termination
  by (relation "measure (\<lambda>(block, cursor, _). length block - cursor)") (auto dest!: decode_entry_next)

definition reader_get :: "sst_reader \<Rightarrow> bytes \<Rightarrow> io_error + bytes option" where
  "reader_get r key =
     (case find_block (r_index r) key of
        None \<Rightarrow> Inr None
      | Some block_idx \<Rightarrow>
          and_then (read_block r (r_index r ! block_idx)) (\<lambda>block. scan_block block 0 key))"

function read_entries :: "bytes \<Rightarrow> nat \<Rightarrow> (bytes \<times> bytes) list \<Rightarrow> io_error + (bytes \<times> bytes) list" where
  "read_entries block cursor entries =
     (if cursor < length block then
        (case decode_entry block cursor of
           Inl e \<Rightarrow> Inl e
         | Inr (k, v, next_pos) \<Rightarrow> read_entries block next_pos (entries @ [(k, v)]))
      else Inr entries)"
  by pat_completeness auto
termination
  by (relation "measure (\<lambda>(block, cursor, _). length block - cursor)") (auto dest!: decode_entry_next)

definition read_all :: "sst_reader \<Rightarrow> io_error + (bytes \<times> bytes) list" where
  "read_all r =
     foldl (\<lambda>res ie. and_then res (\<lambda>entries.
              and_then (read_block r ie) (\<lambda>block. read_entries block 0 entries)))
       (Inr []) (r_index r)"

subsection \<open>Streaming\<close>

record sst_scan =
  scan_reader :: sst_reader
  scan_block_idx :: nat
  scan_block_buf :: bytes
  scan_cursor :: nat

definition reader_scan :: "sst_reader \<Rightarrow> sst_scan" where
  "reader_scan r =
     \<lparr>scan_reader = r, scan_block_idx = 0, scan_block_buf = [], scan_cursor = 0\<rparr>"

function next_entry :: "sst_scan \<Rightarrow> io_error + (bytes \<times> bytes) option \<times> sst_scan" where
  "next_entry s =
     (if scan_cursor s < length (scan_block_buf s) then
        (case decode_entry (scan_block_buf s) (scan_cursor s) of
           Inl e \<Rightarrow> Inl e
         | Inr (k, v, next_pos) \<Rightarrow> Inr (Some (k, v), s\<lparr>scan_cursor := next_pos\<rparr>))
      else if length (r_index (scan_reader s)) \<le> scan_block_idx s then Inr (None, s)
      else
        let ie = r_index (scan_reader s) ! scan_block_idx s
        in case read_block (scan_reader s) ie of
             Inl e \<Rightarrow> Inl e
           | Inr buf \<Rightarrow>
               next_entry (s\<lparr>scan_block_buf := buf, scan_cursor := 0,
                             scan_block_idx := scan_block_idx s + 1\<rparr>))"
  by pat_completeness auto
termination
  by (relation "measure (\<lambda>s. length (r_index (scan_reader s)) - scan_block_idx s)") auto

declare parse_index_from.simps [simp del] scan_block.simps [simp del] read_entries.simps [simp del]
  next_entry.simps [simp del]

end
