(* ===== verification/Manifest.thy ===== *)
theory Manifest
  imports Sstable
begin

text \<open>
  \<^verbatim>\<open>src/manifest.rs\<close>: the registry of live tables by level, newest last, and the names of their
  files.
\<close>

record manifest =
  levels :: "sstable_meta list list"
  next_id :: u64

definition manifest_new :: "nat \<Rightarrow> manifest" where
  "manifest_new num_levels = \<lparr>levels = replicate num_levels [], next_id = 0\<rparr>"

subsection \<open>File names\<close>

fun decimal :: "nat \<Rightarrow> string" where
  "decimal n = (if n < 10 then [char_of (48 + n)] else decimal (n div 10) @ [char_of (48 + n mod 10)])"

declare decimal.simps [simp del]

definition pad_zeros :: "nat \<Rightarrow> string \<Rightarrow> string" where
  "pad_zeros width s = replicate (width - length s) (CHR ''0'') @ s"

definition sst_name :: "nat \<Rightarrow> u64 \<Rightarrow> string" where
  "sst_name level tid = ''L'' @ decimal level @ ''_'' @ pad_zeros 6 (decimal (unat tid)) @ ''.sst''"

definition next_sstable_path :: "manifest \<Rightarrow> nat \<Rightarrow> (u64 \<times> string) \<times> manifest" where
  "next_sstable_path m level =
     (let tid = next_id m in ((tid, sst_name level tid), m\<lparr>next_id := tid + 1\<rparr>))"

subsection \<open>Registration\<close>

definition manifest_add :: "manifest \<Rightarrow> sstable_meta \<Rightarrow> manifest" where
  "manifest_add m meta =
     (let level = meta_level meta;
          lvls = (if level \<ge> length (levels m)
                  then levels m @ replicate (level + 1 - length (levels m)) [] else levels m)
      in m\<lparr>levels := lvls[level := lvls ! level @ [meta]]\<rparr>)"

definition manifest_remove :: "manifest \<Rightarrow> nat \<Rightarrow> u64 list \<Rightarrow> manifest" where
  "manifest_remove m level ids =
     (if level < length (levels m)
      then m\<lparr>levels := (levels m)[level := filter (\<lambda>t. meta_id t \<notin> set ids) (levels m ! level)]\<rparr>
      else m)"

definition manifest_level :: "manifest \<Rightarrow> nat \<Rightarrow> sstable_meta list" where
  "manifest_level m level = (if level < length (levels m) then levels m ! level else [])"

definition level_count :: "manifest \<Rightarrow> nat \<Rightarrow> nat" where
  "level_count m level = (if level < length (levels m) then length (levels m ! level) else 0)"

definition num_levels :: "manifest \<Rightarrow> nat" where
  "num_levels m = length (levels m)"

definition manifest_levels :: "manifest \<Rightarrow> (nat \<times> sstable_meta list) list" where
  "manifest_levels m = enumerate 0 (levels m)"

subsection \<open>Names of different tables differ\<close>

definition digit_value :: "char \<Rightarrow> nat" where
  "digit_value c = of_char c - 48"

definition parse_decimal :: "string \<Rightarrow> nat" where
  "parse_decimal s = foldl (\<lambda>acc c. 10 * acc + digit_value c) 0 s"

lemma digit_value_char: "n < 10 \<Longrightarrow> digit_value (char_of (48 + n)) = n"
  by (simp add: digit_value_def)

lemma parse_decimal_dec: "parse_decimal (decimal n) = n"
proof (induction n rule: decimal.induct)
  case (1 n)
  then show ?case
    by (subst decimal.simps) (simp add: parse_decimal_def digit_value_char)
qed

lemma parse_decimal_pad: "parse_decimal (pad_zeros w s) = parse_decimal s"
proof -
  have "foldl (\<lambda>acc c. 10 * acc + digit_value c) 0 (replicate n (CHR ''0'')) = 0" for n
    by (induction n) (simp_all add: digit_value_def)
  then show ?thesis by (simp add: parse_decimal_def pad_zeros_def)
qed

lemma decimal_no_underscore: "CHR ''_'' \<notin> set (decimal n)"
proof (induction n rule: decimal.induct)
  case (1 n)
  have "CHR ''_'' \<noteq> char_of (48 + d :: nat)" if "d < 10" for d
  proof
    assume "CHR ''_'' = char_of (48 + d)"
    then have "of_char (CHR ''_'') = (48 + d :: nat)" using that by simp
    then show False using that by simp
  qed
  then show ?case using 1 by (subst decimal.simps) simp
qed

lemma sst_name_inject: "sst_name l i = sst_name l' i' \<longleftrightarrow> l = l' \<and> i = i'"
proof
  let ?tail = "\<lambda>i. pad_zeros 6 (decimal (unat i)) @ ''.sst''"
  assume eq: "sst_name l i = sst_name l' i'"
  have part: "takeWhile (\<lambda>c. c \<noteq> CHR ''_'') (tl (sst_name l i)) = decimal l"
    "drop (Suc (length (decimal l))) (tl (sst_name l i)) = ?tail i" for l i
  proof -
    have "\<forall>c\<in>set (decimal l). c \<noteq> CHR ''_''" using decimal_no_underscore [of l] by metis
    then show "takeWhile (\<lambda>c. c \<noteq> CHR ''_'') (tl (sst_name l i)) = decimal l"
      by (simp add: sst_name_def takeWhile_append2)
    show "drop (Suc (length (decimal l))) (tl (sst_name l i)) = ?tail i" by (simp add: sst_name_def)
  qed
  have l: "decimal l = decimal l'" using part(1) [of l i] part(1) [of l' i'] eq by simp
  then have "?tail i = ?tail i'" using part(2) [of l i] part(2) [of l' i'] eq by simp
  then have "parse_decimal (decimal (unat i)) = parse_decimal (decimal (unat i'))"
    by (metis append_same_eq parse_decimal_pad)
  moreover have "parse_decimal (decimal l) = parse_decimal (decimal l')" using l by simp
  ultimately show "l = l' \<and> i = i'" using unsigned_word_eqI by (auto simp: parse_decimal_dec)
qed simp

lemma sst_name_not_wal: "sst_name l i \<noteq> ''wal.log''"
  by (simp add: sst_name_def)

end
