(* ===== verification/Compaction.thy ===== *)
theory Compaction
  imports Manifest
begin

text \<open>
  \<^verbatim>\<open>src/compaction.rs\<close>: merging the tables of a level into one table of the next level. The heap
  is the list of its entries; \<^verbatim>\<open>pop\<close> takes one that is greatest in the order of \<^verbatim>\<open>MergeEntry\<close>. A
  result carries the state at which the operation returned, also for an error. A file that is
  deleted stays readable for the readers that have it open. A writer that is dropped leaves the
  bytes of its finished blocks in its file.
\<close>

definition max_tables_per_level :: nat where "max_tables_per_level = 4"

subsection \<open>The merge heap\<close>

datatype ordering = Less | Equal | Greater

definition compare :: "'a::linorder \<Rightarrow> 'a \<Rightarrow> ordering" where
  "compare a b = (if a < b then Less else if a = b then Equal else Greater)"

fun and_then_cmp :: "ordering \<Rightarrow> ordering \<Rightarrow> ordering" where
  "and_then_cmp Equal b = b"
| "and_then_cmp a b = a"

record merge_entry =
  me_key :: bytes
  me_value :: bytes
  me_source :: nat

definition merge_cmp :: "merge_entry \<Rightarrow> merge_entry \<Rightarrow> ordering" where
  "merge_cmp self other =
     and_then_cmp (compare (me_key other) (me_key self)) (compare (me_source other) (me_source self))"

fun heap_pop :: "merge_entry list \<Rightarrow> (merge_entry \<times> merge_entry list) option" where
  "heap_pop [] = None"
| "heap_pop (x # xs) =
     (let best = foldl (\<lambda>m y. if merge_cmp m y = Less then y else m) x xs
      in Some (best, remove1 best (x # xs)))"

subsection \<open>Compacting a level\<close>

fun open_all :: "sstable_meta list \<Rightarrow> disk \<Rightarrow> io_error + sst_reader list" where
  "open_all [] d = Inr []"
| "open_all (t # ts) d =
     and_then (reader_open (meta_path t) d) (\<lambda>r.
       and_then (open_all ts d) (\<lambda>rs. Inr (r # rs)))"

fun seed_heap :: "nat \<Rightarrow> sst_scan list \<Rightarrow> io_error + merge_entry list \<times> sst_scan list" where
  "seed_heap i [] = Inr ([], [])"
| "seed_heap i (s # ss) =
     and_then (next_entry s) (\<lambda>(e, s').
       and_then (seed_heap (i + 1) ss) (\<lambda>(h, ss').
         Inr ((case e of None \<Rightarrow> h | Some (k, v) \<Rightarrow> \<lparr>me_key = k, me_value = v, me_source = i\<rparr> # h),
              s' # ss')))"

partial_function (option) merge_loop ::
    "bool \<Rightarrow> sst_scan list \<Rightarrow> merge_entry list \<Rightarrow> bytes option \<Rightarrow> sst_writer \<Rightarrow> bool \<Rightarrow>
     (sst_writer \<times> (io_error + bool)) option" where
  "merge_loop is_highest scans heap last_key w wrote_any =
     (case heap_pop heap of
        None \<Rightarrow> Some (w, Inr wrote_any)
      | Some (entry, heap) \<Rightarrow>
          (case next_entry (scans ! me_source entry) of
             Inl e \<Rightarrow> Some (w, Inl e)
           | Inr (next, scan) \<Rightarrow>
               let scans = scans[me_source entry := scan];
                   heap = (case next of
                             None \<Rightarrow> heap
                           | Some (k, v) \<Rightarrow>
                               \<lparr>me_key = k, me_value = v, me_source = me_source entry\<rparr> # heap)
               in if last_key = Some (me_key entry) then
                    merge_loop is_highest scans heap last_key w wrote_any
                  else if is_highest \<and> me_value entry = [] then
                    merge_loop is_highest scans heap (Some (me_key entry)) w wrote_any
                  else
                    merge_loop is_highest scans heap (Some (me_key entry))
                      (writer_add (me_key entry) (me_value entry) w) True))"

declare merge_loop.simps [code]

definition compact_level :: "manifest \<times> disk \<Rightarrow> nat \<Rightarrow> ((manifest \<times> disk) \<times> (io_error + unit)) option" where
  "compact_level = (\<lambda>(m, d) level.
     let tables = manifest_level m level
     in if tables = [] then Some ((m, d), Inr ())
        else
          let old_ids = map meta_id tables;
              old_paths = map meta_path tables
          in case open_all tables d of
               Inl e \<Rightarrow> Some ((m, d), Inl e)
             | Inr readers \<Rightarrow>
                 (case seed_heap 0 (map reader_scan readers) of
                    Inl e \<Rightarrow> Some ((m, d), Inl e)
                  | Inr (heap, scans) \<Rightarrow>
                      let is_highest = level + 1 \<ge> num_levels m - 1;
                          target_level = level + 1;
                          ((tid, path), m) = next_sstable_path m target_level;
                          (w, d) = writer_new path d
                      in Option.bind (merge_loop is_highest scans heap None w False) (\<lambda>(w, res).
                           case res of
                             Inl e \<Rightarrow> Some ((m, d(path \<mapsto> w_out w)), Inl e)
                           | Inr wrote_any \<Rightarrow>
                               let m = manifest_remove m level old_ids;
                                   d = fold (\<lambda>p d. d(p := None)) old_paths d
                               in if wrote_any then
                                    let ((entry_count, min_key, max_key), d) = writer_finish w d
                                    in Some ((manifest_add m
                                         \<lparr>meta_id = tid, meta_level = target_level, meta_path = path,
                                          meta_entry_count = entry_count, meta_min_key = min_key,
                                          meta_max_key = max_key\<rparr>, d), Inr ())
                                  else Some ((m, d(path \<mapsto> w_out w)), Inr ()))))"

fun compact_levels :: "nat list \<Rightarrow> manifest \<times> disk \<Rightarrow> ((manifest \<times> disk) \<times> (io_error + unit)) option" where
  "compact_levels [] s = Some (s, Inr ())"
| "compact_levels (level # ls) s =
     (if level_count (fst s) level \<ge> max_tables_per_level then
        Option.bind (compact_level s level) (\<lambda>(s, res).
          case res of Inl e \<Rightarrow> Some (s, Inl e) | Inr _ \<Rightarrow> compact_levels ls s)
      else compact_levels ls s)"

definition maybe_compact :: "manifest \<times> disk \<Rightarrow> ((manifest \<times> disk) \<times> (io_error + unit)) option" where
  "maybe_compact s = compact_levels [0..<num_levels (fst s)] s"

end
