(* ===== verification/Engine.thy ===== *)
theory Engine
  imports Memtable Wal Compaction
begin

text \<open>
  \<^verbatim>\<open>src/engine.rs\<close>: the engine over a memtable, given by its methods, a write-ahead log, a
  manifest and the directory. Every operation returns the state it leaves, also with an error.
  No lock is ever poisoned, because no thread panics while it holds one. A directory holds the
  log \<^verbatim>\<open>wal.log\<close> and the table files.
\<close>

definition default_flush_threshold :: nat where "default_flush_threshold = 4 * 1024 * 1024"
definition num_lsm_levels :: nat where "num_lsm_levels = 4"

record engine_config =
  cfg_flush_threshold :: nat

definition engine_config_default :: engine_config where
  "engine_config_default = \<lparr>cfg_flush_threshold = default_flush_threshold\<rparr>"

record 'm lsm =
  e_memtable :: 'm
  e_wal :: wal
  e_manifest :: manifest
  e_flush_threshold :: nat

type_synonym ('m, 'a) outcome = "(('m lsm \<times> disk) \<times> (lsm_error + 'a)) option"

definition wal_name :: string where "wal_name = ''wal.log''"

subsection \<open>Opening\<close>

fun replay_record_into :: "'m memtable_ops \<Rightarrow> wal_record \<Rightarrow> 'm \<Rightarrow> 'm option" where
  "replay_record_into ops (WalPut key value) m = mt_insert ops m key value"
| "replay_record_into ops (WalDelete key) m = mt_delete ops m key"

definition lsm_open ::
    "'m memtable_ops \<Rightarrow> disk \<Rightarrow> 'm \<Rightarrow> engine_config \<Rightarrow> (disk \<times> (lsm_error + 'm lsm)) option" where
  "lsm_open ops d m config =
     (case wal_recover wal_name d of
        Inl e \<Rightarrow> Some (d, Inl e)
      | Inr records \<Rightarrow>
          Option.bind (fold_returns (replay_record_into ops) records m) (\<lambda>m.
            let (w, d) = wal_open wal_name d
            in Some (d, Inr \<lparr>e_memtable = m, e_wal = w, e_manifest = manifest_new num_lsm_levels,
                             e_flush_threshold = cfg_flush_threshold config\<rparr>)))"

subsection \<open>Flushing\<close>

definition writer_add_entries :: "(bytes \<times> bytes) list \<Rightarrow> sst_writer \<Rightarrow> sst_writer" where
  "writer_add_entries es w = fold (\<lambda>(k, v) w. writer_add k v w) es w"

text \<open>\<^verbatim>\<open>maybe_compact(&mut manifest)?\<close> at the end of an operation.\<close>

definition finish_with_compaction :: "'m lsm \<times> disk \<Rightarrow> 'a \<Rightarrow> ('m, 'a) outcome" where
  "finish_with_compaction = (\<lambda>(e, d) x.
     Option.bind (maybe_compact (e_manifest e, d)) (\<lambda>((m, d), res).
       Some ((e\<lparr>e_manifest := m\<rparr>, d), case res of Inl err \<Rightarrow> Inl (Io err) | Inr _ \<Rightarrow> Inr x)))"

text \<open>The part of a flush under the lock of the manifest, and the whole flush.\<close>

definition flush_entries :: "(bytes \<times> bytes) list \<Rightarrow> 'm lsm \<times> disk \<Rightarrow> ('m, unit) outcome" where
  "flush_entries es = (\<lambda>(e, d).
     let ((tid, path), m) = next_sstable_path (e_manifest e) 0;
         (w, d) = writer_new path d;
         w = writer_add_entries es w;
         ((entry_count, min_key, max_key), d) = writer_finish w d;
         m = manifest_add m
               \<lparr>meta_id = tid, meta_level = 0, meta_path = path, meta_entry_count = entry_count,
                meta_min_key = min_key, meta_max_key = max_key\<rparr>;
         (wl, d) = wal_truncate (e_wal e, d)
     in finish_with_compaction (e\<lparr>e_manifest := m, e_wal := wl\<rparr>, d) ())"

definition flush_memtable :: "'m memtable_ops \<Rightarrow> 'm lsm \<times> disk \<Rightarrow> ('m, unit) outcome" where
  "flush_memtable ops = (\<lambda>(e, d).
     let (entries, mt) = mt_drain ops (e_memtable e);
         e = e\<lparr>e_memtable := mt\<rparr>
     in if entries = [] then Some ((e, d), Inr ()) else flush_entries entries (e, d))"

definition lsm_flush :: "'m memtable_ops \<Rightarrow> 'm lsm \<times> disk \<Rightarrow> ('m, unit) outcome" where
  "lsm_flush ops s = flush_memtable ops s"

definition maybe_flush :: "'m memtable_ops \<Rightarrow> 'm lsm \<times> disk \<Rightarrow> ('m, unit) outcome" where
  "maybe_flush ops s =
     (if unat (mt_bytes ops (e_memtable (fst s))) \<ge> e_flush_threshold (fst s)
      then flush_memtable ops s else Some (s, Inr ()))"

subsection \<open>Point operations\<close>

definition lsm_put :: "'m memtable_ops \<Rightarrow> 'm lsm \<times> disk \<Rightarrow> bytes \<Rightarrow> bytes \<Rightarrow> ('m, unit) outcome" where
  "lsm_put ops = (\<lambda>(e, d) key value.
     let (wl, d) = append_put key value (e_wal e, d)
     in Option.bind (mt_insert ops (e_memtable e) key value) (\<lambda>m.
          maybe_flush ops (e\<lparr>e_wal := wl, e_memtable := m\<rparr>, d)))"

definition lsm_delete :: "'m memtable_ops \<Rightarrow> 'm lsm \<times> disk \<Rightarrow> bytes \<Rightarrow> ('m, unit) outcome" where
  "lsm_delete ops = (\<lambda>(e, d) key.
     let (wl, d) = append_delete key (e_wal e, d)
     in map_option (\<lambda>m. ((e\<lparr>e_wal := wl, e_memtable := m\<rparr>, d), Inr ()))
          (mt_delete ops (e_memtable e) key))"

definition hide_tombstone :: "bytes \<Rightarrow> bytes option" where
  "hide_tombstone v = (if v = [] then None else Some v)"

text \<open>The tables of one level, newest first, then the levels in order.\<close>

fun search_tables :: "disk \<Rightarrow> sstable_meta list \<Rightarrow> bytes \<Rightarrow> io_error + bytes option" where
  "search_tables d [] key = Inr None"
| "search_tables d (t # ts) key =
     (if key < meta_min_key t \<or> meta_max_key t < key then search_tables d ts key
      else
        and_then (reader_open (meta_path t) d) (\<lambda>r.
          and_then (reader_get r key) (\<lambda>found.
            case found of Some v \<Rightarrow> Inr (Some v) | None \<Rightarrow> search_tables d ts key)))"

fun search_levels :: "disk \<Rightarrow> (nat \<times> sstable_meta list) list \<Rightarrow> bytes \<Rightarrow> io_error + bytes option" where
  "search_levels d [] key = Inr None"
| "search_levels d ((_, tables) # ls) key =
     and_then (search_tables d (rev tables) key) (\<lambda>found.
       case found of Some v \<Rightarrow> Inr (Some v) | None \<Rightarrow> search_levels d ls key)"

definition lsm_get :: "'m memtable_ops \<Rightarrow> 'm lsm \<times> disk \<Rightarrow> bytes \<Rightarrow> lsm_error + bytes option" where
  "lsm_get ops = (\<lambda>(e, d) key.
     case mt_get ops (e_memtable e) key of
       Some v \<Rightarrow> Inr (hide_tombstone v)
     | None \<Rightarrow>
         and_then (io (search_levels d (manifest_levels (e_manifest e)) key)) (\<lambda>found.
           Inr (case found of None \<Rightarrow> None | Some v \<Rightarrow> hide_tombstone v)))"

subsection \<open>Ingestion\<close>

fun ingest_from ::
    "'m memtable_ops \<Rightarrow> (bytes \<times> bytes) list \<Rightarrow> u64 \<Rightarrow> 'm lsm \<times> disk \<Rightarrow> ('m, u64) outcome" where
  "ingest_from ops [] cnt s = Some (s, Inr cnt)"
| "ingest_from ops ((k, v) # kvs) cnt s =
     Option.bind (lsm_put ops s k v) (\<lambda>(s, res).
       case res of Inl e \<Rightarrow> Some (s, Inl e) | Inr _ \<Rightarrow> ingest_from ops kvs (cnt + 1) s)"

definition ingest_iter :: "'m memtable_ops \<Rightarrow> 'm lsm \<times> disk \<Rightarrow> (bytes \<times> bytes) list \<Rightarrow> ('m, u64) outcome" where
  "ingest_iter ops s kvs = ingest_from ops kvs 0 s"

text \<open>\<^verbatim>\<open>BufRead::lines\<close>: the pieces between line feeds, less one carriage return at the end.\<close>

fun split_lines :: "bytes \<Rightarrow> bytes \<Rightarrow> bytes list" where
  "split_lines acc [] = (if acc = [] then [] else [acc])"
| "split_lines acc (b # bs) = (if b = 10 then (acc @ [b]) # split_lines [] bs else split_lines (acc @ [b]) bs)"

definition trim_line :: "bytes \<Rightarrow> bytes" where
  "trim_line l =
     (if l \<noteq> [] \<and> last l = 10 then
        let l = butlast l in if l \<noteq> [] \<and> last l = 13 then butlast l else l
      else l)"

text \<open>Valid UTF-8, by the ranges of its one to four byte sequences.\<close>

definition cont :: "u8 \<Rightarrow> bool" where
  "cont b \<longleftrightarrow> 0x80 \<le> b \<and> b \<le> 0xBF"

fun utf8_valid :: "bytes \<Rightarrow> bool" where
  "utf8_valid [] = True"
| "utf8_valid (a # bs) =
     (if a < 0x80 then utf8_valid bs
      else case bs of
        [] \<Rightarrow> False
      | b # bs2 \<Rightarrow>
          if 0xC2 \<le> a \<and> a \<le> 0xDF then cont b \<and> utf8_valid bs2
          else case bs2 of
            [] \<Rightarrow> False
          | c # bs3 \<Rightarrow>
              if 0xE0 \<le> a \<and> a \<le> 0xEF
              then (if a = 0xE0 then 0xA0 \<le> b \<and> b \<le> 0xBF
                    else if a = 0xED then 0x80 \<le> b \<and> b \<le> 0x9F else cont b)
                \<and> cont c \<and> utf8_valid bs3
              else case bs3 of
                [] \<Rightarrow> False
              | e # bs4 \<Rightarrow>
                  0xF0 \<le> a \<and> a \<le> 0xF4 \<and>
                  (if a = 0xF0 then 0x90 \<le> b \<and> b \<le> 0xBF
                   else if a = 0xF4 then 0x80 \<le> b \<and> b \<le> 0x8F else cont b) \<and>
                  cont c \<and> cont e \<and> utf8_valid bs4)"

definition split_tab :: "bytes \<Rightarrow> (bytes \<times> bytes) option" where
  "split_tab line =
     (if 9 \<in> set line
      then Some (takeWhile (\<lambda>b. b \<noteq> 9) line, tl (dropWhile (\<lambda>b. b \<noteq> 9) line)) else None)"

fun ingest_lines ::
    "'m memtable_ops \<Rightarrow> bytes list \<Rightarrow> u64 \<Rightarrow> 'm lsm \<times> disk \<Rightarrow> ('m, u64) outcome" where
  "ingest_lines ops [] cnt s = Some (s, Inr cnt)"
| "ingest_lines ops (l # ls) cnt s =
     (if \<not> utf8_valid l then Some (s, Inl (Io (InvalidData ''stream did not contain valid UTF-8'')))
      else
        let line = trim_line l
        in if line = [] then ingest_lines ops ls cnt s
           else case split_tab line of
                  None \<Rightarrow> ingest_lines ops ls cnt s
                | Some (key, value) \<Rightarrow>
                    Option.bind (lsm_put ops s key value) (\<lambda>(s, res).
                      case res of
                        Inl e \<Rightarrow> Some (s, Inl e)
                      | Inr _ \<Rightarrow> ingest_lines ops ls (cnt + 1) s))"

definition ingest_reader :: "'m memtable_ops \<Rightarrow> 'm lsm \<times> disk \<Rightarrow> bytes \<Rightarrow> ('m, u64) outcome" where
  "ingest_reader ops s input = ingest_lines ops (split_lines [] input) 0 s"

fun add_sorted :: "(bytes \<times> bytes) list \<Rightarrow> bytes option \<Rightarrow> sst_writer \<Rightarrow> sst_writer option" where
  "add_sorted [] prev_key w = Some w"
| "add_sorted ((k, v) # kvs) prev_key w =
     (case prev_key of
        Some prev \<Rightarrow>
          if k \<le> prev then None else add_sorted kvs (Some k) (writer_add k v w)
      | None \<Rightarrow> add_sorted kvs (Some k) (writer_add k v w))"

definition ingest_sorted :: "'m lsm \<times> disk \<Rightarrow> (bytes \<times> bytes) list \<Rightarrow> ('m, u64) outcome" where
  "ingest_sorted = (\<lambda>(e, d) kvs.
     let ((tid, path), m) = next_sstable_path (e_manifest e) 0;
         (w, d) = writer_new path d
     in case add_sorted kvs None w of
          None \<Rightarrow>
            Some ((e\<lparr>e_manifest := m\<rparr>, d(path := None)),
                  Inl (Corruption ''ingest_sorted: keys not in ascending order''))
        | Some w \<Rightarrow>
            let ((entry_count, min_key, max_key), d) = writer_finish w d
            in if entry_count > 0 then
                 finish_with_compaction
                   (e\<lparr>e_manifest := manifest_add m
                       \<lparr>meta_id = tid, meta_level = 0, meta_path = path, meta_entry_count = entry_count,
                        meta_min_key = min_key, meta_max_key = max_key\<rparr>\<rparr>, d) entry_count
               else Some ((e\<lparr>e_manifest := m\<rparr>, d(path := None)), Inr entry_count))"

end
