(* ===== verification/Sstable_Facts.thy ===== *)
theory Sstable_Facts
  imports Sstable
begin

text \<open>
  A table file written from sorted entries is read back as these entries: in one pass, block by
  block through a scan, and by point lookups through the block index.
\<close>

subsection \<open>Slices\<close>

lemma slice_here [simp]: "length a = n \<Longrightarrow> slice (pre @ a @ rest) (length pre) n = a"
  by (simp add: slice_def)

lemma slice_next: "slice (pre @ a @ rest) (length pre + length a) n = slice rest 0 n"
  by (simp add: slice_def)

definition encode_entry :: "bytes \<times> bytes \<Rightarrow> bytes" where
  "encode_entry e = u32_le (len_u32 (fst e)) @ fst e @ u32_le (len_u32 (snd e)) @ snd e"

definition encode_entries :: "(bytes \<times> bytes) list \<Rightarrow> bytes" where
  "encode_entries es = concat (map encode_entry es)"

lemma encode_entries_simps [simp]:
  "encode_entries [] = []" "encode_entries (e # es) = encode_entry e @ encode_entries es"
  "encode_entries (es @ fs) = encode_entries es @ encode_entries fs"
  by (simp_all add: encode_entries_def)

lemma length_encode_entry: "length (encode_entry e) = 8 + length (fst e) + length (snd e)"
  by (simp add: encode_entry_def)

definition entry_fits :: "bytes \<times> bytes \<Rightarrow> bool" where
  "entry_fits e \<longleftrightarrow> length (fst e) < 2 ^ 32 \<and> length (snd e) < 2 ^ 32"

lemma encode_entry_nonempty [simp]: "encode_entry e \<noteq> []"
  using length_encode_entry [of e] by fastforce

lemma encode_entries_Nil_iff [simp]: "encode_entries es = [] \<longleftrightarrow> es = []"
  by (cases es) simp_all

lemma decode_encode:
  assumes "entry_fits (k, v)"
  shows "decode_entry (pre @ encode_entry (k, v) @ rest) (length pre) =
    Inr (k, v, length pre + length (encode_entry (k, v)))"
proof -
  let ?b = "pre @ u32_le (len_u32 k) @ k @ u32_le (len_u32 v) @ v @ rest"
  have b: "pre @ encode_entry (k, v) @ rest = ?b" by (simp add: encode_entry_def)
  have fits: "unat (len_u32 k) = length k" "unat (len_u32 v) = length v"
    using assms by (simp_all add: entry_fits_def unat_len_u32)
  have "slice ?b (length pre) 4 = u32_le (len_u32 k)"
    and "slice ?b (length pre + 4) (length k) = k"
    and "slice ?b (length pre + 4 + length k) 4 = u32_le (len_u32 v)"
    and "slice ?b (length pre + 4 + length k + 4) (length v) = v"
    by (simp_all add: slice_def)
  then show ?thesis
    unfolding b by (simp add: decode_entry_def Let_def fits length_encode_entry)
qed

subsection \<open>Reading a block\<close>

lemma read_entries_encode:
  "list_all entry_fits es \<Longrightarrow>
     read_entries (pre @ encode_entries es) (length pre) acc = Inr (acc @ es)"
proof (induction es arbitrary: pre acc)
  case Nil
  then show ?case by (simp add: read_entries.simps)
next
  case (Cons e es)
  obtain k v where e: "e = (k, v)" by fastforce
  have "decode_entry (pre @ encode_entries (e # es)) (length pre) =
      Inr (k, v, length (pre @ encode_entry e))"
    using decode_encode [of k v pre "encode_entries es"] Cons.prems by (simp add: e)
  moreover have "length pre < length (pre @ encode_entries (e # es))"
    by (simp add: length_encode_entry)
  ultimately show ?case
    using Cons.IH [of "pre @ encode_entry e" "acc @ [e]"] Cons.prems
    by (simp add: read_entries.simps [of "pre @ encode_entry (k, v) @ encode_entries es"] e)
qed

lemma scan_block_encode:
  "list_all entry_fits es \<Longrightarrow> sorted_keys es \<Longrightarrow>
     scan_block (pre @ encode_entries es) (length pre) key = Inr (map_of es key)"
proof (induction es arbitrary: pre)
  case Nil
  then show ?case by (simp add: scan_block.simps)
next
  case (Cons e es)
  obtain k v where e: "e = (k, v)" by fastforce
  have dec: "decode_entry (pre @ encode_entries (e # es)) (length pre) =
      Inr (k, v, length (pre @ encode_entry e))"
    using decode_encode [of k v pre "encode_entries es"] Cons.prems by (simp add: e)
  moreover have "length pre < length (pre @ encode_entries (e # es))"
    by (simp add: length_encode_entry)
  moreover have "map_of es key = None" if "key < k"
    using Cons.prems(2) that by (auto simp: e map_of_eq_None_iff)
  ultimately show ?case
    using Cons.IH [of "pre @ encode_entry e"] Cons.prems
    by (auto simp: scan_block.simps [of "pre @ encode_entry (k, v) @ encode_entries es"] e)
qed

subsection \<open>The index\<close>

fun index_of :: "nat \<Rightarrow> (bytes \<times> bytes) list list \<Rightarrow> (bytes \<times> u64 \<times> u64) list" where
  "index_of off [] = []"
| "index_of off (b # bs) =
     (fst (hd b), of_nat off, of_nat (length (encode_entries b)))
       # index_of (off + length (encode_entries b)) bs"

lemma index_of_snoc:
  "index_of off (bs @ [b]) = index_of off bs @
     [(fst (hd b), of_nat (off + length (encode_entries (concat bs))), of_nat (length (encode_entries b)))]"
  by (induction bs arbitrary: off) (simp_all add: add.assoc)

lemma length_index_of [simp]: "length (index_of off bs) = length bs"
  by (induction bs arbitrary: off) simp_all

lemma index_of_nth:
  "i < length bs \<Longrightarrow> index_of off bs ! i =
     (fst (hd (bs ! i)), of_nat (off + length (encode_entries (concat (take i bs)))),
      of_nat (length (encode_entries (bs ! i))))"
proof (induction bs arbitrary: off i)
  case (Cons b bs)
  then show ?case by (cases i) (simp_all add: add.assoc)
qed simp

definition index_entry_of :: "bytes \<times> u64 \<times> u64 \<Rightarrow> index_entry" where
  "index_entry_of = (\<lambda>(k, off, len). \<lparr>first_key = k, offset = off, block_len = len\<rparr>)"

lemma index_bytes_Cons:
  "index_bytes ((k, off, len) # ies) =
     u32_le (len_u32 k) @ k @ u64_le off @ u64_le len @ index_bytes ies"
  by (simp add: index_bytes_def)

lemma parse_index_from_bytes:
  "\<forall>ie\<in>set ies. length (fst ie) < 2 ^ 32 \<Longrightarrow>
     parse_index_from (pre @ index_bytes ies) (length pre) acc = acc @ map index_entry_of ies"
proof (induction ies arbitrary: pre acc)
  case Nil
  then show ?case by (simp add: parse_index_from.simps index_bytes_def)
next
  case (Cons ie ies)
  obtain k off len where ie: "ie = (k, off, len)" by (metis prod_cases3)
  let ?pre = "pre @ u32_le (len_u32 k) @ k @ u64_le off @ u64_le len"
  define B where "B = ?pre @ index_bytes ies"
  have fits: "unat (len_u32 k) = length k" using Cons.prems by (simp add: ie unat_len_u32)
  have slices: "slice B (length pre) 4 = u32_le (len_u32 k)"
    "slice B (length pre + 4) (length k) = k"
    "slice B (length k + (length pre + 4)) 8 = u64_le off"
    "slice B (length k + (length pre + 12)) 8 = u64_le len"
    by (simp_all add: slice_def B_def)
  have len: "length B = length pre + 20 + length k + length (index_bytes ies)" by (simp add: B_def)
  have "parse_index_from B (length pre) acc =
      parse_index_from B (length ?pre) (acc @ [index_entry_of ie])"
    by (subst parse_index_from.simps) (simp add: Let_def slices fits len ie index_entry_of_def add_ac)
  then have "parse_index_from (pre @ index_bytes (ie # ies)) (length pre) acc =
      parse_index_from (?pre @ index_bytes ies) (length ?pre) (acc @ [index_entry_of ie])"
    by (simp add: B_def ie index_bytes_Cons)
  also have "\<dots> = acc @ map index_entry_of (ie # ies)"
    using Cons.IH [of ?pre "acc @ [index_entry_of ie]"] Cons.prems by simp
  finally show ?case .
qed

lemma parse_index_bytes:
  "\<forall>ie\<in>set ies. length (fst ie) < 2 ^ 32 \<Longrightarrow> parse_index (index_bytes ies) = map index_entry_of ies"
  using parse_index_from_bytes [of ies "[]" "[]"] by (simp add: parse_index_def)

subsection \<open>The writer\<close>

text \<open>The state of a writer: finished blocks and the entries of the block being filled.\<close>

definition writer_state ::
    "sst_writer \<Rightarrow> (bytes \<times> bytes) list list \<Rightarrow> (bytes \<times> bytes) list \<Rightarrow> bool" where
  "writer_state w blocks cur \<longleftrightarrow>
     [] \<notin> set blocks \<and> w_out w = encode_entries (concat blocks) \<and>
     w_block_buf w = encode_entries cur \<and>
     w_block_first_key w = (if cur = [] then None else Some (fst (hd cur))) \<and>
     w_block_offset w = of_nat (length (w_out w)) \<and> w_index w = index_of 0 blocks \<and>
     w_entry_count w = of_nat (length (concat blocks @ cur)) \<and>
     w_min_key w = (if concat blocks @ cur = [] then None else Some (fst (hd (concat blocks @ cur)))) \<and>
     w_max_key w = (if concat blocks @ cur = [] then None else Some (fst (last (concat blocks @ cur))))"

lemma writer_state_new:
  "writer_state (fst (writer_with_block_size p n d)) [] []"
  "w_path (fst (writer_with_block_size p n d)) = p"
  by (simp_all add: writer_state_def writer_with_block_size_def)

lemma writer_state_flush:
  assumes "writer_state w blocks cur" "cur \<noteq> []"
  shows "writer_state (flush_block w) (blocks @ [cur]) []"
  using assms by (auto simp: writer_state_def flush_block_def Let_def index_of_snoc)

lemma flush_block_path [simp]: "w_path (flush_block w) = w_path w"
  by (simp add: flush_block_def Let_def split: option.splits)

lemma writer_state_add:
  assumes "writer_state w blocks cur"
  shows "\<exists>blocks' cur'. writer_state (writer_add k v w) blocks' cur' \<and>
    concat blocks' @ cur' = concat blocks @ cur @ [(k, v)] \<and> w_path (writer_add k v w) = w_path w"
proof -
  define w1 where "w1 = w\<lparr>w_min_key := (if w_min_key w = None then Some k else w_min_key w),
    w_max_key := Some k,
    w_block_first_key := (if w_block_first_key w = None then Some k else w_block_first_key w),
    w_block_buf := w_block_buf w @ encode_entry (k, v), w_entry_count := w_entry_count w + 1\<rparr>"
  have add: "writer_add k v w = (if w_block_size w1 \<le> length (w_block_buf w1) then flush_block w1 else w1)"
    by (simp add: writer_add_def w1_def Let_def encode_entry_def)
  have "writer_state w1 blocks (cur @ [(k, v)])"
    using assms by (auto simp: writer_state_def w1_def hd_append)
  moreover from writer_state_flush [OF this]
  have "writer_state (flush_block w1) (blocks @ [cur @ [(k, v)]]) []" by simp
  moreover have "w_path w1 = w_path w" by (simp add: w1_def)
  ultimately show ?thesis unfolding add
    by (cases "w_block_size w1 \<le> length (w_block_buf w1)") force+
qed

definition writer_add_all :: "(bytes \<times> bytes) list \<Rightarrow> sst_writer \<Rightarrow> sst_writer" where
  "writer_add_all es w = fold (\<lambda>(k, v). writer_add k v) es w"

lemma writer_state_add_all:
  assumes "writer_state w blocks cur"
  shows "\<exists>blocks' cur'. writer_state (writer_add_all es w) blocks' cur' \<and>
    concat blocks' @ cur' = concat blocks @ cur @ es \<and> w_path (writer_add_all es w) = w_path w"
  using assms
proof (induction es arbitrary: w blocks cur)
  case (Cons e es)
  obtain k v where e: "e = (k, v)" by fastforce
  from writer_state_add [OF Cons.prems, of k v] obtain blocks1 cur1 where
    "writer_state (writer_add k v w) blocks1 cur1" "concat blocks1 @ cur1 = concat blocks @ cur @ [(k, v)]"
    "w_path (writer_add k v w) = w_path w" by blast
  with Cons.IH [of "writer_add k v w" blocks1 cur1] show ?case
    by (simp add: writer_add_all_def e) (metis append.assoc append_Cons append_Nil)
qed (auto simp: writer_add_all_def)

subsection \<open>A finished table\<close>

text \<open>
  The bytes of a table with given blocks, as the writer leaves them. The sizes of the keys and
  values and of the whole file fit into their fields.
\<close>

definition table_file :: "(bytes \<times> bytes) list list \<Rightarrow> bytes" where
  "table_file blocks =
     encode_entries (concat blocks) @ index_bytes (index_of 0 blocks) @
     u64_le (of_nat (length (encode_entries (concat blocks)))) @
     u64_le (of_nat (length (concat blocks))) @ u32_le sst_magic"

definition table_fits :: "(bytes \<times> bytes) list list \<Rightarrow> bool" where
  "table_fits blocks \<longleftrightarrow>
     [] \<notin> set blocks \<and> list_all entry_fits (concat blocks) \<and> length (table_file blocks) < 2 ^ 64"

lemma writer_finish_table:
  assumes "writer_state w blocks cur" "es = concat blocks @ cur"
  shows "\<exists>blocks'. concat blocks' = es \<and> [] \<notin> set blocks' \<and>
    writer_finish w d =
      ((of_nat (length es), if es = [] then [] else fst (hd es), if es = [] then [] else fst (last es)),
       d(w_path w \<mapsto> table_file blocks'))"
proof -
  define w' where "w' = (if w_block_buf w \<noteq> [] then flush_block w else w)"
  have "\<exists>blocks'. writer_state w' blocks' [] \<and> concat blocks' = es"
  proof (cases "cur = []")
    case True
    then show ?thesis using assms by (auto simp: w'_def writer_state_def)
  next
    case False
    then have "w' = flush_block w" using assms(1) by (simp add: w'_def writer_state_def)
    then show ?thesis using writer_state_flush [OF assms(1) False] assms(2)
      by (intro exI [of _ "blocks @ [cur]"]) simp
  qed
  then obtain blocks' where b: "writer_state w' blocks' []" "concat blocks' = es" by blast
  have "w_path w' = w_path w" by (simp add: w'_def)
  then show ?thesis using b
    by (intro exI [of _ blocks'])
      (simp add: writer_finish_def w'_def [symmetric] writer_state_def table_file_def Let_def
        unwrap_or_default_def)
qed

definition table_reader :: "(bytes \<times> bytes) list list \<Rightarrow> sst_reader" where
  "table_reader blocks =
     \<lparr>r_file = table_file blocks, r_index = map index_entry_of (index_of 0 blocks),
      r_entry_count = of_nat (length (concat blocks))\<rparr>"

lemma index_of_keys:
  assumes "list_all entry_fits (concat blocks)" "[] \<notin> set blocks"
  shows "\<forall>ie\<in>set (index_of off blocks). length (fst ie) < 2 ^ 32"
  using assms
proof (induction blocks arbitrary: off)
  case (Cons b blocks)
  then have "length (fst (hd b)) < 2 ^ 32" by (cases b) (simp_all add: entry_fits_def)
  then show ?case using Cons by auto
qed simp

lemma unat_of_nat_u64: "n < 2 ^ 64 \<Longrightarrow> unat (of_nat n :: u64) = n"
  by (simp add: unsigned_of_nat take_bit_nat_eq_self)

lemma read_at_middle:
  "length pre = i \<Longrightarrow> length bs = n \<Longrightarrow> read_at (pre @ bs @ post) i n = Inr bs"
  by (simp add: read_at_def read_exact_append)

lemma reader_open_table:
  assumes "table_fits blocks" "d path = Some (table_file blocks)"
  shows "reader_open path d = Inr (table_reader blocks)"
proof -
  let ?data = "encode_entries (concat blocks)" and ?index = "index_bytes (index_of 0 blocks)"
  let ?footer = "u64_le (of_nat (length ?data)) @ u64_le (of_nat (length (concat blocks))) @ u32_le sst_magic"
  have layout: "table_file blocks = ?data @ ?index @ ?footer" by (simp add: table_file_def)
  have len: "length (table_file blocks) = length ?data + length ?index + 20" by (simp add: layout)
  have small: "length ?data < 2 ^ 64" "length ?index < 2 ^ 64" "length (table_file blocks) < 2 ^ 64"
    using assms(1) len by (simp_all add: table_fits_def)
  have "drop (length (table_file blocks) - footer_size) (table_file blocks) = ?footer"
    by (simp add: len footer_size_def) (simp add: layout)
  moreover have "slice ?footer 0 8 = u64_le (of_nat (length ?data))"
    "slice ?footer 8 8 = u64_le (of_nat (length (concat blocks)))" "slice ?footer 16 4 = u32_le sst_magic"
    by (simp_all add: slice_def)
  moreover have "of_nat (length (table_file blocks)) - of_nat footer_size - of_nat (length ?data)
      = (of_nat (length ?index) :: u64)"
    by (simp add: len footer_size_def)
  moreover have "read_at (table_file blocks) (length ?data) (length ?index) = Inr ?index"
    unfolding layout by (rule read_at_middle) simp_all
  moreover have "parse_index ?index = map index_entry_of (index_of 0 blocks)"
    using index_of_keys [of blocks 0] assms(1) by (intro parse_index_bytes) (simp add: table_fits_def)
  moreover have "footer_size \<le> length (table_file blocks)" by (simp add: len footer_size_def)
  ultimately show ?thesis using small
    by (simp add: reader_open_def assms(2) Let_def unat_of_nat_u64 table_reader_def)
qed

lemma concat_nth_split:
  "i < length xss \<Longrightarrow> concat xss = concat (take i xss) @ xss ! i @ concat (drop (Suc i) xss)"
  using arg_cong [OF id_take_nth_drop [of i xss], of concat] by simp

lemma read_block_table:
  assumes "table_fits blocks" "i < length blocks"
  shows "read_block (table_reader blocks) (map index_entry_of (index_of 0 blocks) ! i) =
    Inr (encode_entries (blocks ! i))"
proof -
  let ?pre = "encode_entries (concat (take i blocks))" and ?b = "encode_entries (blocks ! i)"
  let ?post = "encode_entries (concat (drop (Suc i) blocks)) @ index_bytes (index_of 0 blocks) @
     u64_le (of_nat (length (encode_entries (concat blocks)))) @
     u64_le (of_nat (length (concat blocks))) @ u32_le sst_magic"
  have "concat blocks = concat (take i blocks) @ blocks ! i @ concat (drop (Suc i) blocks)"
    by (rule concat_nth_split [OF assms(2)])
  then have layout: "table_file blocks = ?pre @ ?b @ ?post" by (simp add: table_file_def)
  moreover have "length (table_file blocks) < 2 ^ 64" using assms(1) by (simp add: table_fits_def)
  ultimately have "length ?pre < 2 ^ 64" "length ?b < 2 ^ 64" by simp_all
  then show ?thesis using assms(2) read_at_middle [of ?pre _ ?b _ ?post]
    by (simp add: read_block_def index_of_nth index_entry_of_def unat_of_nat_u64 table_reader_def layout)
qed

subsection \<open>Reading the whole table\<close>

lemma nth_entry_fits:
  "table_fits blocks \<Longrightarrow> i < length blocks \<Longrightarrow> list_all entry_fits (blocks ! i) \<and> blocks ! i \<noteq> []"
  by (auto simp: table_fits_def list_all_iff) (metis nth_mem)+

lemma read_all_table:
  assumes "table_fits blocks"
  shows "read_all (table_reader blocks) = Inr (concat blocks)"
proof -
  let ?step = "\<lambda>res ie. and_then res (\<lambda>entries.
      and_then (read_block (table_reader blocks) ie) (\<lambda>block. read_entries block 0 entries))"
  have "foldl ?step (Inr []) (take n (map index_entry_of (index_of 0 blocks))) = Inr (concat (take n blocks))"
    if "n \<le> length blocks" for n
    using that
  proof (induction n)
    case (Suc n)
    then have n: "n < length blocks" by simp
    have "read_entries (encode_entries (blocks ! n)) 0 (concat (take n blocks)) =
        Inr (concat (take (Suc n) blocks))"
      using read_entries_encode [of "blocks ! n" "[]" "concat (take n blocks)"]
        nth_entry_fits [OF assms n] by (simp add: take_Suc_conv_app_nth [OF n])
    moreover have "read_block (table_reader blocks) (index_entry_of (index_of 0 blocks ! n)) =
        Inr (encode_entries (blocks ! n))"
      using read_block_table [OF assms n] n by simp
    ultimately show ?case using Suc n by (simp add: take_Suc_conv_app_nth)
  qed simp
  from this [of "length blocks"] show ?thesis by (simp add: read_all_def table_reader_def)
qed

subsection \<open>Point lookup\<close>

lemma partition_point_correct:
  assumes "sorted_wrt (<) (map f xs)"
  shows "partition_point (\<lambda>x. f x \<le> (k :: 'a::linorder)) xs \<le> length xs"
    "i < length xs \<Longrightarrow> i < partition_point (\<lambda>x. f x \<le> k) xs \<longleftrightarrow> f (xs ! i) \<le> k"
proof -
  show "partition_point (\<lambda>x. f x \<le> k) xs \<le> length xs"
    by (simp add: partition_point_def length_takeWhile_le)
  show "i < partition_point (\<lambda>x. f x \<le> k) xs \<longleftrightarrow> f (xs ! i) \<le> k" if "i < length xs"
    using assms that unfolding partition_point_def
  proof (induction xs arbitrary: i)
    case (Cons x xs)
    show ?case
    proof (cases i)
      case (Suc j)
      then have "f x < f (xs ! j)" using Cons.prems by simp
      then have "f (xs ! j) \<le> k \<Longrightarrow> f x \<le> k" by simp
      then show ?thesis using Cons Suc by auto
    qed simp
  qed simp
qed

lemma sorted_concat_firsts:
  assumes "sorted_keys (concat blocks)" "[] \<notin> set blocks"
  shows "sorted_wrt (<) (map (\<lambda>b. fst (hd b)) blocks)"
  using assms
proof (induction blocks)
  case (Cons b blocks)
  have "fst (hd b) < fst (hd c)" if "c \<in> set blocks" for c
  proof -
    have "b \<noteq> []" "c \<noteq> []" using Cons.prems(2) that by auto
    then have "hd b \<in> set b" "hd c \<in> set (concat blocks)" using that by (auto intro: bexI [of _ c])
    moreover have "\<forall>p\<in>set b. \<forall>q\<in>set (concat blocks). fst p < fst q"
      using Cons.prems(1) sorted_keys_append [of b "concat blocks"] by simp
    ultimately show ?thesis by blast
  qed
  then show ?case using Cons by (simp add: sorted_wrt_append)
qed simp

text \<open>A key can only be in the last block that starts no later than it.\<close>

lemma map_of_block:
  assumes "sorted_keys (concat blocks)" "[] \<notin> set blocks" "i < length blocks"
    and "fst (hd (blocks ! i)) \<le> k" "\<And>j. i < j \<Longrightarrow> j < length blocks \<Longrightarrow> k < fst (hd (blocks ! j))"
  shows "map_of (concat blocks) k = map_of (blocks ! i) k"
proof -
  let ?pre = "concat (take i blocks)" and ?b = "blocks ! i" and ?post = "concat (drop (Suc i) blocks)"
  have split: "concat blocks = ?pre @ ?b @ ?post"
    by (rule concat_nth_split [OF assms(3)])
  have ne: "?b \<noteq> []" using assms(2,3) nth_mem by metis
  have pre: "fst p < k" if "p \<in> set ?pre" for p
  proof -
    have "fst p < fst (hd ?b)"
      using assms(1) that hd_in_set [OF ne] unfolding split by (auto simp: sorted_wrt_append)
    then show ?thesis using assms(4) by simp
  qed
  have post: "k < fst p" if p: "p \<in> set ?post" for p
  proof -
    obtain c where c: "c \<in> set (drop (Suc i) blocks)" "p \<in> set c" using p by auto
    then obtain a where "a < length (drop (Suc i) blocks)" "c = drop (Suc i) blocks ! a"
      by (auto simp: in_set_conv_nth)
    then have j: "i < Suc i + a" "Suc i + a < length blocks" "p \<in> set (blocks ! (Suc i + a))"
      using c(2) by auto
    let ?j = "Suc i + a"
    have "sorted_keys (blocks ! ?j)"
    proof -
      have "concat blocks = concat (take ?j blocks) @ blocks ! ?j @ concat (drop (Suc ?j) blocks)"
        by (rule concat_nth_split [OF j(2)])
      then show ?thesis using assms(1) by (simp add: sorted_wrt_append)
    qed
    then have "fst (hd (blocks ! ?j)) \<le> fst p" using j(3) by (rule sorted_keys_hd_last)
    then show ?thesis using assms(5) [OF j(1,2)] by (rule order.strict_trans2 [rotated])
  qed
  have "map_of ?pre k = None" unfolding map_of_eq_None_iff using pre by blast
  moreover have "map_of ?post k = None" unfolding map_of_eq_None_iff using post by blast
  ultimately show ?thesis unfolding split by (simp add: map_add_def split: option.splits)
qed

lemma reader_get_table:
  assumes "table_fits blocks" "sorted_keys (concat blocks)"
  shows "reader_get (table_reader blocks) key = Inr (map_of (concat blocks) key)"
proof -
  let ?index = "map index_entry_of (index_of 0 blocks)"
  let ?pos = "partition_point (\<lambda>e. first_key e \<le> key) ?index"
  have ne: "[] \<notin> set blocks" using assms(1) by (simp add: table_fits_def)
  have first: "first_key (?index ! i) = fst (hd (blocks ! i))" if "i < length blocks" for i
    using that by (simp add: index_of_nth index_entry_of_def)
  have "map first_key ?index = map (\<lambda>b. fst (hd b)) blocks"
    by (rule nth_equalityI) (simp_all add: index_of_nth index_entry_of_def)
  then have "sorted_wrt (<) (map first_key ?index)"
    using sorted_concat_firsts [OF assms(2) ne] by simp
  note pos = partition_point_correct [OF this, where k = key]
  have starts: "j < ?pos \<longleftrightarrow> fst (hd (blocks ! j)) \<le> key" if "j < length blocks" for j
    using pos(2) [of j] first that by simp
  show ?thesis
  proof (cases "?pos = 0")
    case True
    have "map_of (concat blocks) key = None"
    proof (cases blocks)
      case (Cons b bs)
      then have "key < fst (hd b)" using starts [of 0] True by simp
      moreover have "fst (hd (concat blocks)) \<le> fst p" if "p \<in> set (concat blocks)" for p
        using sorted_keys_hd_last(1) [OF assms(2) that] .
      moreover have "hd (concat blocks) = hd b" using Cons ne by (cases b) auto
      ultimately show ?thesis by (fastforce simp: map_of_eq_None_iff)
    qed simp
    moreover have "find_block ?index key = None"
      using True starts [of 0] first [of 0] by (cases blocks) (auto simp: find_block_def not_le)
    ultimately show ?thesis by (simp add: reader_get_def table_reader_def)
  next
    case False
    let ?i = "?pos - 1"
    have i: "?i < length blocks" using pos(1) False by simp
    have "key < fst (hd (blocks ! j))" if "?i < j" "j < length blocks" for j
      using starts [OF that(2)] that(1) False by auto
    moreover have "fst (hd (blocks ! ?i)) \<le> key" using starts [OF i] False by simp
    ultimately have "map_of (concat blocks) key = map_of (blocks ! ?i) key"
      by (intro map_of_block [OF assms(2) ne i])
    moreover have "sorted_keys (blocks ! ?i)"
    proof -
      have "concat blocks = concat (take ?i blocks) @ blocks ! ?i @ concat (drop (Suc ?i) blocks)"
        by (rule concat_nth_split [OF i])
      then show ?thesis using assms(2) by (simp add: sorted_wrt_append)
    qed
    moreover have "(?index = []) = False" using i by (cases blocks) simp_all
    then have "find_block (r_index (table_reader blocks)) key = Some ?i"
      using False by (simp only: find_block_def table_reader_def sst_reader.simps Let_def if_False)
    ultimately show ?thesis
      using scan_block_encode [of "blocks ! ?i" "[]" key] nth_entry_fits [OF assms(1) i]
        read_block_table [OF assms(1) i]
      by (simp add: reader_get_def) (simp add: table_reader_def)
  qed
qed

subsection \<open>Streaming\<close>

text \<open>A scan inside a table and the entries it has still to deliver.\<close>

definition scan_at :: "(bytes \<times> bytes) list list \<Rightarrow> sst_scan \<Rightarrow> (bytes \<times> bytes) list \<Rightarrow> bool" where
  "scan_at blocks s es \<longleftrightarrow>
     scan_reader s = table_reader blocks \<and> scan_block_idx s \<le> length blocks \<and>
     (\<exists>pre cur. list_all entry_fits cur \<and> scan_block_buf s = pre @ encode_entries cur \<and>
        scan_cursor s = length pre \<and> es = cur @ concat (drop (scan_block_idx s) blocks))"

lemma scan_at_start: "scan_at blocks (reader_scan (table_reader blocks)) (concat blocks)"
  by (auto simp: scan_at_def reader_scan_def intro!: exI [of _ "[]"])

lemma next_entry_table:
  assumes "table_fits blocks" "scan_at blocks s es"
  shows "\<exists>s'. next_entry s = Inr (case es of [] \<Rightarrow> None | e # _ \<Rightarrow> Some e, s') \<and> scan_at blocks s' (tl es)"
  using assms(2)
proof (induction s rule: next_entry.induct)
  case (1 s)
  obtain pre cur where s: "scan_reader s = table_reader blocks" "scan_block_idx s \<le> length blocks"
    "list_all entry_fits cur" "scan_block_buf s = pre @ encode_entries cur" "scan_cursor s = length pre"
    "es = cur @ concat (drop (scan_block_idx s) blocks)"
    using "1.prems" by (auto simp: scan_at_def)
  have index: "r_index (scan_reader s) = map index_entry_of (index_of 0 blocks)"
    by (simp add: s(1) table_reader_def)
  show ?case
  proof (cases cur)
    case (Cons e rest)
    obtain k v where e: "e = (k, v)" by fastforce
    have "decode_entry (scan_block_buf s) (scan_cursor s) = Inr (k, v, length (pre @ encode_entry e))"
      using decode_encode [of k v pre "encode_entries rest"] s(3) by (simp add: s(4,5) Cons e)
    then have "next_entry s = Inr (Some e, s\<lparr>scan_cursor := length (pre @ encode_entry e)\<rparr>)"
      using s(4,5) by (simp add: next_entry.simps [of s] Cons e)
    moreover have "scan_at blocks (s\<lparr>scan_cursor := length (pre @ encode_entry e)\<rparr>) (tl es)"
      using s Cons by (auto simp: scan_at_def intro!: exI [of _ "pre @ encode_entry e"] exI [of _ rest])
    ultimately show ?thesis using s(6) Cons by simp
  next
    case Nil
    then have at_end: "\<not> scan_cursor s < length (scan_block_buf s)" using s(4,5) by simp
    show ?thesis
    proof (cases "length blocks \<le> scan_block_idx s")
      case True
      then show ?thesis using at_end Nil s(6) "1.prems" by (simp add: next_entry.simps [of s] index)
    next
      case False
      let ?i = "scan_block_idx s"
      let ?s = "s\<lparr>scan_block_buf := encode_entries (blocks ! ?i), scan_cursor := 0, scan_block_idx := ?i + 1\<rparr>"
      have i: "?i < length blocks" using False by simp
      have block: "read_block (scan_reader s) (r_index (scan_reader s) ! ?i) = Inr (encode_entries (blocks ! ?i))"
        using read_block_table [OF assms(1) i] by (simp add: s(1) table_reader_def)
      have "scan_at blocks ?s es"
        using s(1) i nth_entry_fits [OF assms(1) i]
        by (auto simp: scan_at_def s(6) Nil Cons_nth_drop_Suc [OF i, symmetric]
            intro!: exI [of _ "[]"] exI [of _ "blocks ! ?i"])
      moreover have "next_entry s = next_entry ?s"
        using at_end False by (simp add: next_entry.simps [of s] block Let_def) (simp add: index)
      ultimately show ?thesis using "1.IH" [OF at_end _ refl block] False by (simp add: index)
    qed
  qed
qed

end
