(* ===== verification/Compaction_Facts.thy ===== *)
theory Compaction_Facts
  imports Compaction Sstable_Facts "HOL-Library.Multiset"
begin

text \<open>
  The merge writes the keys of all sources once, in ascending order. Of the values of a key it
  keeps the one of the first source, which is the oldest table of the level.
\<close>

subsection \<open>The order of the heap\<close>

definition before :: "merge_entry \<Rightarrow> merge_entry \<Rightarrow> bool" where
  "before a b \<longleftrightarrow> me_key a < me_key b \<or> me_key a = me_key b \<and> me_source a \<le> me_source b"

lemma merge_cmp_Less: "merge_cmp a b = Less \<longleftrightarrow> \<not> before a b"
  by (auto simp: merge_cmp_def compare_def before_def)

lemma before_trans: "before a b \<Longrightarrow> before b c \<Longrightarrow> before a c"
  by (auto simp: before_def)

lemma before_refl: "before a a"
  by (simp add: before_def)

lemma before_linear: "\<not> before a b \<Longrightarrow> before b a"
  by (auto simp: before_def)

lemma heap_pop_correct:
  assumes "heap_pop heap = Some (hd_e, rest)"
  shows "hd_e \<in> set heap" "mset heap = add_mset hd_e (mset rest)" "y \<in> set heap \<Longrightarrow> before hd_e y"
proof -
  obtain x xs where heap: "heap = x # xs" using assms by (cases heap) auto
  let ?f = "\<lambda>m y. if merge_cmp m y = Less then y else m"
  have best: "foldl ?f x ys \<in> insert x (set ys) \<and> (\<forall>y \<in> insert x (set ys). before (foldl ?f x ys) y)" for ys
  proof (induction ys rule: rev_induct)
    case (snoc y ys)
    then show ?case
      by (auto simp: merge_cmp_Less before_refl dest: before_linear intro: before_trans)
  qed (simp add: before_refl)
  have "hd_e = foldl ?f x xs" "rest = remove1 hd_e heap" using assms by (auto simp: heap Let_def)
  then show "hd_e \<in> set heap" "mset heap = add_mset hd_e (mset rest)" "y \<in> set heap \<Longrightarrow> before hd_e y"
    using best [of xs] by (auto simp: heap)
qed

lemma heap_pop_None: "heap_pop heap = None \<longleftrightarrow> heap = []"
  by (cases heap) (simp_all add: Let_def)

subsection \<open>The heads of the sources\<close>

type_synonym run = "(bytes \<times> bytes) list"

definition head_entry :: "nat \<Rightarrow> run \<Rightarrow> merge_entry multiset" where
  "head_entry i es =
     (case es of [] \<Rightarrow> {#} | (k, v) # _ \<Rightarrow> {#\<lparr>me_key = k, me_value = v, me_source = i\<rparr>#})"

definition heads :: "run list \<Rightarrow> merge_entry multiset" where
  "heads runs = (\<Sum>i<length runs. head_entry i (runs ! i))"

lemma heads_update:
  assumes "i < length runs"
  shows "heads (runs[i := es]) + head_entry i (runs ! i) = heads runs + head_entry i es"
proof -
  have rest: "(\<Sum>j\<in>{..<length runs} - {i}. head_entry j (runs[i := es] ! j)) =
      (\<Sum>j\<in>{..<length runs} - {i}. head_entry j (runs ! j))"
    by (rule sum.cong) simp_all
  have "heads runs' = head_entry i (runs' ! i) + (\<Sum>j\<in>{..<length runs} - {i}. head_entry j (runs' ! j))"
    if "length runs' = length runs" for runs'
    using assms that unfolding heads_def by (simp add: sum.remove [of _ i])
  from this [of runs] this [of "runs[i := es]"] rest show ?thesis using assms by (simp add: ac_simps)
qed

lemma in_heads:
  "t \<in># heads runs \<longleftrightarrow>
     me_source t < length runs \<and> (\<exists>rest. runs ! me_source t = (me_key t, me_value t) # rest)"
proof -
  have "t \<in># head_entry i es \<longleftrightarrow> me_source t = i \<and> (\<exists>rest. es = (me_key t, me_value t) # rest)" for i es
    by (cases t; cases es) (auto simp: head_entry_def)
  then show ?thesis by (auto simp: heads_def set_mset_sum)
qed

subsection \<open>Taking the first entry\<close>

lemma sorted_run_head:
  assumes "sorted_keys ((k, v) # es)" "e \<in> set es" shows "k < fst e"
  using assms by auto

lemma concat_update:
  assumes "i < length runs" "runs ! i = e # rest"
  obtains pre post where "concat runs = pre @ (e # rest) @ post"
    "concat (runs[i := rest]) = pre @ rest @ post" "pre = concat (take i runs)"
  using that [OF _ _ refl, of "concat (drop (Suc i) runs)"] concat_nth_split [OF assms(1)] assms
  by (simp add: upd_conv_take_nth_drop)

lemma map_of_concat_update:
  assumes "i < length runs" "runs ! i = (k, v) # rest"
  shows "k' \<noteq> k \<Longrightarrow> map_of (concat (runs[i := rest])) k' = map_of (concat runs) k'"
    and "(\<And>j. j < i \<Longrightarrow> k \<notin> fst ` set (runs ! j)) \<Longrightarrow> map_of (concat runs) k = Some v"
proof -
  obtain pre post where split: "concat runs = pre @ ((k, v) # rest) @ post"
    "concat (runs[i := rest]) = pre @ rest @ post" "pre = concat (take i runs)"
    using concat_update [OF assms] .
  show "map_of (concat (runs[i := rest])) k' = map_of (concat runs) k'" if "k' \<noteq> k"
    unfolding split(1,2) using that by (cases "map_of pre k'"; cases "map_of rest k'") (simp_all add: map_add_def)
  show "map_of (concat runs) k = Some v" if none: "\<And>j. j < i \<Longrightarrow> k \<notin> fst ` set (runs ! j)"
  proof -
    have "k \<notin> fst ` set run" if "run \<in> set (take i runs)" for run
    proof -
      obtain j where "j < i" "run = runs ! j"
        using \<open>run \<in> set (take i runs)\<close> assms(1) by (auto simp: in_set_conv_nth [of _ "take i runs"])
      then show ?thesis using none by blast
    qed
    then have "k \<notin> fst ` set pre" by (auto simp: split(3))
    then have "map_of pre k = None" by (simp add: map_of_eq_None_iff)
    then show ?thesis unfolding split(1) by (simp add: map_add_def)
  qed
qed

text \<open>What one step of the merge takes: the least key, from the first source that has it.\<close>

definition takes :: "run list \<Rightarrow> nat \<Rightarrow> bytes \<Rightarrow> bytes \<Rightarrow> run \<Rightarrow> bool" where
  "takes runs i k v rest \<longleftrightarrow>
     i < length runs \<and> runs ! i = (k, v) # rest \<and>
     (\<forall>j < length runs. \<forall>e \<in> set (runs ! j). k \<le> fst e) \<and>
     (\<forall>j < i. k \<notin> fst ` set (runs ! j))"

lemma heap_pop_takes:
  assumes "heap_pop heap = Some (t, rest_heap)" "mset heap = heads runs" "list_all sorted_keys runs"
  shows "\<exists>rest. takes runs (me_source t) (me_key t) (me_value t) rest"
    and "mset rest_heap + head_entry (me_source t) es = heads (runs[me_source t := es])"
proof -
  note pop = heap_pop_correct [OF assms(1)]
  have t: "t \<in># heads runs" using pop(1) assms(2) by (metis set_mset_mset)
  then obtain rest where i: "me_source t < length runs"
    and rest: "runs ! me_source t = (me_key t, me_value t) # rest" by (auto simp: in_heads)
  have least: "me_key t < fst e \<or> me_key t = fst e \<and> me_source t \<le> j"
    if j: "j < length runs" "e \<in> set (runs ! j)" for j e
  proof -
    obtain k v es where run: "runs ! j = (k, v) # es" using j(2) by (cases "runs ! j") auto
    then have "\<lparr>me_key = k, me_value = v, me_source = j\<rparr> \<in># heads runs" using j(1) by (simp add: in_heads)
    then have "before t \<lparr>me_key = k, me_value = v, me_source = j\<rparr>"
      using pop(3) assms(2) by (metis set_mset_mset)
    moreover have "k < fst e \<or> k = fst e"
      using assms(3) j run by (auto simp: list_all_length dest!: spec [of _ j])
    ultimately show ?thesis by (auto simp: before_def)
  qed
  have "me_key t \<le> fst e" if "j < length runs" "e \<in> set (runs ! j)" for j e
    using least [OF that] by auto
  moreover have "me_key t \<notin> fst ` set (runs ! j)" if "j < me_source t" for j
    using least [of j] that i by fastforce
  ultimately have "takes runs (me_source t) (me_key t) (me_value t) rest"
    unfolding takes_def using i rest by blast
  then show "\<exists>rest. takes runs (me_source t) (me_key t) (me_value t) rest" ..
  have "head_entry (me_source t) (runs ! me_source t) = {#t#}" by (simp add: head_entry_def rest)
  then show "mset rest_heap + head_entry (me_source t) es = heads (runs[me_source t := es])"
    using heads_update [OF i, of es] pop(2) assms(2) by simp
qed

subsection \<open>The merge loop\<close>

definition scans_at :: "run list list \<Rightarrow> sst_scan list \<Rightarrow> run list \<Rightarrow> bool" where
  "scans_at tables scans runs \<longleftrightarrow>
     length scans = length tables \<and> length runs = length tables \<and>
     (\<forall>i < length tables. scan_at (tables ! i) (scans ! i) (tl (runs ! i)))"

definition merged_value :: "bool \<Rightarrow> run list \<Rightarrow> bytes option \<Rightarrow> bytes \<Rightarrow> bytes option" where
  "merged_value is_highest runs last_key k =
     (if last_key = Some k then None
      else case map_of (concat runs) k of
             None \<Rightarrow> None
           | Some v \<Rightarrow> if is_highest \<and> v = [] then None else Some v)"

definition above :: "bytes option \<Rightarrow> run list \<Rightarrow> bool" where
  "above last_key runs \<longleftrightarrow> (\<forall>l. last_key = Some l \<longrightarrow> (\<forall>e \<in> set (concat runs). l \<le> fst e))"

lemma takes_facts:
  assumes "takes runs i k v rest" "list_all sorted_keys runs"
  shows "list_all sorted_keys (runs[i := rest])"
    "sum_list (map length (runs[i := rest])) < sum_list (map length runs)"
    "above (Some k) (runs[i := rest])" "map_of (concat runs) k = Some v"
    "k' \<noteq> k \<Longrightarrow> map_of (concat (runs[i := rest])) k' = map_of (concat runs) k'"
    "set (concat (runs[i := rest])) \<subseteq> set (concat runs)" "(k, v) \<in> set (concat runs)"
    "\<forall>e \<in> set (concat runs). k \<le> fst e"
proof -
  have i: "i < length runs" "runs ! i = (k, v) # rest" using assms(1) by (simp_all add: takes_def)
  have "sorted_keys (runs ! i)" using assms(2) i(1) by (simp add: list_all_length)
  then show "list_all sorted_keys (runs[i := rest])"
    using assms(2) i by (auto simp: list_all_length nth_list_update)
  show "sum_list (map length (runs[i := rest])) < sum_list (map length runs)"
    using i elem_le_sum_list [of i "map length runs"] by (simp add: map_update sum_list_update)
  have sub: "set (concat (runs[i := rest])) \<subseteq> set (concat runs)"
    using concat_update [OF i] by (metis Un_upper2 set_append set_subset_Cons sup.mono sup_mono order_refl)
  then show "set (concat (runs[i := rest])) \<subseteq> set (concat runs)" .
  have "\<forall>run \<in> set runs. \<forall>e \<in> set run. k \<le> fst e"
    using assms(1) unfolding takes_def by (metis in_set_conv_nth)
  then have "k \<le> fst e" if "e \<in> set (concat runs)" for e
    using that by auto
  then show "above (Some k) (runs[i := rest])" "\<forall>e \<in> set (concat runs). k \<le> fst e"
    using sub unfolding above_def by blast+
  show "map_of (concat runs) k = Some v" "k' \<noteq> k \<Longrightarrow>
      map_of (concat (runs[i := rest])) k' = map_of (concat runs) k'"
    using map_of_concat_update [OF i] assms(1) by (simp_all add: takes_def)
  show "(k, v) \<in> set (concat runs)" using i nth_mem [OF i(1)] by (auto intro: bexI [of _ "runs ! i"])
qed

lemma sorted_Cons_above:
  "sorted_keys out \<Longrightarrow> (\<forall>e \<in> set out. k < fst e) \<Longrightarrow> sorted_keys ((k, v) # out)"
  by auto

text \<open>
  The loop returns. It adds a sorted list of entries to the writer, which holds for every key
  the value the sources give it, unless the key was the last one taken.
\<close>

lemma merge_loop_correct:
  assumes "\<And>i. i < length tables \<Longrightarrow> table_fits (tables ! i)"
  shows "list_all sorted_keys runs \<Longrightarrow> scans_at tables scans runs \<Longrightarrow> mset heap = heads runs \<Longrightarrow>
    above last_key runs \<Longrightarrow>
    \<exists>out. merge_loop hi scans heap last_key w wrote =
      Some (writer_add_all out w, Inr (wrote \<or> out \<noteq> [])) \<and>
      sorted_keys out \<and> map_of out = merged_value hi runs last_key \<and>
      (\<forall>e \<in> set out. e \<in> set (concat runs) \<and> (\<forall>l. last_key = Some l \<longrightarrow> l < fst e))"
proof (induction "sum_list (map length runs)" arbitrary: runs scans heap last_key w wrote rule: less_induct)
  case less
  note step = merge_loop.simps [of hi scans heap last_key w wrote]
  show ?case
  proof (cases "heap_pop heap")
    case None
    then have heap: "heads runs = {#}" using less.prems(3) by (simp add: heap_pop_None)
    have "runs ! i = []" if "i < length runs" for i
    proof (cases "runs ! i")
      case (Cons e es)
      obtain k v where "e = (k, v)" by fastforce
      then have "\<lparr>me_key = k, me_value = v, me_source = i\<rparr> \<in># heads runs"
        using that Cons by (simp add: in_heads)
      then show ?thesis by (simp add: heap)
    qed
    then have "concat runs = []" by (metis concat_eq_Nil_conv in_set_conv_nth)
    then have "map_of (concat runs) = Map.empty" by (simp only: map_of.simps)
    then show ?thesis using None
      by (intro exI [of _ "[]"])
        (simp add: step writer_add_all_def merged_value_def fun_eq_iff)
  next
    case (Some pop)
    obtain t heap' where pop: "heap_pop heap = Some (t, heap')" using Some by (cases pop) simp
    define i k v where ikv: "i = me_source t" "k = me_key t" "v = me_value t"
    note taken = heap_pop_takes [OF pop less.prems(3,1), folded ikv]
    obtain rest where rest: "takes runs i k v rest" using taken(1) by blast
    let ?runs = "runs[i := rest]"
    note facts = takes_facts [OF rest less.prems(1)]
    have i: "i < length tables" "runs ! i = (k, v) # rest"
      using rest less.prems(2) by (simp_all add: takes_def scans_at_def)
    have "scan_at (tables ! i) (scans ! i) rest"
      using less.prems(2) i by (metis list.sel(3) scans_at_def)
    then obtain s' where s': "next_entry (scans ! i) = Inr (case rest of [] \<Rightarrow> None | e # _ \<Rightarrow> Some e, s')"
      "scan_at (tables ! i) s' (tl rest)"
      using next_entry_table [OF assms [OF i(1)]] by blast
    define heap2 where "heap2 = (case rest of [] \<Rightarrow> heap'
      | (k', v') # _ \<Rightarrow> \<lparr>me_key = k', me_value = v', me_source = i\<rparr> # heap')"
    have heap2: "mset heap2 = heads ?runs"
      using taken(2) [of rest] by (cases rest) (auto simp: heap2_def head_entry_def split: prod.splits)
    have scans2: "scans_at tables (scans[i := s']) ?runs"
      using less.prems(2) s'(2) i(1) by (auto simp: scans_at_def nth_list_update)
    have loop: "merge_loop hi scans heap last_key w wrote =
        (if last_key = Some k then merge_loop hi (scans[i := s']) heap2 last_key w wrote
         else if hi \<and> v = [] then merge_loop hi (scans[i := s']) heap2 (Some k) w wrote
         else merge_loop hi (scans[i := s']) heap2 (Some k) (writer_add k v w) True)"
      by (cases rest) (auto simp: step pop s'(1) ikv [symmetric] heap2_def Let_def split: prod.splits)
    have merged: "merged_value hi ?runs (Some k) k' = (if k' = k then None else merged_value hi runs None k')" for k'
      using facts(5) by (simp add: merged_value_def)
    have above_k: "l < k" if "last_key = Some l" "last_key \<noteq> Some k" for l
      using less.prems(4) facts(7) that by (force simp: above_def)
    have absent: "map_of (concat runs) l = None" if "last_key = Some l" "last_key \<noteq> Some k" for l
      using above_k [OF that] facts(8) unfolding map_of_eq_None_iff by fastforce
    have drop_last: "merged_value hi runs None k' = merged_value hi runs last_key k'"
      if "last_key \<noteq> Some k" for k'
      using absent [OF _ that, of k'] by (simp add: merged_value_def)
    show ?thesis
    proof (cases "last_key = Some k")
      case True
      have "above last_key ?runs" using facts(3) True by simp
      from less.hyps [OF facts(2) facts(1) scans2 heap2 this, of w wrote]
      obtain out where "merge_loop hi scans heap last_key w wrote =
          Some (writer_add_all out w, Inr (wrote \<or> out \<noteq> []))" "sorted_keys out"
        "map_of out = merged_value hi ?runs last_key"
        "\<forall>e \<in> set out. e \<in> set (concat ?runs) \<and> (\<forall>l. last_key = Some l \<longrightarrow> l < fst e)"
        unfolding loop using True by auto
      moreover have "merged_value hi ?runs last_key = merged_value hi runs last_key"
        unfolding True using merged by (auto simp: fun_eq_iff merged_value_def)
      ultimately show ?thesis using facts(6) by (intro exI [of _ out] conjI) (assumption | simp | blast)+
    next
      case False
      show ?thesis
      proof (cases "hi \<and> v = []")
        case True
        from less.hyps [OF facts(2) facts(1) scans2 heap2 facts(3), of w wrote]
        obtain out where "merge_loop hi scans heap last_key w wrote =
            Some (writer_add_all out w, Inr (wrote \<or> out \<noteq> []))" "sorted_keys out"
          "map_of out = merged_value hi ?runs (Some k)"
          "\<forall>e \<in> set out. e \<in> set (concat ?runs) \<and> k < fst e"
          unfolding loop using True False by auto
        moreover have "merged_value hi ?runs (Some k) k' = merged_value hi runs last_key k'" for k'
          unfolding merged using True facts(4) False absent by (auto simp: merged_value_def)
        moreover have "\<forall>e \<in> set out. e \<in> set (concat runs) \<and> (\<forall>l. last_key = Some l \<longrightarrow> l < fst e)"
          using calculation(4) facts(6) above_k [OF _ False] by (blast intro: order.strict_trans)
        ultimately show ?thesis by (intro exI [of _ out]) (simp add: fun_eq_iff)
      next
        case keep: False
        from less.hyps [OF facts(2) facts(1) scans2 heap2 facts(3), of "writer_add k v w" True]
        obtain out where "merge_loop hi scans heap last_key w wrote =
            Some (writer_add_all out (writer_add k v w), Inr True)" "sorted_keys out"
          "map_of out = merged_value hi ?runs (Some k)"
          "\<forall>e \<in> set out. e \<in> set (concat ?runs) \<and> k < fst e"
          unfolding loop using keep False by auto
        moreover from this(3) have "map_of ((k, v) # out) k' = merged_value hi runs last_key k'" for k'
          using keep facts(4) False drop_last [of k'] by (cases "k' = k") (auto simp: merged, auto simp: merged_value_def)
        moreover have "\<forall>e \<in> set ((k, v) # out). e \<in> set (concat runs) \<and> (\<forall>l. last_key = Some l \<longrightarrow> l < fst e)"
          using calculation(4) facts(6,7) above_k [OF _ False]
          by (auto simp only: list.set fst_conv intro: order.strict_trans)
        moreover have "sorted_keys ((k, v) # out)"
          using calculation(2,4) by (intro sorted_Cons_above) blast+
        moreover have "map_of ((k, v) # out) = merged_value hi runs last_key"
          by (rule ext) (rule calculation(5))
        ultimately show ?thesis
          by (intro exI [of _ "(k, v) # out"] conjI) (simp add: writer_add_all_def, assumption+)
      qed
    qed
  qed
qed

end
