(* ===== verification/Compact_Level.thy ===== *)
theory Compact_Level
  imports Compaction_Facts
begin

text \<open>
  Compacting a whole level: the tables of the level disappear and one table of the next level
  holds the merged entries. The sizes of the merged table are bounded by those of its sources.
\<close>

subsection \<open>Tables of a manifest\<close>

definition table_ok :: "disk \<Rightarrow> sstable_meta \<Rightarrow> run \<Rightarrow> bool" where
  "table_ok d t es \<longleftrightarrow>
     (\<exists>blocks. d (meta_path t) = Some (table_file blocks) \<and> table_fits blocks \<and> concat blocks = es) \<and>
     sorted_keys es \<and> es \<noteq> [] \<and> meta_min_key t = fst (hd es) \<and> meta_max_key t = fst (last es) \<and>
     meta_entry_count t = of_nat (length es)"

lemma table_ok_open:
  assumes "table_ok d t es"
  obtains blocks where "reader_open (meta_path t) d = Inr (table_reader blocks)" "table_fits blocks"
    "concat blocks = es" "sorted_keys es"
  using assms reader_open_table by (auto simp: table_ok_def)

text \<open>Opening and seeding succeed on valid tables.\<close>

lemma open_all_tables:
  "list_all2 (table_ok d) ts ess \<Longrightarrow>
     \<exists>tables. open_all ts d = Inr (map table_reader tables) \<and> map concat tables = ess \<and>
       list_all table_fits tables"
proof (induction rule: list_all2_induct)
  case (Cons t ts es ess)
  obtain blocks where "reader_open (meta_path t) d = Inr (table_reader blocks)" "table_fits blocks"
    "concat blocks = es" using Cons.hyps(1) by (rule table_ok_open)
  moreover obtain tables where "open_all ts d = Inr (map table_reader tables)"
    "map concat tables = ess" "list_all table_fits tables" using Cons.IH by blast
  ultimately show ?case by (intro exI [of _ "blocks # tables"]) simp
qed simp

lemma seed_heap_tables:
  "list_all table_fits tables \<Longrightarrow>
     \<exists>h ss. seed_heap j (map reader_scan (map table_reader tables)) = Inr (h, ss) \<and>
       length ss = length tables \<and>
       (\<forall>i < length tables. scan_at (tables ! i) (ss ! i) (tl (concat (tables ! i)))) \<and>
       mset h = (\<Sum>i < length tables. head_entry (j + i) (concat (tables ! i)))"
proof (induction tables arbitrary: j)
  case (Cons t tables)
  obtain s where s: "next_entry (reader_scan (table_reader t)) =
      Inr (case concat t of [] \<Rightarrow> None | e # _ \<Rightarrow> Some e, s)" "scan_at t s (tl (concat t))"
    using next_entry_table [OF _ scan_at_start] Cons.prems by auto
  obtain h ss where ss: "seed_heap (j + 1) (map reader_scan (map table_reader tables)) = Inr (h, ss)"
    "length ss = length tables"
    "\<forall>i < length tables. scan_at (tables ! i) (ss ! i) (tl (concat (tables ! i)))"
    "mset h = (\<Sum>i < length tables. head_entry (j + 1 + i) (concat (tables ! i)))"
    using Cons.IH [of "j + 1"] Cons.prems by auto
  let ?h = "case concat t of [] \<Rightarrow> h | (k, v) # _ \<Rightarrow> \<lparr>me_key = k, me_value = v, me_source = j\<rparr> # h"
  have "seed_heap j (map reader_scan (map table_reader (t # tables))) = Inr (?h, s # ss)"
    using s(1) ss(1) by (cases "concat t") (auto simp del: concat_eq_Nil_conv split: prod.splits)
  moreover have "mset ?h = (\<Sum>i < length (t # tables). head_entry (j + i) (concat ((t # tables) ! i)))"
  proof -
    have "mset ?h = head_entry j (concat t) + mset h"
      by (cases "concat t") (auto simp: head_entry_def simp del: concat_eq_Nil_conv split: prod.splits)
    then show ?thesis by (simp add: ss(4) sum.lessThan_Suc_shift del: sum.lessThan_Suc)
  qed
  moreover have "\<forall>i < length (t # tables).
      scan_at ((t # tables) ! i) ((s # ss) ! i) (tl (concat ((t # tables) ! i)))"
    using s(2) ss(3) by (auto simp: less_Suc_eq_0_disj)
  ultimately show ?case using ss(2) by (intro exI [of _ ?h] exI [of _ "s # ss"]) simp
qed simp

subsection \<open>Sizes\<close>

definition entry_weight :: "bytes \<times> bytes \<Rightarrow> nat" where
  "entry_weight e = 28 + 2 * length (fst e) + length (snd e)"

definition weight :: "run \<Rightarrow> nat" where
  "weight es = sum_list (map entry_weight es)"

lemma index_bytes_length:
  "length (index_bytes ies) = (\<Sum>ie\<leftarrow>ies. 20 + length (fst ie))"
  by (induction ies) (auto simp: index_bytes_def)

lemma table_file_weight:
  assumes "[] \<notin> set blocks"
  shows "length (table_file blocks) \<le> 20 + weight (concat blocks)"
proof -
  have "length (index_bytes (index_of off blocks)) + length (encode_entries (concat blocks))
      \<le> weight (concat blocks)" for off
    using assms
  proof (induction blocks arbitrary: off)
    case (Cons b blocks)
    have enc: "length (encode_entries es) = (\<Sum>e\<leftarrow>es. 8 + length (fst e) + length (snd e))" for es
      by (induction es) (simp_all add: length_encode_entry)
    have "20 + length (fst (hd b)) + length (encode_entries b) \<le> weight b"
    proof (cases b)
      case (Cons e es)
      have "length (encode_entries es) \<le> weight es"
        unfolding enc weight_def entry_weight_def by (rule sum_list_mono) simp
      then show ?thesis by (simp add: Cons weight_def entry_weight_def length_encode_entry)
    qed (use Cons.prems in simp)
    then show ?case using Cons.IH [of "off + length (encode_entries b)"] Cons.prems
      by (simp add: index_bytes_length weight_def)
  qed (simp add: index_bytes_def weight_def)
  from this [of 0] show ?thesis by (simp add: table_file_def)
qed

lemma weight_subset:
  assumes "distinct es" "set es \<subseteq> set fs"
  shows "weight es \<le> weight fs"
proof -
  have "mset es \<subseteq># mset fs"
    using assms by (metis mset_set_set mset_set_set_mset_msubset subset_imp_msubset_mset_set
        finite_set subset_mset.order_trans set_mset_mset)
  then have "sum_mset (image_mset entry_weight (mset es)) \<le> sum_mset (image_mset entry_weight (mset fs))"
    by (auto simp: subset_mset.le_iff_add)
  then show ?thesis unfolding weight_def by (simp add: sum_mset_sum_list [symmetric])
qed

lemma sorted_keys_distinct: "sorted_keys es \<Longrightarrow> distinct es"
  using strict_sorted_distinct [of "map fst es"] by (simp add: distinct_map)

subsection \<open>A level\<close>

text \<open>
  The outcome: with \<open>ess\<close> the entries of the tables of the level, oldest first, \<open>out\<close> is what
  the new table holds.
\<close>

definition compacted ::
    "manifest \<times> disk \<Rightarrow> nat \<Rightarrow> manifest \<times> disk \<Rightarrow> run \<Rightarrow> bool" where
  "compacted s level s' out \<longleftrightarrow>
     (let (m, d) = s; (m', d') = s';
          path = sst_name (level + 1) (next_id m);
          m1 = manifest_remove (m\<lparr>next_id := next_id m + 1\<rparr>) level (map meta_id (manifest_level m level))
      in (\<forall>p. p \<noteq> path \<longrightarrow>
            d' p = (if p \<in> meta_path ` set (manifest_level m level) then None else d p)) \<and>
         (if out = [] then m' = m1
          else \<exists>t. m' = manifest_add m1 t \<and> meta_level t = level + 1 \<and> meta_path t = path \<and>
            meta_id t = next_id m \<and> table_ok d' t out))"

lemma fold_remove_files: "fold (\<lambda>p d. d(p := None)) ps d q = (if q \<in> set ps then None else d q)"
  by (induction ps arbitrary: d) auto

lemma compact_level_correct:
  assumes "list_all2 (table_ok d) (manifest_level m level) ess" "manifest_level m level \<noteq> []"
    and "weight (concat ess) + 20 < 2 ^ 64"
  shows "\<exists>s' out. compact_level (m, d) level = Some (s', Inr ()) \<and> compacted (m, d) level s' out \<and>
    sorted_keys out \<and> map_of out = merged_value (level + 1 \<ge> num_levels m - 1) ess None"
proof -
  let ?ts = "manifest_level m level" and ?hi = "level + 1 \<ge> num_levels m - 1"
  let ?path = "sst_name (level + 1) (next_id m)"
  obtain tables where tables: "open_all ?ts d = Inr (map table_reader tables)" "map concat tables = ess"
    "list_all table_fits tables" using open_all_tables [OF assms(1)] by blast
  obtain h ss where seeds: "seed_heap 0 (map reader_scan (map table_reader tables)) = Inr (h, ss)"
    "length ss = length tables"
    "\<forall>i < length tables. scan_at (tables ! i) (ss ! i) (tl (concat (tables ! i)))"
    "mset h = (\<Sum>i < length tables. head_entry i (concat (tables ! i)))"
    using seed_heap_tables [OF tables(3), of 0] by auto
  obtain w d1 where w: "writer_new ?path d = (w, d1)" by fastforce
  have new: "writer_state w [] []" "w_path w = ?path" "d1 = d(?path \<mapsto> [])"
    using writer_state_new [of ?path default_block_size d] w
    by (simp_all add: writer_new_def) (simp add: writer_with_block_size_def)
  have ess: "ess ! i = concat (tables ! i)" if "i < length tables" for i
    using that by (simp add: tables(2) [symmetric])
  have len: "length ess = length tables" by (simp add: tables(2) [symmetric])
  have "list_all sorted_keys ess"
    using assms(1) by (auto simp: list_all2_conv_all_nth list_all_length table_ok_def)
  moreover have "scans_at tables ss ess" using seeds(2,3) by (simp add: scans_at_def len ess)
  moreover have "mset h = heads ess" using seeds(4) by (simp add: heads_def len ess)
  moreover have "above None ess" by (simp add: above_def)
  ultimately obtain out where out: "merge_loop ?hi ss h None w False = Some (writer_add_all out w, Inr (out \<noteq> []))"
    "sorted_keys out" "map_of out = merged_value ?hi ess None" "\<forall>e \<in> set out. e \<in> set (concat ess)"
    using merge_loop_correct [of tables ess ss h None ?hi w False] tables(3)
    by (auto simp: list_all_length)
  obtain blocks cur where ws: "writer_state (writer_add_all out w) blocks cur" "concat blocks @ cur = out"
    "w_path (writer_add_all out w) = ?path"
    using writer_state_add_all [OF new(1), of out] new(2) by auto
  define d2 where "d2 = fold (\<lambda>p d. d(p := None)) (map meta_path ?ts) d1"
  have d2: "d2 p = (if p \<in> meta_path ` set ?ts then None else d1 p)" for p
    by (simp add: d2_def fold_remove_files)
  let ?m = "manifest_remove (m\<lparr>next_id := next_id m + 1\<rparr>) level (map meta_id ?ts)"
  have run: "compact_level (m, d) level =
      (if out \<noteq> [] then
         let ((n, lo, hi), d3) = writer_finish (writer_add_all out w) d2
         in Some ((manifest_add ?m \<lparr>meta_id = next_id m, meta_level = level + 1, meta_path = ?path,
              meta_entry_count = n, meta_min_key = lo, meta_max_key = hi\<rparr>, d3), Inr ())
       else Some ((?m, d2(?path \<mapsto> w_out (writer_add_all out w))), Inr ()))"
    using assms(2) by (simp add: compact_level_def tables(1) seeds(1) [simplified] next_sstable_path_def
        w [simplified] out(1) [simplified] d2_def Let_def)
  show ?thesis
  proof (cases "out = []")
    case True
    then show ?thesis using run out(2,3) d2 new(3)
      by (intro exI [of _ "(?m, d2(?path \<mapsto> w_out (writer_add_all out w)))"] exI [of _ out])
        (simp add: compacted_def Let_def)
  next
    case False
    obtain blocks' where fin: "concat blocks' = out" "[] \<notin> set blocks'"
      "writer_finish (writer_add_all out w) d2 =
        ((of_nat (length out), fst (hd out), fst (last out)), d2(?path \<mapsto> table_file blocks'))"
      using writer_finish_table [OF ws(1), of out d2] ws(2,3) False by auto
    have "list_all entry_fits (concat ess)"
      using tables(3) by (auto simp: tables(2) [symmetric] list_all_iff table_fits_def)
    then have "list_all entry_fits out" using out(4) by (auto simp: list_all_iff)
    moreover have "weight out \<le> weight (concat ess)"
      using out(4) by (intro weight_subset sorted_keys_distinct [OF out(2)]) blast
    then have "length (table_file blocks') < 2 ^ 64"
      using table_file_weight [OF fin(2)] fin(1) assms(3) by simp
    ultimately have "table_fits blocks'" using fin(1,2) by (simp add: table_fits_def)
    then show ?thesis using run out(2,3) d2 new(3) fin False
      by (intro exI [of _ "(manifest_add ?m \<lparr>meta_id = next_id m, meta_level = level + 1,
            meta_path = ?path, meta_entry_count = of_nat (length out), meta_min_key = fst (hd out),
            meta_max_key = fst (last out)\<rparr>, d2(?path \<mapsto> table_file blocks'))"] exI [of _ out])
        (auto simp: compacted_def Let_def table_ok_def)
  qed
qed

end
