(* ===== verification/Engine_Facts.thy ===== *)
theory Engine_Facts
  imports Engine Compact_Level
begin

text \<open>
  The engine as a partial function from keys to values: the memtable over the tables, newest
  first, with empty values hidden. \<open>lss\<close> are the entries of the tables, level by level and
  oldest first.
\<close>

subsection \<open>The tables\<close>

definition tables_named :: "manifest \<Rightarrow> bool" where
  "tables_named m \<longleftrightarrow>
     (\<forall>l < length (levels m). \<forall>t \<in> set (levels m ! l).
        meta_path t = sst_name l (meta_id t) \<and> unat (meta_id t) < unat (next_id m))"

definition store_ok :: "disk \<Rightarrow> manifest \<Rightarrow> run list list \<Rightarrow> bool" where
  "store_ok d m lss \<longleftrightarrow> list_all2 (list_all2 (table_ok d)) (levels m) lss \<and> tables_named m"

definition store_view :: "run list list \<Rightarrow> bytes \<Rightarrow> bytes option" where
  "store_view lss = map_of (concat (concat (map rev lss)))"

lemma table_ok_cong: "d' (meta_path t) = d (meta_path t) \<Longrightarrow> table_ok d' t es = table_ok d t es"
  by (simp add: table_ok_def)

lemma table_ok_outside:
  assumes "table_ok d t es" "key < meta_min_key t \<or> meta_max_key t < key"
  shows "map_of es key = None"
proof -
  have "fst (hd es) \<le> fst e \<and> fst e \<le> fst (last es)" if "e \<in> set es" for e
    using sorted_keys_hd_last [OF _ that] assms(1) by (simp add: table_ok_def)
  then have "fst e \<noteq> key" if "e \<in> set es" for e
    using that assms by (fastforce simp: table_ok_def)
  then show ?thesis by (auto simp: map_of_eq_None_iff)
qed

lemma search_tables_correct:
  "list_all2 (table_ok d) ts ess \<Longrightarrow> search_tables d ts key = Inr (map_of (concat ess) key)"
proof (induction rule: list_all2_induct)
  case (Cons t ts es ess)
  obtain blocks where "reader_open (meta_path t) d = Inr (table_reader blocks)" "table_fits blocks"
    "concat blocks = es" "sorted_keys es" using Cons.hyps(1) by (rule table_ok_open)
  then have "and_then (reader_open (meta_path t) d) (\<lambda>r. reader_get r key) = Inr (map_of es key)"
    and "reader_get (table_reader blocks) key = Inr (map_of es key)"
    using reader_get_table [of blocks key] by simp_all
  then show ?case
    using Cons.IH table_ok_outside [OF Cons.hyps(1), of key] \<open>reader_open _ _ = _\<close>
    by (auto simp: map_add_def split: option.splits)
qed simp

lemma search_levels_correct:
  "list_all2 (list_all2 (table_ok d)) ls lss \<Longrightarrow>
     search_levels d (enumerate i ls) key = Inr (store_view lss key)"
proof (induction arbitrary: i rule: list_all2_induct)
  case (Cons ts ls ess lss)
  have "search_tables d (rev ts) key = Inr (map_of (concat (rev ess)) key)"
    using Cons.hyps(1) by (intro search_tables_correct) simp
  then show ?case using Cons.IH [of "Suc i"]
    by (auto simp: store_view_def map_add_def split: option.splits)
qed (simp add: store_view_def)

subsection \<open>Registering a table\<close>

definition add_run :: "nat \<Rightarrow> run \<Rightarrow> run list list \<Rightarrow> run list list" where
  "add_run level es lss =
     (let lvls = (if level \<ge> length lss then lss @ replicate (level + 1 - length lss) [] else lss)
      in lvls[level := lvls ! level @ [es]])"

lemma manifest_add_levels:
  assumes "list_all2 (list_all2 P) (levels m) lss" "P t es"
  shows "list_all2 (list_all2 P) (levels (manifest_add m t)) (add_run (meta_level t) es lss)"
proof -
  let ?pad = "\<lambda>xs. if meta_level t \<ge> length xs
    then xs @ replicate (meta_level t + 1 - length xs) [] else xs"
  have len: "length lss = length (levels m)" using assms(1) by (simp add: list_all2_lengthD)
  have pad: "list_all2 (list_all2 P) (?pad (levels m)) (?pad lss)"
    using assms(1) by (auto simp: len list_all2_conv_all_nth nth_append)
  have "meta_level t < length (?pad (levels m))" by simp
  then have "list_all2 P (?pad (levels m) ! meta_level t) (?pad lss ! meta_level t)"
    using list_all2_nthD [OF pad] by blast
  then have "list_all2 P (?pad (levels m) ! meta_level t @ [t]) (?pad lss ! meta_level t @ [es])"
    using assms(2) by (intro list_all2_appendI) simp_all
  then show ?thesis using list_all2_update_cong [OF pad]
    by (simp add: manifest_add_def add_run_def Let_def)
qed

lemma tables_named_add:
  assumes "tables_named m" "meta_path t = sst_name (meta_level t) (meta_id t)"
    "unat (meta_id t) < unat (next_id m)"
  shows "tables_named (manifest_add m t)"
  using assms
  by (fastforce simp: tables_named_def manifest_add_def Let_def nth_list_update nth_append
      not_less split: if_splits)

lemma tables_named_next:
  "tables_named m \<Longrightarrow> unat (next_id m) + 1 < 2 ^ 64 \<Longrightarrow> tables_named (m\<lparr>next_id := next_id m + 1\<rparr>)"
  by (fastforce simp: tables_named_def unat_word_ariths)

text \<open>The name of the next table is new, and tables of different levels have different files.\<close>

lemma new_path_fresh:
  assumes "tables_named m" "l < length (levels m)" "t \<in> set (levels m ! l)"
  shows "meta_path t \<noteq> sst_name l' (next_id m)" "meta_path t \<noteq> wal_name"
  using assms by (fastforce simp: tables_named_def sst_name_inject sst_name_not_wal wal_name_def)+

lemma store_ok_disk:
  assumes "store_ok d m lss"
    and "\<And>l t. l < length (levels m) \<Longrightarrow> t \<in> set (levels m ! l) \<Longrightarrow> d' (meta_path t) = d (meta_path t)"
  shows "store_ok d' m lss"
proof -
  have "list_all2 (table_ok d') (levels m ! l) (lss ! l)" if "l < length (levels m)" for l
    using assms that table_ok_cong [of d' _ d]
    by (auto simp: store_ok_def list_all2_conv_all_nth)
  then show ?thesis using assms(1) by (simp add: store_ok_def list_all2_conv_all_nth)
qed

subsection \<open>The engine\<close>

text \<open>No level has reached the number of tables at which it is compacted.\<close>

definition levels_short :: "manifest \<Rightarrow> bool" where
  "levels_short m \<longleftrightarrow> (\<forall>l < length (levels m). length (levels m ! l) < max_tables_per_level)"

lemma levels_short_push:
  assumes "\<forall>l < length ls. length (ls ! l) < max_tables_per_level" "length (ls ! 0) + 1 < max_tables_per_level"
    and "l < length ls"
  shows "length (ls[0 := ls ! 0 @ [t]] ! l) < max_tables_per_level"
  using assms by (cases "l = 0") simp_all

lemma compact_levels_short:
  "(\<forall>l \<in> set ls. level_count (fst s) l < max_tables_per_level) \<Longrightarrow> compact_levels ls s = Some (s, Inr ())"
  by (induction ls) auto

lemma maybe_compact_short: "levels_short (fst s) \<Longrightarrow> maybe_compact s = Some (s, Inr ())"
  unfolding maybe_compact_def
  by (rule compact_levels_short) (auto simp: levels_short_def level_count_def num_levels_def max_tables_per_level_def)

definition engine_ok :: "('m \<Rightarrow> bool) \<Rightarrow> 'm lsm \<times> disk \<Rightarrow> run list list \<Rightarrow> bool" where
  "engine_ok ok = (\<lambda>(e, d) lss.
     ok (e_memtable e) \<and> wal_ok (e_wal e, d) \<and> wal_path (e_wal e) = wal_name \<and>
     store_ok d (e_manifest e) lss)"

definition engine_view ::
    "('m \<Rightarrow> bytes \<Rightarrow> bytes option) \<Rightarrow> 'm lsm \<times> disk \<Rightarrow> run list list \<Rightarrow> bytes \<Rightarrow> bytes option" where
  "engine_view content s lss k =
     Option.bind ((store_view lss ++ content (e_memtable (fst s))) k) hide_tombstone"

context write_buffer
begin

lemma lsm_get_correct:
  assumes "engine_ok ok s lss"
  shows "lsm_get ops s k = Inr (engine_view content s lss k)"
proof -
  obtain e d where s: "s = (e, d)" by fastforce
  have "search_levels d (manifest_levels (e_manifest e)) k = Inr (store_view lss k)"
    using assms by (auto simp: s engine_ok_def store_ok_def manifest_levels_def
        intro: search_levels_correct)
  moreover have "mt_get ops (e_memtable e) k = content (e_memtable e) k"
    using assms by (simp add: s engine_ok_def get_law)
  ultimately show ?thesis
    by (simp add: s lsm_get_def engine_view_def map_add_def split: option.splits)
qed

end

text \<open>Writing entries and finishing leaves a table file that holds them in blocks.\<close>

lemma written_table:
  assumes "list_all entry_fits es" "weight es + 20 < 2 ^ 64" "writer_new path d = (w, d1)"
  obtains blocks where "table_fits blocks" "concat blocks = es"
    "writer_finish (writer_add_entries es w) d1 =
      ((of_nat (length es), if es = [] then [] else fst (hd es), if es = [] then [] else fst (last es)),
       d(path \<mapsto> table_file blocks))"
proof -
  have new: "writer_state w [] []" "w_path w = path" "d1 = d(path \<mapsto> [])"
    using writer_state_new [of path default_block_size d] assms(3)
    by (simp_all add: writer_new_def) (simp add: writer_with_block_size_def)
  have same: "writer_add_entries es w = writer_add_all es w"
    by (simp add: writer_add_entries_def writer_add_all_def)
  obtain blocks cur where ws: "writer_state (writer_add_all es w) blocks cur" "concat blocks @ cur = es"
    "w_path (writer_add_all es w) = path"
    using writer_state_add_all [OF new(1), of es] new(2) by auto
  obtain blocks' where fin: "concat blocks' = es" "[] \<notin> set blocks'"
    "writer_finish (writer_add_all es w) d1 =
      ((of_nat (length es), if es = [] then [] else fst (hd es), if es = [] then [] else fst (last es)),
       d1(path \<mapsto> table_file blocks'))"
    using writer_finish_table [OF ws(1) ws(2) [symmetric], of d1] ws(3) by auto
  have "length (table_file blocks') < 2 ^ 64"
    using table_file_weight [OF fin(2)] fin(1) assms(2) by simp
  then have "table_fits blocks'" using fin(1,2) assms(1) by (simp add: table_fits_def)
  then show thesis using that fin new(3) by (simp add: same)
qed

lemma write_table:
  assumes "es \<noteq> []" "sorted_keys es" "list_all entry_fits es" "weight es + 20 < 2 ^ 64"
    and "writer_new path d = (w, d1)"
  shows "\<exists>n lo hi d2. writer_finish (writer_add_entries es w) d1 = ((n, lo, hi), d2) \<and>
    (\<forall>p. p \<noteq> path \<longrightarrow> d2 p = d p) \<and>
    (\<forall>d' t. d' path = d2 path \<longrightarrow> meta_path t = path \<longrightarrow> meta_entry_count t = n \<longrightarrow>
       meta_min_key t = lo \<longrightarrow> meta_max_key t = hi \<longrightarrow> table_ok d' t es) \<and> n = of_nat (length es)"
  by (rule written_table [OF assms(3-5)]) (use assms(1,2) in \<open>auto simp: table_ok_def\<close>)

text \<open>The store after a flush: the drained entries are the newest table of level 0.\<close>

definition writable :: "manifest \<Rightarrow> run \<Rightarrow> bool" where
  "writable m es \<longleftrightarrow>
     list_all entry_fits es \<and> weight es + 20 < 2 ^ 64 \<and> unat (next_id m) + 1 < 2 ^ 64 \<and>
     0 < length (levels m)"

text \<open>With room for one more table on level 0, no compaction follows.\<close>

definition flushable :: "manifest \<Rightarrow> run \<Rightarrow> bool" where
  "flushable m es \<longleftrightarrow>
     writable m es \<and> levels_short m \<and> length (levels m ! 0) + 1 < max_tables_per_level"

lemma store_ok_add:
  assumes "store_ok d m lss" "unat (next_id m) + 1 < 2 ^ 64"
    and "\<And>p. p \<noteq> sst_name l (next_id m) \<Longrightarrow> p \<noteq> wal_name \<Longrightarrow> d' p = d p"
    and "meta_level t = l" "meta_path t = sst_name l (next_id m)" "meta_id t = next_id m" "table_ok d' t es"
  shows "store_ok d' (manifest_add (m\<lparr>next_id := next_id m + 1\<rparr>) t) (add_run l es lss)"
proof -
  have named: "tables_named m" using assms(1) by (simp add: store_ok_def)
  have "store_ok d' m lss"
    using assms(3) new_path_fresh [OF named] by (intro store_ok_disk [OF assms(1)]) simp
  then have "list_all2 (list_all2 (table_ok d')) (levels (m\<lparr>next_id := next_id m + 1\<rparr>)) lss"
    by (simp add: store_ok_def)
  from manifest_add_levels [OF this assms(7)] show ?thesis
    using tables_named_add [OF tables_named_next [OF named assms(2)], of t] assms(2,4-6)
    by (simp add: store_ok_def unat_word_ariths)
qed

text \<open>The table behind the others on level 0 holds the run that was added last.\<close>

lemma newest_table:
  assumes "store_ok d m (add_run 0 es lss)" "levels m = ls[0 := ls ! 0 @ [t]]" "0 < length ls"
  shows "table_ok d t es"
proof -
  have all: "list_all2 (list_all2 (table_ok d)) (levels m) (add_run 0 es lss)" using assms(1) by (simp add: store_ok_def)
  have "list_all2 (table_ok d) (levels m ! 0) (add_run 0 es lss ! 0)"
    using list_all2_nthD [OF all, of 0] assms(2,3) by simp
  moreover have "levels m ! 0 = ls ! 0 @ [t]" using assms(2,3) by simp
  moreover have "\<exists>xs. add_run 0 es lss ! 0 = xs @ [es]" by (auto simp: add_run_def Let_def)
  ultimately show ?thesis by (auto simp: list_all2_append1 dest: list_all2_lengthD)
qed

lemma table_ok_read:
  assumes "table_ok d t es"
  shows "and_then (reader_open (meta_path t) d) read_all = Inr es"
proof -
  obtain blocks where "reader_open (meta_path t) d = Inr (table_reader blocks)" "table_fits blocks" "concat blocks = es"
    using assms by (rule table_ok_open)
  then show ?thesis using read_all_table by simp
qed

lemma store_view_add_run:
  assumes "0 < length lss"
  shows "store_view (add_run 0 es lss) = store_view lss ++ map_of es"
  using assms by (cases lss) (simp_all add: store_view_def add_run_def)

context write_buffer
begin

text \<open>Writing drained entries, which may be those of an earlier moment.\<close>

lemma flush_entries_step:
  assumes "engine_ok ok (e, d) lss" "es \<noteq> []" "sorted_keys es" "writable (e_manifest e) es"
  shows "\<exists>e' d'. flush_entries es (e, d) = finish_with_compaction (e', d') () \<and>
    engine_ok ok (e', d') (add_run 0 es lss) \<and> e_memtable e' = e_memtable e \<and>
    store_view (add_run 0 es lss) = store_view lss ++ map_of es \<and>
    (\<exists>t. levels (e_manifest e') = (levels (e_manifest e))[0 := levels (e_manifest e) ! 0 @ [t]]) \<and>
    next_id (e_manifest e') = next_id (e_manifest e) + 1 \<and>
    d' wal_name = Some [] \<and> wal_written (e_wal e', d') = [] \<and>
    e_flush_threshold e' = e_flush_threshold e"
proof -
  have eok: "ok (e_memtable e)" "wal_ok (e_wal e, d)" "wal_path (e_wal e) = wal_name"
    "store_ok d (e_manifest e) lss" using assms(1) by (simp_all add: engine_ok_def)
  let ?m = "e_manifest e" and ?path = "sst_name 0 (next_id (e_manifest e))"
  note fl = assms(4)
  obtain w d1 where w: "writer_new ?path d = (w, d1)" by fastforce
  obtain n lo hi d2 where fin: "writer_finish (writer_add_entries es w) d1 = ((n, lo, hi), d2)"
    "\<forall>p. p \<noteq> ?path \<longrightarrow> d2 p = d p"
    "\<And>d' t. d' ?path = d2 ?path \<Longrightarrow> meta_path t = ?path \<Longrightarrow> meta_entry_count t = n \<Longrightarrow>
       meta_min_key t = lo \<Longrightarrow> meta_max_key t = hi \<Longrightarrow> table_ok d' t es"
    using write_table [OF assms(2,3) _ _ w] fl by (auto simp: writable_def)
  let ?t = "\<lparr>meta_id = next_id ?m, meta_level = 0, meta_path = ?path, meta_entry_count = n,
    meta_min_key = lo, meta_max_key = hi\<rparr>"
  let ?m' = "manifest_add (?m\<lparr>next_id := next_id ?m + 1\<rparr>) ?t"
  have not_wal: "?path \<noteq> wal_name" by (simp add: sst_name_not_wal wal_name_def)
  obtain wl d3 where trunc: "wal_truncate (e_wal e, d2) = (wl, d3)" by fastforce
  have wl: "wal_ok (wl, d3)" "wal_path wl = wal_name" "d3 wal_name = Some []" "wal_buffer wl = []"
    "\<And>p. p \<noteq> wal_name \<Longrightarrow> d3 p = d2 p"
    using trunc eok(3) by (auto simp: wal_truncate_def wal_sync_def flush_buf_def disk_append_def
        wal_ok_def buf_capacity_def)
  have "table_ok d3 ?t es" using fin(3) [of d3 ?t] wl(5) not_wal by simp
  then have store: "store_ok d3 ?m' (add_run 0 es lss)"
    using fl fin(2) wl(5) by (intro store_ok_add [OF eok(4)]) (simp_all add: writable_def)
  let ?e' = "e\<lparr>e_manifest := ?m', e_wal := wl\<rparr>"
  have "flush_entries es (e, d) = finish_with_compaction (?e', d3) ()"
    by (simp add: flush_entries_def next_sstable_path_def w fin(1) trunc Let_def)
  moreover have "engine_ok ok (?e', d3) (add_run 0 es lss)"
    using eok(1) wl store by (simp add: engine_ok_def)
  moreover have "0 < length lss"
    using fl eok(4) list_all2_lengthD [of _ "levels ?m" lss] by (auto simp: writable_def store_ok_def)
  then have "store_view (add_run 0 es lss) = store_view lss ++ map_of es" by (rule store_view_add_run)
  moreover have "levels ?m' = (levels ?m)[0 := levels ?m ! 0 @ [?t]]" "next_id ?m' = next_id ?m + 1"
    using fl by (simp_all add: manifest_add_def writable_def Let_def)
  ultimately show ?thesis using wl
    by (intro exI [of _ ?e'] exI [of _ d3]) (auto simp: wal_written_def written_def)
qed

lemma flush_memtable_step:
  assumes "engine_ok ok (e, d) lss" "content (e_memtable e) \<noteq> Map.empty"
    and "\<And>es. sorted_keys es \<Longrightarrow> map_of es = content (e_memtable e) \<Longrightarrow> writable (e_manifest e) es"
  shows "\<exists>es e' d'. flush_memtable ops (e, d) = finish_with_compaction (e', d') () \<and>
    sorted_keys es \<and> map_of es = content (e_memtable e) \<and>
    engine_ok ok (e', d') (add_run 0 es lss) \<and> content (e_memtable e') = Map.empty \<and>
    engine_view content (e', d') (add_run 0 es lss) = engine_view content (e, d) lss \<and>
    (\<exists>t. levels (e_manifest e') = (levels (e_manifest e))[0 := levels (e_manifest e) ! 0 @ [t]]) \<and>
    next_id (e_manifest e') = next_id (e_manifest e) + 1 \<and>
    d' wal_name = Some [] \<and> wal_written (e_wal e', d') = [] \<and>
    e_flush_threshold e' = e_flush_threshold e"
proof -
  have "ok (e_memtable e)" using assms(1) by (simp add: engine_ok_def)
  then obtain es mt where drain: "mt_drain ops (e_memtable e) = (es, mt)" "ok mt" "content mt = Map.empty"
    "sorted_keys es" "map_of es = content (e_memtable e)"
    using drain_law by blast
  have ne: "es \<noteq> []" using drain(5) assms(2) by (metis map_of.simps(1))
  have "engine_ok ok (e\<lparr>e_memtable := mt\<rparr>, d) lss" "writable (e_manifest (e\<lparr>e_memtable := mt\<rparr>)) es"
    using assms(1,3) drain(2,4,5) by (simp_all add: engine_ok_def)
  from flush_entries_step [OF this(1) ne drain(4) this(2)] obtain e' d' where step:
    "flush_entries es (e\<lparr>e_memtable := mt\<rparr>, d) = finish_with_compaction (e', d') ()"
    "engine_ok ok (e', d') (add_run 0 es lss)" "e_memtable e' = mt"
    "store_view (add_run 0 es lss) = store_view lss ++ map_of es"
    "\<exists>t. levels (e_manifest e') = (levels (e_manifest e))[0 := levels (e_manifest e) ! 0 @ [t]]"
    "next_id (e_manifest e') = next_id (e_manifest e) + 1"
    "d' wal_name = Some []" "wal_written (e_wal e', d') = []" "e_flush_threshold e' = e_flush_threshold e"
    by auto
  then show ?thesis using ne drain
    by (intro exI [of _ es] exI [of _ e'] exI [of _ d'])
      (simp add: flush_memtable_def engine_view_def [abs_def])
qed

lemma flush_memtable_correct:
  assumes "engine_ok ok (e, d) lss"
    and "\<And>es. sorted_keys es \<Longrightarrow> map_of es = content (e_memtable e) \<Longrightarrow> flushable (e_manifest e) es"
  shows "\<exists>s' lss'. flush_memtable ops (e, d) = Some (s', Inr ()) \<and> engine_ok ok s' lss' \<and>
    engine_view content s' lss' = engine_view content (e, d) lss \<and>
    content (e_memtable (fst s')) = Map.empty \<and>
    (content (e_memtable e) \<noteq> Map.empty \<longrightarrow>
       snd s' wal_name = Some [] \<and> wal_written (e_wal (fst s'), snd s') = [] \<and>
       (\<exists>es t. sorted_keys es \<and> map_of es = content (e_memtable e) \<and> lss' = add_run 0 es lss \<and>
          levels (e_manifest (fst s')) = (levels (e_manifest e))[0 := levels (e_manifest e) ! 0 @ [t]] \<and>
          table_ok (snd s') t es) \<and>
       next_id (e_manifest (fst s')) = next_id (e_manifest e) + 1 \<and>
       e_flush_threshold (fst s') = e_flush_threshold e)"
proof (cases "content (e_memtable e) = Map.empty")
  case True
  obtain es mt where drain: "mt_drain ops (e_memtable e) = (es, mt)" "ok mt" "content mt = Map.empty"
    "map_of es = content (e_memtable e)"
    using drain_law assms(1) by (fastforce simp: engine_ok_def)
  then have "es = []" using True by simp
  then show ?thesis using True drain assms(1)
    by (intro exI [of _ "(e\<lparr>e_memtable := mt\<rparr>, d)"] exI [of _ lss])
      (simp add: flush_memtable_def engine_ok_def engine_view_def [abs_def])
next
  case False
  from flush_memtable_step [OF assms(1) False] assms(2)
  obtain es e' d' t where step: "flush_memtable ops (e, d) = finish_with_compaction (e', d') ()"
    "sorted_keys es" "map_of es = content (e_memtable e)"
    "engine_ok ok (e', d') (add_run 0 es lss)" "content (e_memtable e') = Map.empty"
    "engine_view content (e', d') (add_run 0 es lss) = engine_view content (e, d) lss"
    "levels (e_manifest e') = (levels (e_manifest e))[0 := levels (e_manifest e) ! 0 @ [t]]"
    "next_id (e_manifest e') = next_id (e_manifest e) + 1"
    "d' wal_name = Some []" "wal_written (e_wal e', d') = []" "e_flush_threshold e' = e_flush_threshold e"
    by (auto simp: flushable_def)
  have "levels_short (e_manifest e')"
    using assms(2) [OF step(2,3)] levels_short_push [of "levels (e_manifest e)" _ t]
    by (auto simp: flushable_def step(7) levels_short_def)
  then have "flush_memtable ops (e, d) = Some ((e', d'), Inr ())"
    using maybe_compact_short [of "(e_manifest e', d')"] by (simp add: step(1) finish_with_compaction_def)
  moreover have "table_ok d' t es"
    using step(4,7) assms(2) [OF step(2,3)] by (intro newest_table) (auto simp: engine_ok_def flushable_def writable_def)
  ultimately show ?thesis using step
    by (intro exI [of _ "(e', d')"] exI [of _ "add_run 0 es lss"]) auto
qed

end

fun record_pair :: "wal_record \<Rightarrow> bytes \<times> bytes" where
  "record_pair (WalPut k v) = (k, v)"
| "record_pair (WalDelete k) = (k, [])"

context write_buffer
begin

text \<open>What both writes do first: the record goes to the log, then its pair to the memtable.\<close>

lemma write_step:
  assumes "engine_ok ok (e, d) lss" "card (dom (content (e_memtable e))) < room"
  shows "\<exists>wl d1 m. append_record r (e_wal e, d) = (wl, d1) \<and>
    mt_insert ops (e_memtable e) (fst (record_pair r)) (snd (record_pair r)) = Some m \<and>
    engine_ok ok (e\<lparr>e_wal := wl, e_memtable := m\<rparr>, d1) lss \<and>
    content m = (content (e_memtable e))(fst (record_pair r) \<mapsto> snd (record_pair r)) \<and>
    wal_written (wl, d1) = wal_written (e_wal e, d) @ encode_record r"
proof -
  have eok: "ok (e_memtable e)" "wal_ok (e_wal e, d)" "wal_path (e_wal e) = wal_name"
    "store_ok d (e_manifest e) lss" using assms(1) by (simp_all add: engine_ok_def)
  obtain wl d1 where wl: "append_record r (e_wal e, d) = (wl, d1)" by fastforce
  have wal: "wal_ok (wl, d1)" "wal_path wl = wal_name" "\<And>p. p \<noteq> wal_name \<Longrightarrow> d1 p = d p"
    "wal_written (wl, d1) = wal_written (e_wal e, d) @ encode_record r"
    using append_record_correct(1-3) [OF eok(2), of r]
      append_record_correct(4) [OF eok(2), of _ r] eok(3) wl by auto
  obtain m where m: "mt_insert ops (e_memtable e) (fst (record_pair r)) (snd (record_pair r)) = Some m"
    "ok m" "content m = (content (e_memtable e))(fst (record_pair r) \<mapsto> snd (record_pair r))"
    using insert_law [OF eok(1) assms(2)] by blast
  have named: "tables_named (e_manifest e)" using eok(4) by (simp add: store_ok_def)
  have "store_ok d1 (e_manifest e) lss"
    using wal(3) new_path_fresh(2) [OF named] by (intro store_ok_disk [OF eok(4)]) simp
  then show ?thesis using wl m wal(1,2,4) by (simp add: engine_ok_def)
qed

text \<open>
  A write: the record is appended to the log, the view changes at the key, and the memtable may
  have been flushed.
\<close>

lemma lsm_put_correct:
  assumes "engine_ok ok (e, d) lss" "card (dom (content (e_memtable e))) < room"
    and "\<And>m es. mt_insert ops (e_memtable e) k v = Some m \<Longrightarrow> e_flush_threshold e \<le> unat (mt_bytes ops m) \<Longrightarrow>
      sorted_keys es \<Longrightarrow> map_of es = content m \<Longrightarrow> flushable (e_manifest e) es"
  shows "\<exists>s' lss'. lsm_put ops (e, d) k v = Some (s', Inr ()) \<and> engine_ok ok s' lss' \<and>
    (\<forall>k'. engine_view content s' lss' k' =
       (if k' = k then hide_tombstone v else engine_view content (e, d) lss k'))"
proof -
  obtain wl d1 m where wl: "append_put k v (e_wal e, d) = (wl, d1)"
    and m: "mt_insert ops (e_memtable e) k v = Some m" "content m = (content (e_memtable e))(k \<mapsto> v)"
    and ok1: "engine_ok ok (e\<lparr>e_wal := wl, e_memtable := m\<rparr>, d1) lss"
    using write_step [OF assms(1,2), of "WalPut k v"] by auto
  let ?e = "e\<lparr>e_wal := wl, e_memtable := m\<rparr>"
  have view: "engine_view content (?e, d1) lss k' =
      (if k' = k then hide_tombstone v else engine_view content (e, d) lss k')" for k'
    by (simp add: engine_view_def m(2) map_add_def)
  have put: "lsm_put ops (e, d) k v = maybe_flush ops (?e, d1)"
    by (simp add: lsm_put_def wl m(1))
  show ?thesis
  proof (cases "unat (mt_bytes ops m) \<ge> e_flush_threshold e")
    case True
    then have "lsm_put ops (e, d) k v = flush_memtable ops (?e, d1)"
      by (simp add: put maybe_flush_def)
    moreover have "flushable (e_manifest ?e) es" if "sorted_keys es" "map_of es = content (e_memtable ?e)" for es
      using assms(3) [OF m(1) True] that by simp
    ultimately show ?thesis using flush_memtable_correct [OF ok1] view by fastforce
  next
    case False
    then show ?thesis using ok1 view by (fastforce simp: put maybe_flush_def)
  qed
qed

lemma lsm_delete_correct:
  assumes "engine_ok ok (e, d) lss" "card (dom (content (e_memtable e))) < room"
  shows "\<exists>s'. lsm_delete ops (e, d) k = Some (s', Inr ()) \<and> engine_ok ok s' lss \<and>
    (\<forall>k'. engine_view content s' lss k' = (if k' = k then None else engine_view content (e, d) lss k'))"
proof -
  obtain wl d1 m where "append_delete k (e_wal e, d) = (wl, d1)"
    "mt_insert ops (e_memtable e) k [] = Some m" "content m = (content (e_memtable e))(k \<mapsto> [])"
    "engine_ok ok (e\<lparr>e_wal := wl, e_memtable := m\<rparr>, d1) lss"
    using write_step [OF assms(1,2), of "WalDelete k"] by auto
  then show ?thesis
    by (simp add: lsm_delete_def delete_law engine_view_def map_add_def hide_tombstone_def)
qed

end

text \<open>Replaying a log into a memtable.\<close>

context write_buffer
begin

lemma replay_correct:
  assumes "ok m" "card (dom (content m)) + length rs \<le> room"
  shows "\<exists>m'. fold_returns (replay_record_into ops) rs m = Some m' \<and> ok m' \<and>
    content m' = content m ++ map_of (rev (map record_pair rs))"
proof -
  have step: "replay_record_into ops r = (\<lambda>m. case record_pair r of (k, v) \<Rightarrow> mt_insert ops m k v)" for r
    by (cases r) (simp_all add: fun_eq_iff delete_law)
  have "fold_returns (replay_record_into ops) rs m =
      fold_returns (\<lambda>(k, v) m. mt_insert ops m k v) (map record_pair rs) m"
    by (induction rs arbitrary: m) (simp_all add: step split_def cong: Option.bind_cong)
  then show ?thesis using insert_all [OF assms(1), of "map record_pair rs"] assms(2) by simp
qed

text \<open>Opening a directory: the log is replayed, the tables on disk are forgotten.\<close>

lemma lsm_open_correct:
  assumes "ok m" "content m = Map.empty" "wal_recover wal_name d = Inr rs" "length rs \<le> room"
  shows "\<exists>e d'. lsm_open ops d m cfg = Some (d', Inr e) \<and>
    engine_ok ok (e, d') (replicate num_lsm_levels []) \<and>
    (\<forall>k. engine_view content (e, d') (replicate num_lsm_levels []) k =
       Option.bind (map_of (rev (map record_pair rs)) k) hide_tombstone)"
proof -
  obtain m' where m': "fold_returns (replay_record_into ops) rs m = Some m'" "ok m'"
    "content m' = map_of (rev (map record_pair rs))"
    using replay_correct [OF assms(1), of rs] assms(2,4) by auto
  obtain w d' where w: "wal_open wal_name d = (w, d')" by fastforce
  have "store_view (replicate num_lsm_levels []) = Map.empty"
    by (simp add: store_view_def num_lsm_levels_def numeral_eq_Suc)
  moreover have "store_ok d' (manifest_new num_lsm_levels) (replicate num_lsm_levels [])"
    by (simp add: store_ok_def manifest_new_def tables_named_def list_all2_conv_all_nth)
  ultimately show ?thesis using m' assms(3) wal_open_correct(1,2) [of wal_name d] w
    by (simp add: lsm_open_def engine_ok_def engine_view_def)
qed

end

end
