(* ===== verification/Store_Compaction.thy ===== *)
theory Store_Compaction
  imports Engine_Facts
begin

text \<open>
  What compacting a level does to the view of the store: the merged table stands where the
  tables of the level stood, with the oldest value of each key in the place of the newest.
\<close>

definition compact_runs :: "nat \<Rightarrow> run \<Rightarrow> run list list \<Rightarrow> run list list" where
  "compact_runs level out lss =
     (let ls = lss[level := []] in if out = [] then ls else add_run (level + 1) out ls)"

lemma store_view_split:
  assumes "level < length lss"
  shows "store_view lss = store_view (drop (Suc level) lss) ++ map_of (concat (rev (lss ! level))) ++
    store_view (take level lss)"
proof -
  have "lss = take level lss @ lss ! level # drop (Suc level) lss"
    using assms by (rule id_take_nth_drop)
  then have "store_view lss = store_view (take level lss @ lss ! level # drop (Suc level) lss)" by simp
  also have "\<dots> = store_view (drop (Suc level) lss) ++ map_of (concat (rev (lss ! level))) ++
      store_view (take level lss)"
    by (simp add: store_view_def)
  finally show ?thesis .
qed

lemma store_view_Nil [simp]: "store_view [] = Map.empty"
  by (simp add: store_view_def)

lemma store_view_compact:
  assumes "level < length lss"
  shows "store_view (compact_runs level out lss) =
    store_view (drop (Suc level) lss) ++ map_of out ++ store_view (take level lss)"
proof (cases "out = []")
  case True
  then show ?thesis using store_view_split [of level "lss[level := []]"] assms
    by (simp add: compact_runs_def)
next
  case False
  show ?thesis
  proof (cases "Suc level < length lss")
    case True
    let ?ls = "lss[level := [], Suc level := lss ! Suc level @ [out]]"
    have runs: "compact_runs level out lss = ?ls" using False True by (simp add: compact_runs_def add_run_def)
    have d1: "drop (Suc level) ?ls = (lss ! Suc level @ [out]) # drop (Suc (Suc level)) lss"
      using True by (simp add: drop_update_cancel drop_update_swap Cons_nth_drop_Suc [symmetric])
    have d2: "drop (Suc level) lss = lss ! Suc level # drop (Suc (Suc level)) lss"
      using True by (simp add: Cons_nth_drop_Suc)
    show ?thesis
      unfolding runs using store_view_split [of level ?ls] assms
      by (simp add: d1 d2) (simp add: store_view_def)
  next
    case last: False
    then have len: "length lss = Suc level" using assms by simp
    then have runs: "compact_runs level out lss = lss[level := []] @ [[out]]"
      using False by (simp add: compact_runs_def add_run_def list_update_append nth_append Let_def)
    show ?thesis unfolding runs using store_view_split [of level "lss[level := []] @ [[out]]"] len
      by (simp add: nth_append) (simp add: store_view_def)
  qed
qed

text \<open>The store after compacting a level.\<close>

lemma compact_store:
  assumes "store_ok d m lss" "level < length (levels m)" "lss ! level \<noteq> []"
    and "weight (concat (lss ! level)) + 20 < 2 ^ 64" "unat (next_id m) + 1 < 2 ^ 64"
  shows "\<exists>m' d' out. compact_level (m, d) level = Some ((m', d'), Inr ()) \<and>
    store_ok d' m' (compact_runs level out lss) \<and> d' wal_name = d wal_name \<and> sorted_keys out \<and>
    map_of out = merged_value (level + 1 \<ge> num_levels m - 1) (lss ! level) None \<and>
    (\<forall>p. p \<noteq> sst_name (level + 1) (next_id m) \<longrightarrow>
       d' p = (if p \<in> meta_path ` set (levels m ! level) then None else d p))"
proof -
  have named: "tables_named m" using assms(1) by (simp add: store_ok_def)
  have all: "list_all2 (list_all2 (table_ok d)) (levels m) lss" using assms(1) by (simp add: store_ok_def)
  have runs: "list_all2 (table_ok d) (manifest_level m level) (lss ! level)"
    using list_all2_nthD [OF all assms(2)] assms(2) by (simp add: manifest_level_def)
  moreover from this have ne: "manifest_level m level \<noteq> []" using assms(3) by auto
  ultimately obtain m' d' out where
    run: "compact_level (m, d) level = Some ((m', d'), Inr ())" "compacted (m, d) level (m', d') out"
    "sorted_keys out" "map_of out = merged_value (level + 1 \<ge> num_levels m - 1) (lss ! level) None"
    using compact_level_correct [of d m level "lss ! level"] assms(4) by (metis prod.collapse)
  let ?path = "sst_name (level + 1) (next_id m)"
  let ?m1 = "manifest_remove (m\<lparr>next_id := next_id m + 1\<rparr>) level (map meta_id (manifest_level m level))"
  have m1: "levels ?m1 = (levels m)[level := []]" "next_id ?m1 = next_id m + 1"
    using assms(2) by (auto simp: manifest_remove_def manifest_level_def filter_empty_conv)
  have disk: "d' p = (if p \<in> meta_path ` set (manifest_level m level) then None else d p)"
    if "p \<noteq> ?path" for p
    using run(2) that by (simp add: compacted_def Let_def)
  have level_paths: "\<exists>i. p = sst_name level i" if "p \<in> meta_path ` set (manifest_level m level)" for p
    using that named assms(2) by (auto simp: tables_named_def manifest_level_def)
  have "wal_name \<noteq> sst_name l i" for l i by (metis sst_name_not_wal wal_name_def)
  then have "d' wal_name = d wal_name"
    using disk [of wal_name] level_paths [of wal_name] by auto
  moreover have named1: "tables_named ?m1"
    using tables_named_next [OF named assms(5)] m1 assms(2)
    by (auto simp: tables_named_def nth_list_update split: if_splits)
  moreover have "list_all2 (list_all2 (table_ok d')) (levels ?m1) (lss[level := []])"
    unfolding list_all2_conv_all_nth [of "list_all2 (table_ok d')"] m1
  proof (intro conjI allI impI)
    show "length ((levels m)[level := []]) = length (lss[level := []])"
      using all by (simp add: list_all2_lengthD)
    fix l assume l: "l < length ((levels m)[level := []])"
    show "list_all2 (table_ok d') ((levels m)[level := []] ! l) (lss[level := []] ! l)"
    proof (cases "l = level")
      case True
      then show ?thesis using assms(2) all by (simp add: list_all2_lengthD)
    next
      case False
      have same: "d' (meta_path t) = d (meta_path t)" if "t \<in> set (levels m ! l)" for t
      proof -
        have "meta_path t \<notin> meta_path ` set (manifest_level m level)"
        proof
          assume "meta_path t \<in> meta_path ` set (manifest_level m level)"
          then obtain i where "meta_path t = sst_name level i" using level_paths by blast
          moreover have "meta_path t = sst_name l (meta_id t)"
            using named that l by (simp add: tables_named_def)
          ultimately have "sst_name l (meta_id t) = sst_name level i" by simp
          then show False using False by (simp add: sst_name_inject)
        qed
        then show ?thesis using disk [of "meta_path t"] new_path_fresh(1) [OF named _ that] l by simp
      qed
      have "list_all2 (table_ok d) (levels m ! l) (lss ! l)"
        using list_all2_nthD [OF all, of l] l by simp
      then have "list_all2 (table_ok d') (levels m ! l) (lss ! l)"
        by (rule list.rel_mono_strong) (simp add: table_ok_def same)
      then show ?thesis using False by simp
    qed
  qed
  ultimately have m1_ok: "store_ok d' ?m1 (lss[level := []])" by (simp add: store_ok_def)
  have "store_ok d' m' (compact_runs level out lss)"
  proof (cases "out = []")
    case True
    then show ?thesis using run(2) m1_ok by (simp add: compacted_def compact_runs_def Let_def)
  next
    case False
    then obtain t where t: "m' = manifest_add ?m1 t" "meta_level t = level + 1" "meta_path t = ?path"
      "meta_id t = next_id m" "table_ok d' t out"
      using run(2) by (auto simp: compacted_def Let_def)
    then show ?thesis
      using manifest_add_levels [of "table_ok d'" ?m1 "lss[level := []]" t out] m1_ok
        tables_named_add [OF named1, of t] assms(5) False
      by (simp add: store_ok_def compact_runs_def m1 unat_word_ariths)
  qed
  moreover have "manifest_level m level = levels m ! level" using assms(2) by (simp add: manifest_level_def)
  ultimately show ?thesis using run disk \<open>d' wal_name = d wal_name\<close>
    by (intro exI [of _ m'] exI [of _ d'] exI [of _ out]) auto
qed

subsection \<open>Effect on the view\<close>

definition store_get :: "run list list \<Rightarrow> bytes \<Rightarrow> bytes option" where
  "store_get lss k = Option.bind (store_view lss k) hide_tombstone"

text \<open>
  When no key occurs twice on the level, and no hidden value below reappears with a dropped
  tombstone, compaction is invisible.
\<close>

lemma compaction_invisible:
  assumes "level < length lss" "distinct (map fst (concat (lss ! level)))"
    and "map_of out = merged_value hi (lss ! level) None"
    and "hi \<Longrightarrow> map_of (concat (lss ! level)) k = Some [] \<Longrightarrow> store_view (drop (Suc level) lss) k = None"
  shows "store_get (compact_runs level out lss) k = store_get lss k"
proof -
  have "mset (map fst (concat (lss ! level))) = mset (map fst (concat (rev (lss ! level))))"
    by (simp add: mset_concat sum_list_rev flip: rev_map)
  then have "distinct (map fst (concat (rev (lss ! level))))"
    using assms(2) mset_eq_imp_distinct_iff by blast
  then have "map_of (concat (rev (lss ! level))) = map_of (concat (lss ! level))"
    using assms(2) by (intro map_of_inject_set [THEN iffD2]) simp_all
  then have "store_view lss = store_view (drop (Suc level) lss) ++ map_of (concat (lss ! level)) ++
      store_view (take level lss)"
    using store_view_split [OF assms(1)] by simp
  then show ?thesis using assms(4)
    by (auto simp: store_get_def store_view_compact [OF assms(1)] map_add_def assms(3)
        merged_value_def hide_tombstone_def split: option.splits)
qed

text \<open>A key that the levels above do not hold reads as its oldest value on the level.\<close>

lemma compaction_oldest:
  assumes "level < length lss" "store_view (take level lss) k = None"
    and "map_of out = merged_value hi (lss ! level) None" "map_of (concat (lss ! level)) k = Some v" "v \<noteq> []"
  shows "store_get (compact_runs level out lss) k = Some v"
  using assms by (simp add: store_get_def store_view_compact map_add_def merged_value_def hide_tombstone_def)

end
