(* ===== verification/Engine_Crash.thy ===== *)
theory Engine_Crash
  imports Engine_Facts
begin

text \<open>
  Runs of writes and what a restart recovers from them. A crash keeps the directory and loses the
  memory, the buffer of the log included. The runs here stay below the flush threshold, so that
  the log holds all of their records.
\<close>

fun lsm_apply :: "'m memtable_ops \<Rightarrow> wal_record \<Rightarrow> 'm lsm \<times> disk \<Rightarrow> ('m, unit) outcome" where
  "lsm_apply ops (WalPut key value) s = lsm_put ops s key value"
| "lsm_apply ops (WalDelete key) s = lsm_delete ops s key"

text \<open>A run stops at the first error.\<close>

fun lsm_run :: "'m memtable_ops \<Rightarrow> wal_record list \<Rightarrow> 'm lsm \<times> disk \<Rightarrow> ('m, unit) outcome" where
  "lsm_run ops [] s = Some (s, Inr ())"
| "lsm_run ops (r # rs) s =
     Option.bind (lsm_apply ops r s) (\<lambda>(s, res).
       case res of Inl err \<Rightarrow> Some (s, Inl err) | Inr _ \<Rightarrow> lsm_run ops rs s)"

definition record_bytes :: "wal_record \<Rightarrow> nat" where
  "record_bytes r = length (fst (record_pair r)) + length (snd (record_pair r))"

definition run_bytes :: "wal_record list \<Rightarrow> nat" where
  "run_bytes rs = sum_list (map record_bytes rs)"

lemma run_bytes_simps [simp]: "run_bytes [] = 0" "run_bytes (r # rs) = record_bytes r + run_bytes rs"
  by (simp_all add: run_bytes_def)

text \<open>One write below the threshold, on the learned memtable.\<close>

lemma apply_step:
  assumes "engine_ok lmt_ok (e, d) lss" "card (dom (lmt_content (e_memtable e))) < max_pairs"
    and bytes: "unat (lmt_byte_count (e_memtable e)) + record_bytes r < e_flush_threshold e"
      "unat (lmt_byte_count (e_memtable e)) + record_bytes r < 2 ^ 64"
  obtains e' d' where "lsm_apply learned_ops r (e, d) = Some ((e', d'), Inr ())"
    "engine_ok lmt_ok (e', d') lss"
    "lmt_content (e_memtable e') = (lmt_content (e_memtable e))(fst (record_pair r) \<mapsto> snd (record_pair r))"
    "wal_written (e_wal e', d') = wal_written (e_wal e, d) @ encode_record r"
    "unat (lmt_byte_count (e_memtable e')) \<le> unat (lmt_byte_count (e_memtable e)) + record_bytes r"
    "e_flush_threshold e' = e_flush_threshold e" "e_manifest e' = e_manifest e"
proof -
  obtain wl d1 m where step: "append_record r (e_wal e, d) = (wl, d1)"
    "mt_insert learned_ops (e_memtable e) (fst (record_pair r)) (snd (record_pair r)) = Some m"
    "engine_ok lmt_ok (e\<lparr>e_wal := wl, e_memtable := m\<rparr>, d1) lss"
    "lmt_content m = (lmt_content (e_memtable e))(fst (record_pair r) \<mapsto> snd (record_pair r))"
    "wal_written (wl, d1) = wal_written (e_wal e, d) @ encode_record r"
    using learned.write_step [OF assms(1,2), of r] by blast
  have "lmt_insert (e_memtable e) (fst (record_pair r)) (snd (record_pair r)) = Some m"
    using step(2) by (simp add: learned_ops_def)
  then have cnt: "unat (lmt_byte_count m) \<le> unat (lmt_byte_count (e_memtable e)) + record_bytes r"
    using lmt_insert_correct [of "e_memtable e" "fst (record_pair r)" "snd (record_pair r)"] assms(1,2)
      bytes(2) by (auto simp: engine_ok_def record_bytes_def unat_word_ariths unsigned_of_nat take_bit_nat_def)
  then have "\<not> e_flush_threshold e \<le> unat (mt_bytes learned_ops m)"
    using bytes(1) by (simp add: learned_ops_def)
  then have "lsm_apply learned_ops r (e, d) = Some ((e\<lparr>e_wal := wl, e_memtable := m\<rparr>, d1), Inr ())"
    using step(1,2)
    by (cases r) (simp_all add: lsm_put_def lsm_delete_def maybe_flush_def learned.delete_law)
  then show thesis by (rule that) (use step(3-5) cnt in simp_all)
qed

lemma run_correct:
  assumes "engine_ok lmt_ok (e, d) lss"
    and "card (dom (lmt_content (e_memtable e))) + length rs \<le> max_pairs"
    and "unat (lmt_byte_count (e_memtable e)) + run_bytes rs < e_flush_threshold e"
    and "unat (lmt_byte_count (e_memtable e)) + run_bytes rs < 2 ^ 64"
  shows "\<exists>e' d'. lsm_run learned_ops rs (e, d) = Some ((e', d'), Inr ()) \<and> engine_ok lmt_ok (e', d') lss \<and>
    lmt_content (e_memtable e') = lmt_content (e_memtable e) ++ map_of (rev (map record_pair rs)) \<and>
    wal_written (e_wal e', d') = wal_written (e_wal e, d) @ encode_records rs"
  using assms
proof (induction rs arbitrary: e d)
  case (Cons r rs)
  have small: "card (dom (lmt_content (e_memtable e))) < max_pairs"
    "unat (lmt_byte_count (e_memtable e)) + record_bytes r < e_flush_threshold e"
    "unat (lmt_byte_count (e_memtable e)) + record_bytes r < 2 ^ 64"
    using Cons.prems(2-4) unfolding run_bytes_simps list.size by linarith+
  obtain e1 d1 where step: "lsm_apply learned_ops r (e, d) = Some ((e1, d1), Inr ())"
    "engine_ok lmt_ok (e1, d1) lss"
    "lmt_content (e_memtable e1) = (lmt_content (e_memtable e))(fst (record_pair r) \<mapsto> snd (record_pair r))"
    "wal_written (e_wal e1, d1) = wal_written (e_wal e, d) @ encode_record r"
    "unat (lmt_byte_count (e_memtable e1)) \<le> unat (lmt_byte_count (e_memtable e)) + record_bytes r"
    "e_flush_threshold e1 = e_flush_threshold e"
    by (rule apply_step [OF Cons.prems(1) small])
  have "card (dom (lmt_content (e_memtable e1))) \<le> Suc (card (dom (lmt_content (e_memtable e))))"
    unfolding step(3) by (rule learned.insert_card) (use Cons.prems(1) in \<open>simp add: engine_ok_def\<close>)
  then have "card (dom (lmt_content (e_memtable e1))) + length rs \<le> max_pairs"
    "unat (lmt_byte_count (e_memtable e1)) + run_bytes rs < e_flush_threshold e1"
    "unat (lmt_byte_count (e_memtable e1)) + run_bytes rs < 2 ^ 64"
    using Cons.prems(2-4) step(5) unfolding step(6) run_bytes_simps list.size by linarith+
  then obtain e' d' where "lsm_run learned_ops rs (e1, d1) = Some ((e', d'), Inr ())"
    "engine_ok lmt_ok (e', d') lss"
    "lmt_content (e_memtable e') = lmt_content (e_memtable e1) ++ map_of (rev (map record_pair rs))"
    "wal_written (e_wal e', d') = wal_written (e_wal e1, d1) @ encode_records rs"
    using Cons.IH [OF step(2)] by blast
  moreover have "lmt_content (e_memtable e1) ++ m = lmt_content (e_memtable e) ++
      ([fst (record_pair r) \<mapsto> snd (record_pair r)] ++ m)" for m
    by (simp add: step(3))
  moreover have "map_of (rev (map record_pair (r # rs))) =
      [fst (record_pair r) \<mapsto> snd (record_pair r)] ++ map_of (rev (map record_pair rs))"
    by (cases "record_pair r") (simp add: map_add_def)
  ultimately show ?case using step(1,4)
    by (intro exI [of _ e'] exI [of _ d']) (simp add: encode_records_def)
qed (simp add: encode_records_def)

text \<open>A new engine on an empty directory.\<close>

definition fresh_engine :: "engine_config \<Rightarrow> learned_memtable lsm" where
  "fresh_engine cfg = \<lparr>e_memtable = lmt_new, e_wal = \<lparr>wal_path = wal_name, wal_buffer = []\<rparr>,
     e_manifest = manifest_new num_lsm_levels, e_flush_threshold = cfg_flush_threshold cfg\<rparr>"

lemma lmt_new_ok: "lmt_ok lmt_new" "lmt_content lmt_new = Map.empty"
  using map_ok_new [OF vec_u8.key_contract_axioms]
  by (simp_all add: lmt_ok_def lmt_content_def lmt_new_def map_content_def map_pairs_def lm_new_def
      lm_with_config_def empty_root_def)

lemma fresh_engine_open:
  "lsm_open learned_ops Map.empty lmt_new cfg = Some ([wal_name \<mapsto> []], Inr (fresh_engine cfg))"
  by (simp add: lsm_open_def wal_recover_def wal_open_def fresh_engine_def)

lemma fresh_engine_ok:
  "engine_ok lmt_ok (fresh_engine cfg, [wal_name \<mapsto> []]) (replicate num_lsm_levels [])"
  "lmt_content (e_memtable (fresh_engine cfg)) = Map.empty"
  "engine_view lmt_content (fresh_engine cfg, [wal_name \<mapsto> []]) (replicate num_lsm_levels []) = Map.empty"
proof -
  obtain e d where "lsm_open learned_ops Map.empty lmt_new cfg = Some (d, Inr e)"
    "engine_ok lmt_ok (e, d) (replicate num_lsm_levels [])"
    "\<forall>k. engine_view lmt_content (e, d) (replicate num_lsm_levels []) k = None"
    using learned.lsm_open_correct [OF lmt_new_ok, of Map.empty "[]" cfg] by (auto simp: wal_recover_def)
  moreover from this(1) have "d = [wal_name \<mapsto> []]" "e = fresh_engine cfg"
    unfolding fresh_engine_open by (simp_all only: option.inject prod.inject sum.inject)
  ultimately show "engine_ok lmt_ok (fresh_engine cfg, [wal_name \<mapsto> []]) (replicate num_lsm_levels [])"
    "engine_view lmt_content (fresh_engine cfg, [wal_name \<mapsto> []]) (replicate num_lsm_levels []) = Map.empty"
    by (simp_all only:) (rule ext, simp)
qed (simp add: fresh_engine_def lmt_new_ok)

text \<open>One write to a new engine always fits: what its flush would write is the pair itself.\<close>

lemma fresh_flushable:
  assumes "sorted_keys es" "map_of es = (lmt_content (e_memtable (fresh_engine cfg)))(k \<mapsto> v)"
    and "length k < 2 ^ 32" "length v < 2 ^ 32"
  shows "flushable (e_manifest (fresh_engine cfg)) es"
proof -
  have "es = [(k, v)]"
    by (rule sorted_keys_unique) (use assms(1,2) in \<open>simp_all add: fresh_engine_ok(2)\<close>)
  then show ?thesis using assms(3,4)
    by (simp add: flushable_def writable_def levels_short_def fresh_engine_def manifest_new_def
        num_lsm_levels_def max_tables_per_level_def weight_def entry_weight_def entry_fits_def)
qed

text \<open>
  After a crash, the log on disk starts with what was in the file before and goes on with a
  prefix of what was appended.
\<close>

lemma crash_recovers:
  assumes "engine_ok lmt_ok (e, d) lss" "wal_written (e_wal e, d) = encode_records rs"
    and "list_all record_fits rs" "length rs \<le> max_pairs"
  shows "\<exists>n e' d'. lsm_open learned_ops d lmt_new cfg = Some (d', Inr e') \<and>
    engine_ok lmt_ok (e', d') (replicate num_lsm_levels []) \<and>
    (\<forall>k. engine_view lmt_content (e', d') (replicate num_lsm_levels []) k =
       Option.bind (map_of (rev (map record_pair (take n rs))) k) hide_tombstone)"
proof -
  have wal: "wal_ok (e_wal e, d)" "wal_path (e_wal e) = wal_name"
    using assms(1) by (simp_all add: engine_ok_def)
  obtain dat rest where dat: "d wal_name = Some dat" "encode_records rs = dat @ rest"
    using wal_file_prefix [OF wal(1)] wal(2) assms(2) by auto
  obtain n where "wal_replay dat [] = Inr (take n rs)"
    using replay_prefix [OF assms(3) dat(2), of "[]"] by auto
  then have "wal_recover wal_name d = Inr (take n rs)" by (simp add: wal_recover_def dat(1))
  then show ?thesis
    using learned.lsm_open_correct [OF lmt_new_ok, of d "take n rs" cfg] assms(4)
    by fastforce
qed

end
