(* ===== verification/Engine_Compaction.thy ===== *)
theory Engine_Compaction
  imports Store_Compaction Engine_Crash
begin

text \<open>
  A flush that fills level 0: the four tables are compacted, and a key that several of them hold
  then reads as its oldest value. Also a small engine with three tables for concrete instances.
\<close>

lemma store_lengths:
  assumes "store_ok d m lss"
  shows "length (levels m) = length lss" "l < length lss \<Longrightarrow> length (levels m ! l) = length (lss ! l)"
  using assms by (auto simp: store_ok_def list_all2_conv_all_nth)

lemma compact_runs_lengths:
  assumes "0 < length lss" "l < length (compact_runs 0 out lss)"
  shows "length (compact_runs 0 out lss ! l) \<le> (if l = 0 then 0 else if l < length lss then length (lss ! l) + 1 else 1)"
proof (cases "out = []")
  case True
  then show ?thesis using assms by (simp add: compact_runs_def nth_list_update)
next
  case False
  show ?thesis
  proof (cases "1 < length lss")
    case True
    then have runs: "compact_runs 0 out lss = lss[0 := [], 1 := lss ! 1 @ [out]]"
      using False by (simp add: compact_runs_def add_run_def)
    show ?thesis unfolding runs using assms(2) True
      by (cases "l = 0"; cases "l = 1") (simp_all add: runs)
  next
    case no: False
    then obtain r where lss: "lss = [r]" using assms(1) by (cases lss; cases "tl lss") auto
    then have runs: "compact_runs 0 out lss = [[], [out]]"
      using False by (simp add: compact_runs_def add_run_def Let_def)
    show ?thesis using assms(2) unfolding runs by (auto simp: lss less_Suc_eq)
  qed
qed

text \<open>One compaction of level 0, when no other level comes near the limit.\<close>

lemma maybe_compact_level0:
  assumes "store_ok d m lss" "0 < length lss" "length (lss ! 0) = max_tables_per_level"
    and "\<And>l. 0 < l \<Longrightarrow> l < length lss \<Longrightarrow> length (lss ! l) + 1 < max_tables_per_level"
    and "weight (concat (lss ! 0)) + 20 < 2 ^ 64" "unat (next_id m) + 1 < 2 ^ 64"
  shows "\<exists>m' d' out. maybe_compact (m, d) = Some ((m', d'), Inr ()) \<and>
    store_ok d' m' (compact_runs 0 out lss) \<and> d' wal_name = d wal_name \<and> sorted_keys out \<and>
    map_of out = merged_value (1 \<ge> num_levels m - 1) (lss ! 0) None"
proof -
  have len: "length (levels m) = length lss" by (rule store_lengths [OF assms(1)])
  have ne: "lss ! 0 \<noteq> []" using assms(3) by (auto simp: max_tables_per_level_def)
  obtain m' d' out where c: "compact_level (m, d) 0 = Some ((m', d'), Inr ())"
    "store_ok d' m' (compact_runs 0 out lss)" "d' wal_name = d wal_name" "sorted_keys out"
    "map_of out = merged_value (1 \<ge> num_levels m - 1) (lss ! 0) None"
    using compact_store [OF assms(1) _ ne assms(5,6)] assms(2) len by auto
  have "level_count m' l < max_tables_per_level" if "0 < l" "l < length lss" for l
  proof -
    have "level_count m' l = (if l < length (compact_runs 0 out lss) then length (compact_runs 0 out lss ! l) else 0)"
      using store_lengths [OF c(2)] by (simp add: level_count_def)
    then show ?thesis using compact_runs_lengths [OF assms(2), of l out] assms(4) [OF that] that
      by (auto simp: max_tables_per_level_def split: if_splits)
  qed
  then have "compact_levels [1..<length lss] (m', d') = Some ((m', d'), Inr ())"
    by (intro compact_levels_short) simp
  moreover have "[0..<num_levels m] = 0 # [1..<length lss]"
    using assms(2) len by (simp add: num_levels_def upt_conv_Cons)
  moreover have "level_count m 0 \<ge> max_tables_per_level"
    using store_lengths(2) [OF assms(1,2)] assms(2,3) len by (simp add: level_count_def)
  ultimately show ?thesis using c by (auto simp: maybe_compact_def)
qed

context write_buffer
begin

lemma flush_oldest:
  assumes "engine_ok ok (e, d) lss" "content (e_memtable e) k = Some new"
    and "\<And>es. sorted_keys es \<Longrightarrow> map_of es = content (e_memtable e) \<Longrightarrow>
      writable (e_manifest e) es \<and> weight (concat (lss ! 0)) + weight es + 20 < 2 ^ 64"
    and "unat (next_id (e_manifest e)) + 2 < 2 ^ 64"
    and "length (lss ! 0) + 1 = max_tables_per_level"
    and "\<And>l. 0 < l \<Longrightarrow> l < length lss \<Longrightarrow> length (lss ! l) + 1 < max_tables_per_level"
    and "map_of (concat (lss ! 0)) k = Some old" "old \<noteq> []"
  shows "\<exists>s' lss'. flush_memtable ops (e, d) = Some (s', Inr ()) \<and> engine_ok ok s' lss' \<and>
    engine_view content s' lss' k = Some old"
proof -
  have ne: "content (e_memtable e) \<noteq> Map.empty" using assms(2) by (metis option.distinct(1))
  obtain es e' d' where step: "flush_memtable ops (e, d) = finish_with_compaction (e', d') ()"
    "sorted_keys es" "map_of es = content (e_memtable e)"
    "engine_ok ok (e', d') (add_run 0 es lss)" "content (e_memtable e') = Map.empty"
    "next_id (e_manifest e') = next_id (e_manifest e) + 1"
    using flush_memtable_step [OF assms(1) ne] assms(3) by blast
  have len: "0 < length lss"
    using assms(1) assms(3) [OF step(2,3)] store_lengths(1) [of d "e_manifest e" lss]
    by (simp add: writable_def engine_ok_def)
  then have lss': "add_run 0 es lss = lss[0 := lss ! 0 @ [es]]" by (simp add: add_run_def)
  have ok': "ok (e_memtable e')" "wal_ok (e_wal e', d')" "wal_path (e_wal e') = wal_name"
    "store_ok d' (e_manifest e') (lss[0 := lss ! 0 @ [es]])"
    using step(4) by (simp_all add: engine_ok_def lss')
  have w: "weight (xs @ ys) = weight xs + weight ys" for xs ys by (simp add: weight_def)
  obtain m'' d'' out where c: "maybe_compact (e_manifest e', d') = Some ((m'', d''), Inr ())"
    "store_ok d'' m'' (compact_runs 0 out (lss[0 := lss ! 0 @ [es]]))" "d'' wal_name = d' wal_name"
    "map_of out = merged_value (1 \<ge> num_levels (e_manifest e') - 1) (lss ! 0 @ [es]) None"
    using maybe_compact_level0 [OF ok'(4)] len assms(4-6) assms(3) [OF step(2,3)] step(6)
    by (auto simp: w unat_word_ariths)
  have "flush_memtable ops (e, d) = Some ((e'\<lparr>e_manifest := m''\<rparr>, d''), Inr ())"
    by (simp add: step(1) finish_with_compaction_def c(1))
  moreover have "engine_ok ok (e'\<lparr>e_manifest := m''\<rparr>, d'') (compact_runs 0 out (lss[0 := lss ! 0 @ [es]]))"
    using ok' c(2,3) by (simp add: engine_ok_def wal_ok_def)
  moreover have "store_get (compact_runs 0 out (lss[0 := lss ! 0 @ [es]])) k = Some old"
    using len assms(7,8) c(4) by (intro compaction_oldest) (simp_all add: map_add_def split: option.split)
  then have "engine_view content (e'\<lparr>e_manifest := m''\<rparr>, d'') (compact_runs 0 out (lss[0 := lss ! 0 @ [es]])) k = Some old"
    by (simp add: engine_view_def store_get_def step(5))
  ultimately show ?thesis by blast
qed

end

subsection \<open>A small engine\<close>

definition single_meta :: "nat \<Rightarrow> u64 \<Rightarrow> bytes \<Rightarrow> sstable_meta" where
  "single_meta level i k = \<lparr>meta_id = i, meta_level = level, meta_path = sst_name level i,
     meta_entry_count = 1, meta_min_key = k, meta_max_key = k\<rparr>"

text \<open>A directory with an empty log and tables of one entry each.\<close>

definition single_disk :: "(nat \<times> u64 \<times> bytes \<times> bytes) list \<Rightarrow> disk" where
  "single_disk ts =
     (map_of (map (\<lambda>(level, i, k, v). (sst_name level i, table_file [[(k, v)]])) ts))(wal_name \<mapsto> [])"

lemma single_meta_sel [simp]:
  "meta_id (single_meta level i k) = i" "meta_level (single_meta level i k) = level"
  "meta_path (single_meta level i k) = sst_name level i"
  by (simp_all add: single_meta_def)

lemma sst_name_wal_name [simp]: "sst_name level i \<noteq> wal_name" "wal_name \<noteq> sst_name level i"
  using sst_name_not_wal [of level i] by (simp_all add: wal_name_def)

lemma single_table_ok:
  assumes "length k < 2 ^ 32" "length v < 2 ^ 32"
    and "d (sst_name level i) = Some (table_file [[(k, v)]])"
  shows "table_ok d (single_meta level i k) [(k, v)]"
proof -
  have "length (table_file [[(k, v)]]) < 2 ^ 64"
    using table_file_weight [of "[[(k, v)]]"] assms(1,2) by (simp add: weight_def entry_weight_def)
  then have "table_fits [[(k, v)]]" using assms(1,2) by (simp add: table_fits_def entry_fits_def)
  moreover have "concat [[(k, v)]] = [(k, v)]" by simp
  ultimately show ?thesis using assms(3) by (auto simp: table_ok_def single_meta_def)
qed

definition sample_disk :: disk where
  "sample_disk = single_disk [(0, 0, [7], [1]), (0, 1, [7], [2]), (0, 2, [7], [3])]"

definition sample_engine :: "btree_memtable lsm" where
  "sample_engine =
     \<lparr>e_memtable = \<lparr>bt_map = [([7], [4])], bt_byte_count = 2\<rparr>,
      e_wal = \<lparr>wal_path = wal_name, wal_buffer = []\<rparr>,
      e_manifest = \<lparr>levels = [[single_meta 0 0 [7], single_meta 0 1 [7], single_meta 0 2 [7]], [], [], []],
                    next_id = 3\<rparr>,
      e_flush_threshold = 100\<rparr>"

abbreviation sample_runs :: "run list list" where
  "sample_runs \<equiv> [[[([7], [1])], [([7], [2])], [([7], [3])]], [], [], []]"

lemma sample_engine_ok: "engine_ok (\<lambda>t. sorted_keys (bt_map t)) (sample_engine, sample_disk) sample_runs"
proof -
  have "tables_named (e_manifest sample_engine)"
    by (auto simp: tables_named_def sample_engine_def less_Suc_eq)
  moreover have "sample_disk wal_name = Some []" by (simp add: sample_disk_def single_disk_def)
  ultimately show ?thesis
    by (auto simp: engine_ok_def sample_engine_def store_ok_def wal_ok_def sample_disk_def
        single_disk_def sst_name_inject intro!: single_table_ok)
qed

end
