(* ===== verification/Engine_Ingest.thy ===== *)
theory Engine_Ingest
  imports Engine_Facts
begin

text \<open>
  The two bulk paths into the engine: a sorted sequence that becomes a table of level 0, and text
  with one key and value per line.
\<close>

subsection \<open>Sorted input\<close>

lemma add_sorted_eq:
  "add_sorted kvs prev w =
     (if sorted_keys kvs \<and> (\<forall>p. prev = Some p \<longrightarrow> (\<forall>kv \<in> set kvs. p < fst kv))
      then Some (writer_add_entries kvs w) else None)"
proof (induction kvs prev w rule: add_sorted.induct)
  case (2 k v kvs prev w)
  then show ?case
    by (cases prev) (auto simp: writer_add_entries_def not_le dest: order.strict_trans)
qed (simp add: writer_add_entries_def)

lemma ingest_sorted_unsorted:
  assumes "\<not> sorted_keys kvs"
  shows "ingest_sorted (e, d) kvs =
    Some ((e\<lparr>e_manifest := (e_manifest e)\<lparr>next_id := next_id (e_manifest e) + 1\<rparr>\<rparr>,
           d(sst_name 0 (next_id (e_manifest e)) := None)),
          Inl (Corruption ''ingest_sorted: keys not in ascending order''))"
  using assms
  by (simp add: ingest_sorted_def next_sstable_path_def add_sorted_eq writer_new_def
      writer_with_block_size_def Let_def)

text \<open>A rejected input leaves the tables and the log alone.\<close>

lemma engine_ok_skip_id:
  assumes "engine_ok ok (e, d) lss" "unat (next_id (e_manifest e)) + 1 < 2 ^ 64"
  shows "engine_ok ok (e\<lparr>e_manifest := (e_manifest e)\<lparr>next_id := next_id (e_manifest e) + 1\<rparr>\<rparr>,
    d(sst_name 0 (next_id (e_manifest e)) := x)) lss"
proof -
  let ?p = "sst_name 0 (next_id (e_manifest e))"
  have store: "store_ok d (e_manifest e) lss" and wal: "wal_ok (e_wal e, d)" "wal_path (e_wal e) = wal_name"
    using assms(1) by (simp_all add: engine_ok_def)
  have named: "tables_named (e_manifest e)" using store by (simp add: store_ok_def)
  have "store_ok (d(?p := x)) (e_manifest e) lss"
    using new_path_fresh(1) [OF named] by (intro store_ok_disk [OF store]) simp
  then have "store_ok (d(?p := x)) ((e_manifest e)\<lparr>next_id := next_id (e_manifest e) + 1\<rparr>) lss"
    using tables_named_next [OF named assms(2)] by (simp add: store_ok_def)
  moreover have "?p \<noteq> wal_name" by (simp add: sst_name_not_wal wal_name_def)
  ultimately show ?thesis using assms(1) wal by (simp add: engine_ok_def wal_ok_def)
qed

lemma length_le_weight: "length es \<le> weight es"
  by (induction es) (simp_all add: weight_def entry_weight_def)

lemma ingest_sorted_correct:
  assumes "engine_ok ok (e, d) lss" "sorted_keys kvs" "kvs \<noteq> []" "flushable (e_manifest e) kvs"
  shows "\<exists>e' d'. ingest_sorted (e, d) kvs = Some ((e', d'), Inr (of_nat (length kvs))) \<and>
    engine_ok ok (e', d') (add_run 0 kvs lss) \<and> e_memtable e' = e_memtable e \<and>
    (\<exists>t. levels (e_manifest e') = (levels (e_manifest e))[0 := levels (e_manifest e) ! 0 @ [t]] \<and> table_ok d' t kvs)"
proof -
  let ?m = "e_manifest e" and ?path = "sst_name 0 (next_id (e_manifest e))"
  have eok: "ok (e_memtable e)" "wal_ok (e_wal e, d)" "wal_path (e_wal e) = wal_name" "store_ok d ?m lss"
    using assms(1) by (simp_all add: engine_ok_def)
  have fl: "writable ?m kvs" "levels_short ?m" "length (levels ?m ! 0) + 1 < max_tables_per_level"
    using assms(4) by (simp_all add: flushable_def)
  obtain w d1 where w: "writer_new ?path d = (w, d1)" by fastforce
  obtain n lo hi d2 where fin: "writer_finish (writer_add_entries kvs w) d1 = ((n, lo, hi), d2)"
    "\<And>p. p \<noteq> ?path \<Longrightarrow> d2 p = d p" "n = of_nat (length kvs)"
    "\<And>d' t. d' ?path = d2 ?path \<Longrightarrow> meta_path t = ?path \<Longrightarrow> meta_entry_count t = n \<Longrightarrow>
       meta_min_key t = lo \<Longrightarrow> meta_max_key t = hi \<Longrightarrow> table_ok d' t kvs"
    using write_table [OF assms(3,2) _ _ w] fl(1) by (auto simp: writable_def)
  have "length kvs < 2 ^ 64" using fl(1) length_le_weight [of kvs] by (simp add: writable_def)
  then have pos: "0 < n"
    using assms(3) by (simp add: fin(3) word_less_nat_alt unsigned_of_nat take_bit_nat_eq_self)
  let ?t = "\<lparr>meta_id = next_id ?m, meta_level = 0, meta_path = ?path, meta_entry_count = n,
    meta_min_key = lo, meta_max_key = hi\<rparr>"
  let ?m' = "manifest_add (?m\<lparr>next_id := next_id ?m + 1\<rparr>) ?t"
  have lvl: "levels ?m' = (levels ?m)[0 := levels ?m ! 0 @ [?t]]"
    using fl(1) by (simp add: manifest_add_def writable_def Let_def)
  have "levels_short ?m'"
    using levels_short_push [of "levels ?m" _ ?t] fl(2,3) by (simp add: levels_short_def lvl)
  then have "ingest_sorted (e, d) kvs = Some ((e\<lparr>e_manifest := ?m'\<rparr>, d2), Inr n)"
    using assms(2) pos maybe_compact_short [of "(?m', d2)"]
    by (simp add: ingest_sorted_def next_sstable_path_def w fin(1) add_sorted_eq finish_with_compaction_def Let_def)
  moreover have "store_ok d2 ?m' (add_run 0 kvs lss)"
    using fl(1) fin(2,4) by (intro store_ok_add [OF eok(4)]) (simp_all add: writable_def)
  moreover have "?path \<noteq> wal_name" by (simp add: sst_name_not_wal wal_name_def)
  then have "wal_ok (e_wal e, d2)" using eok(2,3) fin(2) by (simp add: wal_ok_def)
  moreover have "table_ok d2 ?t kvs" by (rule fin(4)) simp_all
  ultimately show ?thesis using eok(1,3) lvl
    by (intro exI [of _ "e\<lparr>e_manifest := ?m'\<rparr>"] exI [of _ d2]) (auto simp: engine_ok_def fin(3))
qed

text \<open>Nothing to ingest: the file that was begun is removed again.\<close>

lemma ingest_sorted_empty:
  "ingest_sorted (e, d) [] =
    Some ((e\<lparr>e_manifest := (e_manifest e)\<lparr>next_id := next_id (e_manifest e) + 1\<rparr>\<rparr>,
           d(sst_name 0 (next_id (e_manifest e)) := None)), Inr 0)"
proof -
  obtain w d1 where w: "writer_new (sst_name 0 (next_id (e_manifest e))) d = (w, d1)" by fastforce
  obtain blocks where "writer_finish (writer_add_entries [] w) d1 =
      ((of_nat (length ([] :: run)), [], []), d(sst_name 0 (next_id (e_manifest e)) \<mapsto> table_file blocks))"
    using written_table [of "[]", OF _ _ w] by (auto simp: weight_def)
  then show ?thesis by (simp add: ingest_sorted_def next_sstable_path_def w writer_add_entries_def Let_def)
qed

subsection \<open>Text\<close>

text \<open>A line per pair, and the pairs that lines can carry: ASCII, with no separator inside.\<close>

definition tsv_line :: "bytes \<times> bytes \<Rightarrow> bytes" where
  "tsv_line kv = fst kv @ [9] @ snd kv @ [10]"

definition tsv_pair :: "bytes \<times> bytes \<Rightarrow> bool" where
  "tsv_pair kv \<longleftrightarrow>
     (\<forall>b \<in> set (fst kv) \<union> set (snd kv). b < 128 \<and> b \<noteq> 10) \<and> 9 \<notin> set (fst kv) \<and>
     (snd kv = [] \<or> last (snd kv) \<noteq> 13)"

lemma split_lines_line: "10 \<notin> set l \<Longrightarrow> split_lines acc (l @ 10 # rest) = (acc @ l @ [10]) # split_lines [] rest"
  by (induction l arbitrary: acc) auto

lemma utf8_valid_ascii: "\<forall>b \<in> set l. b < 128 \<Longrightarrow> utf8_valid l"
  by (induction l) simp_all

lemma trim_line_snoc: "last l \<noteq> 13 \<Longrightarrow> trim_line (l @ [10]) = l"
  by (simp add: trim_line_def)

lemma tsv_line_facts:
  assumes "tsv_pair kv"
  shows "split_lines [] (tsv_line kv @ rest) = tsv_line kv # split_lines [] rest"
    "utf8_valid (tsv_line kv)" "trim_line (tsv_line kv) = fst kv @ 9 # snd kv"
    "split_tab (fst kv @ 9 # snd kv) = Some kv"
proof -
  have "10 \<notin> set (fst kv @ 9 # snd kv)" using assms by (auto simp: tsv_pair_def)
  from split_lines_line [OF this, of "[]" rest]
  show "split_lines [] (tsv_line kv @ rest) = tsv_line kv # split_lines [] rest" by (simp add: tsv_line_def)
  show "utf8_valid (tsv_line kv)"
    using assms by (intro utf8_valid_ascii) (auto simp: tsv_line_def tsv_pair_def word_less_nat_alt)
  have "last (fst kv @ 9 # snd kv) \<noteq> 13" using assms by (auto simp: tsv_pair_def)
  then show "trim_line (tsv_line kv) = fst kv @ 9 # snd kv"
    using trim_line_snoc [of "fst kv @ 9 # snd kv"] by (simp add: tsv_line_def)
  have "\<forall>b \<in> set (fst kv). b \<noteq> 9" using assms by (auto simp: tsv_pair_def)
  then show "split_tab (fst kv @ 9 # snd kv) = Some kv"
    by (simp add: split_tab_def takeWhile_append2 dropWhile_append2)
qed

lemma ingest_lines_tsv:
  "list_all tsv_pair kvs \<Longrightarrow>
     ingest_lines ops (split_lines [] (concat (map tsv_line kvs))) cnt s = ingest_from ops kvs cnt s"
proof (induction kvs arbitrary: cnt s)
  case (Cons kv kvs)
  then have kv: "tsv_pair kv" and "list_all tsv_pair kvs" by simp_all
  have IH: "ingest_lines ops (split_lines [] (concat (map tsv_line kvs))) cnt s = ingest_from ops kvs cnt s" for cnt s
    by (rule Cons.IH) fact
  obtain k v where "kv = (k, v)" by fastforce
  then show ?case
    using tsv_line_facts(1) [OF kv, of "concat (map tsv_line kvs)"] tsv_line_facts(2-4) [OF kv]
    by (simp add: IH cong: Option.bind_cong sum.case_cong)
qed simp

end
