(* ===== verification/Tree_Properties.thy ===== *)
theory Tree_Properties
  imports Total
begin

text \<open>
  Properties of the tree of nodes: the key types, prediction, fitting, construction, lookup,
  conflict nodes and the rebuild of a subtree. Nodes are arbitrary well-formed trees, keys any
  type that meets the contract of the trait.
\<close>

lemma from_be_bytes_less: "0 \<le> from_be_bytes bs \<and> from_be_bytes bs < 256 ^ length bs"
proof (induction bs)
  case (Cons b bs)
  have "uint b * 256 ^ length bs + 256 ^ length bs \<le> 256 * 256 ^ length bs"
    using mult_right_mono [of "uint b + 1" 256 "256 ^ length bs"] uint_u8(1) [of b]
    by (simp add: distrib_right)
  moreover have "0 \<le> uint b * 256 ^ length bs" using uint_u8(2) [of b] by simp
  ultimately show ?case using Cons
    by (simp only: from_be_bytes_Cons list.size add_0_right add_Suc_right power_Suc) linarith
qed (simp add: from_be_bytes_def)

lemma uint_eq_iff_eq: "uint a = uint b \<longleftrightarrow> a = b"
  by (metis word_of_int_uint)

lemma from_be_bytes_inject:
  "length bs = length cs \<Longrightarrow> from_be_bytes bs = from_be_bytes cs \<longleftrightarrow> bs = cs"
proof (induction bs cs rule: list_induct2)
  case (Cons b bs c cs)
  let ?B = "256 ^ length cs :: int"
  have "uint b * ?B + from_be_bytes bs = uint c * ?B + from_be_bytes cs \<longleftrightarrow>
      uint b = uint c \<and> from_be_bytes bs = from_be_bytes cs"
  proof
    assume eq: "uint b * ?B + from_be_bytes bs = uint c * ?B + from_be_bytes cs"
    have "(uint b * ?B + from_be_bytes bs) div ?B = uint b" "(uint c * ?B + from_be_bytes cs) div ?B = uint c"
      using from_be_bytes_less [of bs] from_be_bytes_less [of cs] Cons.hyps by simp_all
    with eq show "uint b = uint c \<and> from_be_bytes bs = from_be_bytes cs" by simp
  qed simp
  then show ?case using Cons by (simp add: from_be_bytes_Cons uint_eq_iff_eq)
qed simp

lemma sample_node:
  "\<exists>n :: (64 word, nat) node. wf_node unsigned_key n \<and> entries n = [(1, 10), (2, 20), (5, 50)]"
proof -
  let ?ps = "[(1, 10), (2, 20), (5, 50)] :: (64 word \<times> nat) list"
  have sep: "config_sep (config_default\<lparr>range_headroom := Fin 1\<rparr>)"
    by (rule config_total_headroom [OF config_total_default])
  obtain n where "build_recursive unsigned_key (config_default\<lparr>range_headroom := Fin 1\<rparr>) ?ps = Some n"
    using build_recursive_total [OF u64.key_contract_axioms sep, of ?ps] by (auto simp: max_pairs_def)
  then show ?thesis
    using build_recursive_correct [OF _ u64.key_contract_axioms _ _ _ config_sep_ok [OF sep]]
    by (fastforce simp: usize_max_def)
qed

text \<open>
  C18: Construction from a sorted nonempty sequence returns, although a group that shares a
  slot is built by an unbounded recursive call: the tree is well-formed and holds exactly the
  given pairs.
\<close>

theorem build_spec:
  assumes "key_contract K" "config_sep cfg" "sorted_keys ps" "ps \<noteq> []" "length ps \<le> max_pairs"
  shows "\<exists>n. build_recursive K cfg ps = Some n \<and> wf_node K n \<and> entries n = ps"
proof -
  have "length ps \<le> usize_max" using assms(5) by (simp add: max_pairs_def usize_max_def)
  then show ?thesis
    using build_recursive_total [OF assms] config_sep_ok [OF assms(2)]
      build_recursive_correct [OF _ assms(1,3,4)] by blast
qed

theorem build_spec_witness:
  "\<exists>n. build_recursive unsigned_key (config_default\<lparr>range_headroom := Fin 1\<rparr>)
     [(3 :: 64 word, ''a''), (4, ''b''), (900, ''c'')] = Some n \<and> entries n = [(3, ''a''), (4, ''b''), (900, ''c'')]"
  using build_spec [OF u64.key_contract_axioms config_total_headroom [OF config_total_default],
      of "[(3, ''a''), (4, ''b''), (900, ''c'')]"]
  by (auto simp: max_pairs_def)


text \<open>
  C19: Fitting a group of at least two sorted keys succeeds; it reports the number of
  neighbours that share a slot, and at least one pair of neighbours is separated unless the
  group is degenerate.
\<close>

theorem fit_spec:
  assumes "key_contract K" "config_sep cfg" "sorted_keys ps" "2 \<le> length ps" "length ps \<le> max_pairs"
  shows "\<exists>r. fit_fmcd (length ps) (\<lambda>i. to_model_input K (fst (ps ! i))) (expansion_factor cfg)
      (range_headroom cfg) = Inr r \<and> 1 \<le> fmcd_array_size r \<and> model_ok (fmcd_model r) \<and>
    fmcd_conflicts r = card {i. 1 \<le> i \<and> i < length ps \<and>
      predict K (fmcd_model r) (fst (ps ! i)) (fmcd_array_size r) =
      predict K (fmcd_model r) (fst (ps ! (i - 1))) (fmcd_array_size r)} \<and>
    (\<not> is_degenerate_group K ps \<longrightarrow> fmcd_conflicts r < length ps - 1)"
proof -
  let ?ki = "\<lambda>i. to_model_input K (fst (ps ! i))"
  have ne: "ps \<noteq> []" and len: "length ps \<le> usize_max"
    using assms(4,5) by (auto simp: max_pairs_def usize_max_def)
  obtain r where r: "fit_fmcd (length ps) ?ki (expansion_factor cfg) (range_headroom cfg) = Inr r"
    "1 \<le> fmcd_array_size r" "model_ok (fmcd_model r)" "midpoint (fmcd_model r) = None"
    "fmcd_conflicts r = count_conflicts_fast (length ps) ?ki (fmcd_model r) (fmcd_array_size r)"
    by (rule key_contract.fit_pairs [OF assms(1,3) ne len config_sep_ok [OF assms(2)]])
  have "fmcd_conflicts r < length ps - 1" if "\<not> is_degenerate_group K ps"
    using key_contract.fit_pairs_separates [OF assms(1,3,4,5,2) that] r(1) by auto
  with r ne show ?thesis by (simp add: count_conflicts_fast_eq predict_eq_raw)
qed

theorem fit_spec_witness:
  "\<exists>r. fit_fmcd 2 (\<lambda>i. to_model_input unsigned_key (fst ([(3 :: 64 word, ()), (8, ())] ! i)))
      (expansion_factor (config_default\<lparr>range_headroom := Fin 1\<rparr>)) (Fin 1) = Inr r \<and> 1 \<le> fmcd_array_size r"
proof -
  have "sorted_keys [(3 :: 64 word, ()), (8, ())]" by (simp add: word_less_nat_alt)
  moreover have "length [(3 :: 64 word, ()), (8, ())] = 2" "2 \<le> max_pairs" by (simp_all add: max_pairs_def)
  moreover have "range_headroom (config_default\<lparr>range_headroom := Fin 1\<rparr>) = Fin 1" by simp
  ultimately show ?thesis
    using fit_spec [OF u64.key_contract_axioms config_total_headroom [OF config_total_default],
        of "[(3, ()), (8, ())]"] by (simp only: ) blast
qed


text \<open>
  For sorted keys and an increasing line, the single pass that compares neighbouring slots
  counts the same conflicts as the reference that marks occupied slots.
\<close>

lemma conflict_count_equiv:
  assumes "inputs_ok n ki" "model_ok m" "midpoint m = None" "0 < n" "0 < sz"
  shows "count_conflicts_fast n ki m sz = count_conflicts n ki m sz"
proof (cases n)
  case (Suc n')
  then show ?thesis
    using adjacent_equal_count [of n' "\<lambda>i. predict_raw m (ki i) sz"] model_raw_mono [OF assms(2,3,1)]
    by (simp add: count_conflicts_fast_eq count_conflicts_eq [OF assms(5)])
qed (use assms in simp)

lemma conflict_count_equiv_witness:
  "count_conflicts_fast 3 (\<lambda>i. [Fin 0, Fin 1, Fin 7] ! i) (linear_new (Fin 1) (Fin 0)) 4 =
   count_conflicts 3 (\<lambda>i. [Fin 0, Fin 1, Fin 7] ! i) (linear_new (Fin 1) (Fin 0)) 4"
proof (rule conflict_count_equiv)
  have "(1 :: rat) \<le> pow2 128" "(7 :: rat) \<le> pow2 128" "(0 :: rat) \<le> pow2 128" by (simp_all add: pow2_def)
  then show "inputs_ok 3 (\<lambda>i. [Fin 0, Fin 1, Fin 7] ! i)"
    by (auto simp: inputs_ok_def less_Suc_eq le_Suc_eq eval_nat_numeral)
qed (use model_ok_new [of 1 0] in \<open>simp_all add: linear_new_def\<close>)

text \<open>
  When two keys meet in a slot, the node that separates them is built in finitely many steps,
  is well-formed and holds exactly the two pairs.
\<close>

lemma conflict_node_spec:
  assumes "key_contract K" "config_ok cfg" "k1 \<noteq> k2"
  shows "\<exists>c. build_conflict_node K cfg k1 v1 k2 v2 = Some c \<and> wf_node K c \<and>
    map_of (entries c) = [k1 \<mapsto> v1, k2 \<mapsto> v2] \<and> length (entries c) = 2"
proof -
  obtain c where c: "build_conflict_node K cfg k1 v1 k2 v2 = Some c"
    using build_conflict_node_total [OF assms(1,3), of cfg v1 v2] by blast
  then have wf: "wf_node K c" "map_of (entries c) = [k1 \<mapsto> v1, k2 \<mapsto> v2]"
    using build_conflict_node_correct [OF c assms] by simp_all
  then have "length (entries c) = card {k1, k2}"
    using key_contract.length_entries [OF assms(1) wf(1)] by (simp add: insert_commute)
  with c wf assms(3) show ?thesis by simp
qed

lemma conflict_node_spec_witness:
  "\<exists>c. build_conflict_node unsigned_key config_default (8 :: 64 word) ''x'' 7 ''y'' = Some c \<and>
     map_of (entries c) 7 = Some ''y''"
  using conflict_node_spec [OF u64.key_contract_axioms config_total_ok [OF config_total_default],
      of 8 7 "''x''" "''y''"]
  by fastforce

text \<open>
  C20: Rebuilding the subtree of a slot returns and keeps the tree well-formed, its entries,
  its capacity and the prediction of its root, so that no lookup changes.
\<close>

theorem rebuild_subtree_spec:
  assumes "key_contract K" "config_total cfg" "wf_node K n" "length (entries n) \<le> max_pairs"
  shows "\<exists>n' b. try_rebuild_subtree K cfg n i = Some (n', b) \<and> wf_node K n' \<and> entries n' = entries n \<and>
    capacity n' = capacity n \<and> predict_slot K n' = predict_slot K n \<and> get K n' = get K n"
proof -
  obtain n' b where r: "try_rebuild_subtree K cfg n i = Some (n', b)"
    using try_rebuild_total [OF assms] by blast
  have "length (entries n) \<le> usize_max" using assms(4) by (simp add: max_pairs_def usize_max_def)
  then have "wf_node K n' \<and> entries n' = entries n \<and> capacity n' = capacity n"
    by (rule try_rebuild_subtree_correct [OF r assms(1,3) config_total_ok [OF assms(2)]])
  with r assms(3) show ?thesis by (auto simp: predict_rebuild [OF r] get_eq_map_of fun_eq_iff)
qed

theorem rebuild_subtree_spec_witness:
  "\<exists>(n :: (64 word, nat) node) n' b. try_rebuild_subtree unsigned_key config_default n 0 = Some (n', b) \<and>
     get unsigned_key n' 5 = Some 50"
proof -
  obtain n :: "(64 word, nat) node" where n: "wf_node unsigned_key n"
    "entries n = [(1, 10), (2, 20), (5, 50)]" using sample_node by blast
  have len: "length (entries n) \<le> max_pairs" by (simp add: n(2) max_pairs_def)
  obtain n' b where "try_rebuild_subtree unsigned_key config_default n 0 = Some (n', b)"
    "get unsigned_key n' = get unsigned_key n"
    using rebuild_subtree_spec [OF u64.key_contract_axioms config_total_default n(1) len] by blast
  moreover have "get unsigned_key n 5 = Some 50" by (simp add: get_eq_map_of [OF n(1)] n(2))
  ultimately show ?thesis by (intro exI [of _ n] exI [of _ n'] exI [of _ b]) simp
qed


text \<open>
  C21: Every implementation of the key trait meets the contract the tree relies on: integral
  and monotone model inputs, monotone ordinals in range, and ordinals less than half the range
  apart when the inputs coincide.
\<close>

theorem key_types_spec:
  "key_contract (unsigned_key :: 8 word key_impl) \<and> key_contract (unsigned_key :: 16 word key_impl) \<and>
   key_contract (unsigned_key :: 32 word key_impl) \<and> key_contract (unsigned_key :: 64 word key_impl) \<and>
   key_contract (signed_key :: 8 signed key_impl) \<and> key_contract (signed_key :: 16 signed key_impl) \<and>
   key_contract (signed_key :: 32 signed key_impl) \<and> key_contract (signed_key :: 64 signed key_impl) \<and>
   key_contract u128_key \<and> key_contract i128_key \<and>
   key_contract byte_array_key \<and> key_contract string_key \<and> key_contract vec_u8_key"
  by (intro conjI u8.key_contract_axioms u16.key_contract_axioms u32.key_contract_axioms
      u64.key_contract_axioms i8.key_contract_axioms i16.key_contract_axioms i32.key_contract_axioms
      i64.key_contract_axioms u128.key_contract_axioms i128.key_contract_axioms
      byte_array.key_contract_axioms rust_string.key_contract_axioms vec_u8.key_contract_axioms)


text \<open>
  The exact ordinal of an integer identifies it. That of a byte string identifies only its first
  16 bytes, padded with zeros: longer strings with a common prefix, and strings that differ in
  trailing zeros, share an ordinal.
\<close>

lemma ordinals_spec:
  "inj (to_exact_ordinal (unsigned_key :: 'a::len word key_impl)) \<and> inj (to_exact_ordinal u128_key) \<and>
   (bytes_to_exact_ordinal bs = bytes_to_exact_ordinal cs \<longleftrightarrow> pad_prefix 16 bs = pad_prefix 16 cs) \<and>
   to_exact_ordinal string_key [97] = to_exact_ordinal string_key [97, 0]"
proof (intro conjI)
  show "inj (to_exact_ordinal (unsigned_key :: 'a word key_impl))"
    by (simp add: inj_def unsigned_key_def uint_eq_iff_eq)
  show "inj (to_exact_ordinal u128_key)" by (simp add: inj_def u128_key_def flip_sign_uint uint_eq_iff_eq)
  have "length (pad_prefix 16 bs) = length (pad_prefix 16 cs)" by (simp add: pad_prefix_def Let_def)
  then show "bytes_to_exact_ordinal bs = bytes_to_exact_ordinal cs \<longleftrightarrow> pad_prefix 16 bs = pad_prefix 16 cs"
    using from_be_bytes_inject by (simp add: bytes_to_exact_ordinal_eq flip: from_be_bytes_pad)
  have "pad_prefix 16 [97] = pad_prefix 16 [97, 0]"
    by (simp add: pad_prefix_def numeral_eq_Suc)
  then show "to_exact_ordinal string_key [97] = to_exact_ordinal string_key [97, 0]"
    by (simp add: string_key_def bytes_to_exact_ordinal_def)
qed

end
