(* ===== verification/Store_Properties.thy ===== *)
theory Store_Properties
  imports Engine_Compaction "HOL-Library.RBT"
begin

text \<open>
  Properties of the storage formats: the write-ahead log, the sorted tables, the merge of a level
  and the memtables. They are stated over the contents of files, so that errors and torn files are
  part of them.
\<close>

subsection \<open>Preliminaries\<close>

lemma fold_append_grows:
  "snd s (wal_path (fst s)) = Some f \<Longrightarrow>
     \<exists>x. snd (fold append_record rs s) (wal_path (fst s)) = Some (f @ x)"
proof (induction rs arbitrary: s f)
  case (Cons r rs)
  have wr: "\<exists>x. snd (wal_write bs t) (wal_path (fst t)) = Some (g @ x) \<and>
      wal_path (fst (wal_write bs t)) = wal_path (fst t)"
    if "snd t (wal_path (fst t)) = Some g" for bs t g
    using that by (auto simp: wal_write_def write_all_def disk_append_def Let_def split: prod.splits)
  have chain: "\<exists>x. snd (fold wal_write bss t) (wal_path (fst t)) = Some (g @ x) \<and>
      wal_path (fst (fold wal_write bss t)) = wal_path (fst t)"
    if "snd t (wal_path (fst t)) = Some g" for bss t g
    using that
  proof (induction bss arbitrary: t g)
    case (Cons bs bss)
    then obtain x where "snd (wal_write bs t) (wal_path (fst t)) = Some (g @ x)"
      "wal_path (fst (wal_write bs t)) = wal_path (fst t)" using wr by blast
    then show ?case using Cons.IH [of "wal_write bs t" "g @ x"] by auto
  qed simp
  have "\<exists>bss. append_record r s = fold wal_write bss s"
    by (cases r)
      (auto simp: append_put_def append_delete_def
        intro: exI [of _ "[[record_put], u32_le _, _, u32_le _, _]"] exI [of _ "[[record_delete], u32_le _, _, u32_le 0]"])
  then obtain x where "snd (append_record r s) (wal_path (fst s)) = Some (f @ x)"
    "wal_path (fst (append_record r s)) = wal_path (fst s)" using chain Cons.prems by metis
  then show ?case using Cons.IH [of "append_record r s" "f @ x"] by auto
qed simp

lemma appended_synced:
  assumes "d p = Some file"
  shows "wal_recover p (snd (wal_sync (fold append_record new (wal_open p d)))) =
    wal_replay (file @ encode_records new) []"
proof -
  have "snd (wal_sync (fold append_record new (wal_open p d))) p = Some (file @ encode_records new)"
    using wal_sync_correct(4) [OF append_records_correct(1) [OF wal_open_correct(1)], of new p d]
      append_records_correct(2,3) [OF wal_open_correct(1), of new p d] wal_open_correct(2,3) [of p d] assms
    by simp
  then show ?thesis by (simp add: wal_recover_def)
qed

text \<open>Bytes behind a record whose value was cut off complete the value, or are swallowed.\<close>

lemma read_cut_value:
  assumes "length v < 2 ^ 32" "length w < length v"
  shows "if length w + length x < length v then \<exists>e. read_length_prefixed (u32_le (len_u32 v) @ w @ x) = Inl e
    else read_length_prefixed (u32_le (len_u32 v) @ w @ x) =
      Inr (w @ take (length v - length w) x, drop (length v - length w) x)"
proof -
  have head: "read_length_prefixed (u32_le (len_u32 v) @ w @ x) = read_exact (length v) (w @ x)"
    using assms(1) by (simp add: read_length_prefixed_def read_exact_append [of _ 4] unat_len_u32)
  then show ?thesis using assms(2) by (simp add: read_exact_def)
qed

lemma replay_cut_value:
  assumes "record_fits (WalPut k v)" "9 + length k \<le> n" "n < length (encode_record (WalPut k v))"
    and "m = length (encode_record (WalPut k v)) - n"
  shows "wal_replay (take n (encode_record (WalPut k v)) @ x) recs =
    (if length x < m then Inr recs
     else wal_replay (drop m x) (recs @ [WalPut k (take (length v - m) v @ take m x)]))"
proof -
  let ?w = "take (length v - m) v"
  have fits: "length k < 2 ^ 32" "length v < 2 ^ 32" using assms(1) by simp_all
  have m: "0 < m" "m \<le> length v" "n = 9 + length k + (length v - m)" using assms(2-4) by simp_all
  then have w: "length ?w = length v - m" "length ?w < length v" "length v - length ?w = m" by simp_all
  have "take n (encode_record (WalPut k v)) @ x =
      record_put # u32_le (len_u32 k) @ k @ u32_le (len_u32 v) @ ?w @ x"
    by (simp add: m(3) take_Cons')
  moreover have "wal_replay (record_put # u32_le (len_u32 k) @ k @ u32_le (len_u32 v) @ ?w @ x) recs =
      (if length x < m then Inr recs else wal_replay (drop m x) (recs @ [WalPut k (?w @ take m x)]))"
    using read_cut_value [OF fits(2) w(2), of x] w(1,3) m(1,2)
    by (auto simp: wal_replay.simps [of "_ # _"] read_exact_1 read_length_prefixed_append [OF fits(1)] split: if_splits)
  ultimately show ?thesis by (simp only:)
qed

text \<open>Streaming a table: the entries that successive calls of \<^verbatim>\<open>next_entry\<close> return.\<close>

fun scan_entries :: "nat \<Rightarrow> sst_scan \<Rightarrow> io_error + (bytes \<times> bytes) list" where
  "scan_entries 0 s = Inr []"
| "scan_entries (Suc n) s =
     and_then (next_entry s) (\<lambda>(e, s).
       case e of None \<Rightarrow> Inr [] | Some e \<Rightarrow> and_then (scan_entries n s) (\<lambda>es. Inr (e # es)))"

lemma scan_entries_table:
  "table_fits blocks \<Longrightarrow> scan_at blocks s es \<Longrightarrow> length es < n \<Longrightarrow> scan_entries n s = Inr es"
proof (induction n arbitrary: s es)
  case (Suc n)
  obtain s' where "next_entry s = Inr (case es of [] \<Rightarrow> None | e # _ \<Rightarrow> Some e, s')"
    "scan_at blocks s' (tl es)" using next_entry_table [OF Suc.prems(1,2)] by blast
  then show ?case using Suc.IH [of s' "tl es"] Suc.prems by (cases es) auto
qed simp

section \<open>Write-ahead log\<close>

text \<open>
  C22: Records appended to a log and synced are recovered, in order and behind the records that
  the file held before.
\<close>

theorem wal_roundtrip:
  assumes "(case d p of None \<Rightarrow> [] | Some file \<Rightarrow> file) = encode_records old"
    and "list_all record_fits (old @ new)"
  shows "wal_recover p (snd (wal_sync (fold append_record new (wal_open p d)))) = Inr (old @ new)"
proof -
  have ok: "wal_ok (fold append_record new (wal_open p d))"
    by (rule append_records_correct(1) [OF wal_open_correct(1)])
  have "snd (wal_sync (fold append_record new (wal_open p d))) p = Some (encode_records (old @ new))"
    using wal_sync_correct(4) [OF ok] append_records_correct(2,3) [OF wal_open_correct(1), of new p d]
      wal_open_correct(2,3) [of p d] assms(1) by (simp add: encode_records_def)
  then show ?thesis using replay_records [OF assms(2), of "[]" "[]"]
    by (simp add: wal_recover_def wal_replay.simps [of "[]"] read_exact_def)
qed

theorem wal_roundtrip_witness:
  "wal_recover ''w'' (snd (wal_sync (append_delete [1] (append_put [1] [2, 3] (wal_open ''w'' Map.empty)))))
     = Inr [WalPut [1] [2, 3], WalDelete [1]]"
  using wal_roundtrip [of Map.empty "''w''" "[]" "[WalPut [1] [2, 3], WalDelete [1]]"]
  by (simp add: encode_records_def)


text \<open>
  At every moment, also without a sync and with a record cut off in the middle, recovering from
  the file on disk succeeds and gives the records it held before, then a prefix of the appended
  ones.
\<close>

lemma wal_crash_prefix:
  assumes "d p = Some (encode_records old)" "list_all record_fits (old @ new)"
  shows "\<exists>n. wal_recover p (snd (fold append_record new (wal_open p d))) = Inr (old @ take n new)"
proof -
  let ?s = "fold append_record new (wal_open p d)"
  have ok: "wal_ok ?s" by (rule append_records_correct(1) [OF wal_open_correct(1)])
  have path: "wal_path (fst (wal_open p d)) = p" "wal_path (fst ?s) = p"
    using append_records_correct(3) [OF wal_open_correct(1)] wal_open_correct(2) by simp_all
  have "snd (wal_open p d) p = Some (encode_records old)" using assms(1) by (simp add: wal_open_def)
  then obtain x where x: "snd ?s p = Some (encode_records old @ x)"
    using fold_append_grows [of "wal_open p d" "encode_records old" new] path(1) by auto
  obtain rest where "wal_written ?s = (encode_records old @ x) @ rest"
    using wal_file_prefix [OF ok] x path(2) by auto
  then have "encode_records new = x @ rest"
    using append_records_correct(2) [OF wal_open_correct(1), of new p d] wal_open_correct(3) [of p d] assms(1)
    by simp
  moreover have fits: "list_all record_fits old" "list_all record_fits new" using assms(2) by simp_all
  ultimately obtain n where "wal_replay x old = Inr (old @ take n new)" using replay_prefix by blast
  then show ?thesis using x replay_records [OF fits(1), of x "[]"] by (auto simp: wal_recover_def)
qed

lemma wal_crash_prefix_witness:
  "\<exists>n. wal_recover ''w'' (snd (append_put [5] [6] (wal_open ''w'' [''w'' \<mapsto> encode_record (WalPut [1] [2])])))
     = Inr (WalPut [1] [2] # take n [WalPut [5] [6]])"
  using wal_crash_prefix [of "[''w'' \<mapsto> encode_record (WalPut [1] [2])]" "''w''" "[WalPut [1] [2]]"
      "[WalPut [5] [6]]"]
  by (simp add: encode_records_def)

text \<open>
  Recovery stops silently at a record that is cut off at the end of the file and reports a
  complete record of unknown type as corruption.
\<close>

lemma wal_recover_errors:
  assumes "list_all record_fits rs" "record_fits r" "n < length (encode_record r)"
    and "record_fits (WalPut k v)" "t \<noteq> record_put" "t \<noteq> record_delete"
  shows "wal_recover p [p \<mapsto> encode_records rs @ take n (encode_record r)] = Inr rs \<and>
    wal_recover p [p \<mapsto> encode_records rs @ t # u32_le (len_u32 k) @ k @ u32_le (len_u32 v) @ v @ rest] =
      Inl (Corruption ''unknown WAL record type'')"
  using assms
  by (simp add: wal_recover_def replay_records replay_torn wal_replay.simps [of "t # _"] read_exact_1
      read_length_prefixed_append)

text \<open>
  C23: Opening a log whose last record was cut off recovers the complete records but does not
  remove the cut one: what is appended and synced afterwards is read as its continuation. When
  the cut is in the value of a put, the bytes of the new records complete this value to one
  that nobody wrote, and reading goes on behind them; when they are too few for that, all the
  new records are lost.
\<close>

theorem wal_torn_tail_append:
  assumes "list_all record_fits rs" "record_fits r" "n < length (encode_record r)"
    and "d p = Some (encode_records rs @ take n (encode_record r))"
  shows "wal_recover p d = Inr rs \<and>
    wal_recover p (snd (wal_sync (fold append_record new (wal_open p d)))) =
      wal_replay (take n (encode_record r) @ encode_records new) rs \<and>
    (\<forall>k v m x. r = WalPut k v \<longrightarrow> 9 + length k \<le> n \<longrightarrow> m = length (encode_record r) - n \<longrightarrow> x = encode_records new \<longrightarrow>
      wal_recover p (snd (wal_sync (fold append_record new (wal_open p d)))) =
        (if length x < m then Inr rs
         else wal_replay (drop m x) (rs @ [WalPut k (take (length v - m) v @ take m x)])))"
proof -
  have now: "wal_recover p d = Inr rs"
    using assms replay_torn by (simp add: wal_recover_def replay_records)
  have later: "wal_recover p (snd (wal_sync (fold append_record new (wal_open p d)))) =
      wal_replay (take n (encode_record r) @ encode_records new) rs"
    unfolding appended_synced [of d p, OF assms(4)] using assms(1) by (simp add: replay_records)
  show ?thesis
    unfolding later
  proof (intro conjI now refl allI impI)
    fix k v m x
    assume "r = WalPut k v" "9 + length k \<le> n" "m = length (encode_record r) - n" "x = encode_records new"
    then show "wal_replay (take n (encode_record r) @ encode_records new) rs = (if length x < m then Inr rs
         else wal_replay (drop m x) (rs @ [WalPut k (take (length v - m) v @ take m x)]))"
      using replay_cut_value [of k v n m x rs] assms(2,3) by blast
  qed
qed

theorem wal_torn_tail_append_witness:
  "\<exists>d. wal_recover ''w'' d = Inr [WalDelete [4]] \<and>
     wal_recover ''w'' (snd (wal_sync (append_put [7] [8] (wal_open ''w'' d)))) =
       Inr [WalDelete [4], WalPut [1] [5, 1]]"
proof -
  let ?r = "WalPut [1] [5, 6]" and ?d = "[''w'' \<mapsto> encode_records [WalDelete [4]] @ take 11 (encode_record (WalPut [1] [5, 6]))]"
  have rec: "encode_record (WalPut [7] [8]) = [1, 1, 0, 0, 0, 7, 1, 0, 0, 0, 8]" by code_simp
  have rest: "wal_replay [1, 0, 0, 0, 7, 1, 0, 0, 0, 8] rs = Inr rs" for rs
    by (subst wal_replay.simps) (simp add: read_exact_def read_length_prefixed_def)
  have fits: "list_all record_fits [WalDelete [4]]" "record_fits ?r" "11 < length (encode_record ?r)"
    "?d ''w'' = Some (encode_records [WalDelete [4]] @ take 11 (encode_record ?r))" by simp_all
  note w = wal_torn_tail_append [where d = ?d and p = "''w''" and rs = "[WalDelete [4]]" and r = ?r and n = 11
      and new = "[WalPut [7] [8]]", OF fits]
  have "encode_records [WalPut [7] [8]] = [1, 1, 0, 0, 0, 7, 1, 0, 0, 0, 8]"
    by (simp add: encode_records_def rec del: encode_record.simps)
  moreover have "length (encode_record ?r) - 11 = 1" by simp
  ultimately have "wal_recover ''w'' (snd (wal_sync (fold append_record [WalPut [7] [8]] (wal_open ''w'' ?d)))) =
      Inr [WalDelete [4], WalPut [1] [5, 1]]"
    using w [THEN conjunct2, THEN conjunct2, rule_format, OF refl _ refl refl] by (simp add: rest)
  then show ?thesis using w by (intro exI [of _ ?d]) simp
qed


section \<open>Sorted tables\<close>

text \<open>
  C24: A table that is written and finished can be opened; reading all of it gives the entries
  back, and the writer reports their number, the first and the last key. In a table of sorted
  entries, the search through the index and one block finds exactly the value of each key.
\<close>

theorem table_roundtrip:
  assumes "list_all entry_fits es" "weight es + 20 < 2 ^ 64" "writer_new path d = (w, d1)" "es \<noteq> []"
  shows "\<exists>d2 r. writer_finish (writer_add_entries es w) d1 =
      ((of_nat (length es), fst (hd es), fst (last es)), d2) \<and>
    reader_open path d2 = Inr r \<and> read_all r = Inr es \<and> r_entry_count r = of_nat (length es) \<and>
    (sorted_keys es \<longrightarrow> (\<forall>k. reader_get r k = Inr (map_of es k)))"
proof -
  obtain blocks where "table_fits blocks" "concat blocks = es"
    "writer_finish (writer_add_entries es w) d1 =
      ((of_nat (length es), if es = [] then [] else fst (hd es), if es = [] then [] else fst (last es)),
       d(path \<mapsto> table_file blocks))"
    by (rule written_table [OF assms(1-3)])
  then show ?thesis
    using assms(4) reader_open_table [of blocks "d(path \<mapsto> table_file blocks)" path] read_all_table [of blocks]
      reader_get_table [of blocks]
    by (simp add: table_reader_def)
qed

theorem table_roundtrip_witness:
  "\<exists>n lo d2 r. writer_finish (writer_add_entries [([1], [2]), ([3], [])] (fst (writer_new ''t'' Map.empty)))
       (snd (writer_new ''t'' Map.empty)) = ((n, lo, [3]), d2) \<and> reader_open ''t'' d2 = Inr r \<and>
     read_all r = Inr [([1], [2]), ([3], [])] \<and> reader_get r [3] = Inr (Some []) \<and> reader_get r [2] = Inr None"
  using table_roundtrip [of "[([1], [2]), ([3], [])]" "''t''" Map.empty "fst (writer_new ''t'' Map.empty)"
      "snd (writer_new ''t'' Map.empty)"]
  by (auto simp: entry_fits_def weight_def entry_weight_def)


text \<open>
  Streaming a table block by block yields the same entries as reading all of it, and ends after
  the last one.
\<close>

lemma table_streaming:
  assumes "table_fits blocks" "d path = Some (table_file blocks)" "length (concat blocks) < n"
  shows "\<exists>r. reader_open path d = Inr r \<and> scan_entries n (reader_scan r) = read_all r \<and>
    read_all r = Inr (concat blocks)"
  using reader_open_table [of blocks d path] read_all_table [OF assms(1)] assms
    scan_entries_table [OF assms(1) scan_at_start [of blocks] assms(3)] by simp

section \<open>Tables of a store\<close>

text \<open>
  The name given to a new table is the name of no live table and not that of the log, and two
  tables of one name have the same level and identifier; identifiers ascend, so the next name
  is new again.
\<close>

lemma table_names_spec:
  assumes "tables_named m" "unat (next_id m) + 1 < 2 ^ 64" "next_sstable_path m level = ((tid, path), m')"
  shows "path \<noteq> wal_name \<and> path = sst_name level tid \<and>
    (\<forall>l < length (levels m). \<forall>t \<in> set (levels m ! l). meta_path t \<noteq> path \<and>
      (\<forall>l' < length (levels m). \<forall>t' \<in> set (levels m ! l').
         meta_path t = meta_path t' \<longrightarrow> l = l' \<and> meta_id t = meta_id t')) \<and>
    (\<forall>t. meta_level t = level \<longrightarrow> meta_id t = tid \<longrightarrow> meta_path t = path \<longrightarrow> tables_named (manifest_add m' t))"
proof -
  have eqs: "tid = next_id m" "path = sst_name level tid" "m' = m\<lparr>next_id := next_id m + 1\<rparr>"
    using assms(3) by (auto simp: next_sstable_path_def Let_def)
  have "unat (next_id m) < unat (next_id m')" using assms(2) by (simp add: eqs unat_word_ariths)
  then have named: "tables_named (manifest_add m' t)"
    if "meta_level t = level" "meta_id t = tid" "meta_path t = path" for t
    using tables_named_add [of m' t] tables_named_next [OF assms(1,2)] that eqs by simp
  have fresh: "meta_path t \<noteq> path" if "l < length (levels m)" "t \<in> set (levels m ! l)" for l t
    using new_path_fresh(1) [OF assms(1) that] eqs(1,2) by simp
  have uniq: "l = l' \<and> meta_id t = meta_id t'"
    if "l < length (levels m)" "t \<in> set (levels m ! l)" "l' < length (levels m)" "t' \<in> set (levels m ! l')"
      "meta_path t = meta_path t'" for l t l' t'
    using assms(1) that by (metis tables_named_def sst_name_inject)
  have "path \<noteq> wal_name" by (simp add: eqs(2))
  with eqs(2) fresh named show ?thesis
    by (intro conjI ballI allI impI uniq [THEN conjunct1] uniq [THEN conjunct2]) assumption+
qed

lemma table_names_spec_witness:
  "meta_path (single_meta 0 0 [1]) \<noteq> sst_name 1 5"
proof -
  have "tables_named \<lparr>levels = [[single_meta 0 0 [1]], []], next_id = 5\<rparr>"
    by (auto simp: tables_named_def less_Suc_eq)
  then show ?thesis
    using table_names_spec [of "\<lparr>levels = [[single_meta 0 0 [1]], []], next_id = 5\<rparr>" 1 5 "sst_name 1 5"
        "\<lparr>levels = [[single_meta 0 0 [1]], []], next_id = 6\<rparr>"]
    by (auto simp: next_sstable_path_def)
qed

text \<open>
  C25: Compacting a level returns without an error, deletes the files of its tables and leaves
  every other file but the new table alone. The level is empty afterwards, and the next level
  has one more table, unless no entry is left to store; that table is sorted and holds for
  every key the value of the oldest table of the level that has it, without the tombstones when
  the next level is the last one.
\<close>

theorem compact_level_spec:
  assumes "store_ok d m lss" "level < length (levels m)" "lss ! level \<noteq> []"
    and "weight (concat (lss ! level)) + 20 < 2 ^ 64" "unat (next_id m) + 1 < 2 ^ 64"
  shows "\<exists>m' d' out. compact_level (m, d) level = Some ((m', d'), Inr ()) \<and> sorted_keys out \<and>
    (\<forall>k. map_of out k = (case map_of (concat (lss ! level)) k of None \<Rightarrow> None
      | Some v \<Rightarrow> if level + 1 \<ge> num_levels m - 1 \<and> v = [] then None else Some v)) \<and>
    store_ok d' m' (let ls = lss[level := []] in if out = [] then ls else add_run (level + 1) out ls) \<and>
    d' wal_name = d wal_name \<and>
    (\<forall>p. p \<noteq> sst_name (level + 1) (next_id m) \<longrightarrow>
       d' p = (if p \<in> meta_path ` set (levels m ! level) then None else d p))"
proof -
  obtain m' d' out where c: "compact_level (m, d) level = Some ((m', d'), Inr ())"
    "store_ok d' m' (compact_runs level out lss)" "d' wal_name = d wal_name" "sorted_keys out"
    "map_of out = merged_value (level + 1 \<ge> num_levels m - 1) (lss ! level) None"
    "\<forall>p. p \<noteq> sst_name (level + 1) (next_id m) \<longrightarrow> d' p = (if p \<in> meta_path ` set (levels m ! level) then None else d p)"
    using compact_store [OF assms] by blast
  moreover have "map_of out k = (case map_of (concat (lss ! level)) k of None \<Rightarrow> None
      | Some v \<Rightarrow> if level + 1 \<ge> num_levels m - 1 \<and> v = [] then None else Some v)" for k
    by (simp add: c(5) merged_value_def split: option.split)
  ultimately show ?thesis unfolding compact_runs_def by blast
qed

theorem compact_level_spec_witness:
  "\<exists>m' d' out. compact_level (e_manifest sample_engine, sample_disk) 0 = Some ((m', d'), Inr ()) \<and>
     map_of out [7 :: u8] = Some [1] \<and> store_ok d' m' [[], [out], [], []]"
proof -
  have ok: "store_ok sample_disk (e_manifest sample_engine) sample_runs"
    using sample_engine_ok by (simp add: engine_ok_def)
  have "0 < length (levels (e_manifest sample_engine))" "unat (next_id (e_manifest sample_engine)) + 1 < 2 ^ 64"
    by (simp_all add: sample_engine_def)
  moreover have "sample_runs ! 0 \<noteq> []" "weight (concat (sample_runs ! 0)) + 20 < 2 ^ 64"
    by (simp_all add: weight_def entry_weight_def)
  ultimately obtain m' d' out where
    "compact_level (e_manifest sample_engine, sample_disk) 0 = Some ((m', d'), Inr ())"
    "\<forall>k. map_of out k = (case map_of (concat (sample_runs ! 0)) k of None \<Rightarrow> None
      | Some v \<Rightarrow> if 0 + 1 \<ge> num_levels (e_manifest sample_engine) - 1 \<and> v = [] then None else Some v)"
    "store_ok d' m' (let ls = sample_runs[0 := []] in if out = [] then ls else add_run (0 + 1) out ls)"
    using compact_level_spec [OF ok, of 0] by blast
  moreover from this(2) have "map_of out [7] = Some [1]" by simp
  moreover from this have "out \<noteq> []" by auto
  ultimately show ?thesis
    by (intro exI [of _ m'] exI [of _ d'] exI [of _ out]) (auto simp: add_run_def Let_def)
qed


text \<open>
  C26: When no key occurs in two tables of a level, and no tombstone that is dropped hides an
  older value, compacting the level changes no lookup.
\<close>

theorem compaction_transparent:
  assumes "store_ok d m lss" "level < length (levels m)" "lss ! level \<noteq> []"
    and "weight (concat (lss ! level)) + 20 < 2 ^ 64" "unat (next_id m) + 1 < 2 ^ 64"
    and "distinct (map fst (concat (lss ! level)))"
    and "level + 1 \<ge> num_levels m - 1 \<Longrightarrow> \<forall>k. map_of (concat (lss ! level)) k = Some [] \<longrightarrow>
      store_view (drop (Suc level) lss) k = None"
  shows "\<exists>m' d'. compact_level (m, d) level = Some ((m', d'), Inr ()) \<and>
    (\<forall>k. map_sum id (\<lambda>x. Option.bind x hide_tombstone) (search_levels d' (manifest_levels m') k) =
         map_sum id (\<lambda>x. Option.bind x hide_tombstone) (search_levels d (manifest_levels m) k))"
proof -
  have search: "search_levels d (manifest_levels m) k = Inr (store_view lss k)" if "store_ok d m lss" for d m lss k
    using search_levels_correct [of d "levels m" lss 0 k] that by (simp add: store_ok_def manifest_levels_def)
  have len: "level < length lss" using assms(1,2) store_lengths(1) by metis
  obtain m' d' out where c: "compact_level (m, d) level = Some ((m', d'), Inr ())"
    "store_ok d' m' (compact_runs level out lss)"
    "map_of out = merged_value (level + 1 \<ge> num_levels m - 1) (lss ! level) None"
    using compact_store [OF assms(1-5)] by blast
  have "store_get (compact_runs level out lss) k = store_get lss k" for k
    by (rule compaction_invisible [OF len assms(6) c(3)]) (use assms(7) in blast)
  then show ?thesis using c(1) search [OF c(2)] search [OF assms(1)] by (simp add: store_get_def)
qed

theorem compaction_transparent_witness:
  "\<exists>m' d'. compact_level (\<lparr>levels = [[single_meta 0 0 [1], single_meta 0 1 [2]], [], [], []], next_id = 2\<rparr>,
       single_disk [(0, 0, [1], [5]), (0, 1, [2], [6])]) 0 = Some ((m', d'), Inr ()) \<and>
     map_sum id (\<lambda>x. Option.bind x hide_tombstone) (search_levels d' (manifest_levels m') [2]) = Inr (Some [6])"
proof -
  let ?m = "\<lparr>levels = [[single_meta 0 0 [1], single_meta 0 1 [2]], [], [], []], next_id = 2\<rparr>"
  let ?d = "single_disk [(0, 0, [1], [5]), (0, 1, [2], [6])]"
  let ?l = "[[[([1], [5])], [([2], [6])]], [], [], []] :: run list list"
  have ok: "store_ok ?d ?m ?l"
    by (auto simp: store_ok_def tables_named_def less_Suc_eq single_disk_def sst_name_inject
        intro!: single_table_ok)
  then have "search_levels ?d (manifest_levels ?m) [2] = Inr (Some [6])"
    using search_levels_correct [of ?d "levels ?m" ?l 0 "[2]"]
    by (simp add: store_ok_def manifest_levels_def store_view_def)
  with compaction_transparent [OF ok, of 0] show ?thesis
    by (fastforce simp: weight_def entry_weight_def num_levels_def hide_tombstone_def)
qed


text \<open>
  When two tables of a level hold the same key, compacting the level makes lookups return the
  value of the older table: the newer value, which lookups returned before, is lost.
\<close>

lemma compaction_keeps_oldest:
  assumes "store_ok d m lss" "level < length (levels m)" "lss ! level = older # newer"
    and "weight (concat (lss ! level)) + 20 < 2 ^ 64" "unat (next_id m) + 1 < 2 ^ 64"
    and "map_of older k = Some old" "old \<noteq> []" "map_of (last newer) k = Some new" "newer \<noteq> []"
    and "store_view (take level lss) k = None"
  shows "search_levels d (manifest_levels m) k = Inr (Some new) \<and>
    (\<exists>m' d'. compact_level (m, d) level = Some ((m', d'), Inr ()) \<and>
      search_levels d' (manifest_levels m') k = Inr (Some old))"
proof -
  have search: "search_levels d (manifest_levels m) k = Inr (store_view lss k)" if "store_ok d m lss" for d m lss k
    using search_levels_correct [of d "levels m" lss 0 k] that by (simp add: store_ok_def manifest_levels_def)
  have len: "level < length lss" using assms(1,2) store_lengths(1) by metis
  obtain m' d' out where c: "compact_level (m, d) level = Some ((m', d'), Inr ())"
    "store_ok d' m' (compact_runs level out lss)"
    "map_of out = merged_value (level + 1 \<ge> num_levels m - 1) (lss ! level) None"
    using compact_store [OF assms(1,2) _ assms(4,5)] assms(3) by auto
  have "newer = butlast newer @ [last newer]" using assms(9) by simp
  then have "concat (rev newer) = last newer @ concat (rev (butlast newer))"
    by (metis concat.simps(2) rev.simps(2) rev_append rev_rev_ident rev_swap append_Cons append_Nil)
  then have "store_view lss k = Some new"
    using assms(3,8,10) by (simp add: store_view_split [OF len] map_add_def)
  moreover have "store_view (compact_runs level out lss) k = Some old"
    using assms(3,6,7,10) c(3) by (simp add: store_view_compact [OF len] map_add_def merged_value_def)
  ultimately show ?thesis using c(1) search [OF c(2)] search [OF assms(1)] by simp
qed

text \<open>
  C27: Tombstones are dropped already when the last but one level is merged into the last one,
  although that level has older tables: a deleted key comes back with its old value.
\<close>

theorem compaction_resurrects:
  assumes "store_ok d m lss" "length lss = num_lsm_levels" "lss ! 2 \<noteq> []"
    and "weight (concat (lss ! 2)) + 20 < 2 ^ 64" "unat (next_id m) + 1 < 2 ^ 64"
    and "map_of (concat (lss ! 2)) k = Some []" "map_of (concat (rev (lss ! 2))) k = Some []"
    and "store_view (take 2 lss) k = None" "store_view (drop 3 lss) k = Some v"
  shows "search_levels d (manifest_levels m) k = Inr (Some []) \<and>
    (\<exists>m' d'. compact_level (m, d) 2 = Some ((m', d'), Inr ()) \<and>
      search_levels d' (manifest_levels m') k = Inr (Some v))"
proof -
  have search: "search_levels d (manifest_levels m) k = Inr (store_view lss k)" if "store_ok d m lss" for d m lss k
    using search_levels_correct [of d "levels m" lss 0 k] that by (simp add: store_ok_def manifest_levels_def)
  have len: "length (levels m) = length lss" by (rule store_lengths(1) [OF assms(1)])
  then have lens: "2 < length lss" "2 < length (levels m)" "2 + 1 \<ge> num_levels m - 1"
    using assms(2) by (simp_all add: num_lsm_levels_def num_levels_def)
  obtain m' d' out where c: "compact_level (m, d) 2 = Some ((m', d'), Inr ())"
    "store_ok d' m' (compact_runs 2 out lss)"
    "map_of out = merged_value (2 + 1 \<ge> num_levels m - 1) (lss ! 2) None"
    using compact_store [OF assms(1) lens(2) assms(3-5)] by blast
  have "map_of out k = None" using c(3) lens(3) assms(6) by (simp add: merged_value_def)
  then have "store_view (compact_runs 2 out lss) k = Some v"
    using assms(8,9) by (simp add: store_view_compact [OF lens(1)] map_add_def)
  moreover have "store_view lss k = Some []"
    using assms(7,8) by (simp add: store_view_split [OF lens(1)] map_add_def)
  ultimately show ?thesis using c(1) search [OF c(2)] search [OF assms(1)] by simp
qed

theorem compaction_resurrects_witness:
  "\<exists>m' d'. compact_level (\<lparr>levels = [[], [], [single_meta 2 1 [1]], [single_meta 3 0 [1]]], next_id = 2\<rparr>,
       single_disk [(2, 1, [1], []), (3, 0, [1], [5])]) 2 = Some ((m', d'), Inr ()) \<and>
     search_levels d' (manifest_levels m') [1] = Inr (Some [5])"
proof -
  let ?m = "\<lparr>levels = [[], [], [single_meta 2 1 [1]], [single_meta 3 0 [1]]], next_id = 2\<rparr>"
  let ?d = "single_disk [(2, 1, [1], []), (3, 0, [1], [5])]"
  let ?l = "[[], [], [[([1], [])]], [[([1], [5])]]] :: run list list"
  have ok: "store_ok ?d ?m ?l"
    by (auto simp: store_ok_def tables_named_def less_Suc_eq single_disk_def sst_name_inject
        intro!: single_table_ok)
  then show ?thesis
    using compaction_resurrects [OF ok, of "[1]" "[5]"]
    by (simp add: weight_def entry_weight_def num_lsm_levels_def store_view_def)
qed


section \<open>Memtables\<close>

text \<open>A red-black tree meets the laws assumed of the skip list.\<close>

definition rbt_skip_ops :: "(bytes, bytes) RBT.rbt skip_ops" where
  "rbt_skip_ops = \<lparr>sk_insert = (\<lambda>s k v. RBT.insert k v s), sk_get = RBT.lookup,
     sk_remove = (\<lambda>s k. RBT.delete k s), sk_len = (\<lambda>s. length (RBT.entries s)), sk_iter = RBT.entries\<rparr>"

lemma rbt_skip_laws: "skip_laws rbt_skip_ops"
  using RBT.sorted_entries RBT.distinct_entries
  by (auto simp: skip_laws_def rbt_skip_ops_def strict_sorted_iff)

text \<open>
  C28: The three memtables agree: after any sequence of insertions and deletions a key reads in
  each of them as the value of its last insertion, as the empty value when it was deleted last,
  and as absent when it does not occur; their lengths and the entries they drain, in order and
  with the deleted keys, are the same.
\<close>

theorem memtable_equiv:
  assumes "skip_laws sk" "sk_iter sk s0 = []" "length rs \<le> max_pairs"
  shows "\<exists>t b s. fold_returns (replay_record_into learned_ops) rs lmt_new = Some t \<and>
    fold_returns (replay_record_into btree_ops) rs bt_new = Some b \<and>
    fold_returns (replay_record_into (skiplist_ops sk)) rs (sl_new s0) = Some s \<and>
    lmt_get t = map_of (rev (map record_pair rs)) \<and> bt_get b = lmt_get t \<and> sl_get sk s = lmt_get t \<and>
    bt_len b = lmt_len t \<and> sl_len sk s = lmt_len t \<and>
    fst (bt_drain_sorted b) = fst (lmt_drain_sorted t) \<and> fst (sl_drain_sorted sk s) = fst (lmt_drain_sorted t)"
proof -
  let ?M = "map_of (rev (map record_pair rs))"
  obtain t where t: "fold_returns (replay_record_into learned_ops) rs lmt_new = Some t" "lmt_ok t" "lmt_content t = ?M"
    using learned.replay_correct [OF lmt_new_ok(1), of rs] assms(3) by (auto simp: lmt_new_ok)
  obtain b where b: "fold_returns (replay_record_into btree_ops) rs bt_new = Some b" "sorted_keys (bt_map b)"
    "map_of (bt_map b) = ?M"
    using btree.replay_correct [of bt_new rs] assms(3) by (auto simp: bt_new_def)
  obtain s where s: "fold_returns (replay_record_into (skiplist_ops sk)) rs (sl_new s0) = Some s"
    "map_of (sk_iter sk (sl_map s)) = ?M"
    using skiplist.replay_correct [OF assms(1), of "sl_new s0" rs] assms(2,3) by (auto simp: sl_new_def)
  have get: "lmt_get t = ?M" "bt_get b = ?M" "sl_get sk s = ?M"
    using learned.get_law [OF t(2)] btree.get_law [OF b(2)] skiplist.get_law [OF assms(1), of s] t(3) b(3) s(2)
    by (auto simp: learned_ops_def btree_ops_def skiplist_ops_def)
  have len: "lmt_len t = card (dom ?M)" "bt_len b = card (dom ?M)" "sl_len sk s = card (dom ?M)"
    using learned.len_law [OF t(2)] btree.len_law [OF b(2)] skiplist.len_law [OF assms(1), of s] t(3) b(3) s(2)
    by (auto simp: learned_ops_def btree_ops_def skiplist_ops_def)
  have "sorted_keys (fst (lmt_drain_sorted t)) \<and> map_of (fst (lmt_drain_sorted t)) = ?M"
    "sorted_keys (fst (bt_drain_sorted b)) \<and> map_of (fst (bt_drain_sorted b)) = ?M"
    "sorted_keys (fst (sl_drain_sorted sk s)) \<and> map_of (fst (sl_drain_sorted sk s)) = ?M"
    using learned.drain_law [OF t(2)] btree.drain_law [OF b(2)] skiplist.drain_law [OF assms(1), of s] t(3) b(3) s(2)
    by (auto simp: learned_ops_def btree_ops_def skiplist_ops_def)
  then have "fst (bt_drain_sorted b) = fst (lmt_drain_sorted t)" "fst (sl_drain_sorted sk s) = fst (lmt_drain_sorted t)"
    by (auto intro: sorted_keys_unique)
  then show ?thesis using t(1) b(1) s(1) get len by auto
qed

theorem memtable_equiv_witness:
  "\<exists>t b. fold_returns (replay_record_into learned_ops) [WalPut [2] [1], WalPut [1] [7], WalDelete [1], WalPut [2] [9]] lmt_new = Some t \<and>
     fold_returns (replay_record_into btree_ops) [WalPut [2] [1], WalPut [1] [7], WalDelete [1], WalPut [2] [9]] bt_new = Some b \<and>
     lmt_get t [2] = Some [9] \<and> lmt_get t [1] = Some [] \<and> bt_get b [1] = Some [] \<and>
     fst (bt_drain_sorted b) = fst (lmt_drain_sorted t)"
proof -
  have "sk_iter rbt_skip_ops RBT.empty = []" by (simp add: rbt_skip_ops_def RBT.entries_def RBT.empty.rep_eq)
  from memtable_equiv [OF rbt_skip_laws this, of "[WalPut [2] [1], WalPut [1] [7], WalDelete [1], WalPut [2] [9]]"]
  obtain t b where
    "fold_returns (replay_record_into learned_ops) [WalPut [2] [1], WalPut [1] [7], WalDelete [1], WalPut [2] [9]] lmt_new = Some t"
    "fold_returns (replay_record_into btree_ops) [WalPut [2] [1], WalPut [1] [7], WalDelete [1], WalPut [2] [9]] bt_new = Some b"
    "lmt_get t = map_of (rev (map record_pair [WalPut [2] [1], WalPut [1] [7], WalDelete [1], WalPut [2] [9]]))"
    "bt_get b = lmt_get t" "fst (bt_drain_sorted b) = fst (lmt_drain_sorted t)"
    by (auto simp: max_pairs_def simp del: fold_returns.simps replay_record_into.simps map_of.simps)
  then show ?thesis by (intro exI [of _ t] exI [of _ b]) (simp del: fold_returns.simps replay_record_into.simps)
qed


text \<open>
  Overwriting a key of the learned memtable replaces its value but adds nothing to the byte count
  that triggers a flush, whereas the tree memtable adds the new size every time.
\<close>

lemma memtable_bytes:
  assumes "lmt_ok t" "lmt_get t k = Some old" "lmt_len t < max_pairs"
  shows "\<exists>t' b'. lmt_insert t k v = Some t' \<and> lmt_get t' k = Some v \<and> lmt_byte_count t' = lmt_byte_count t \<and>
    bt_insert b k v = Some b' \<and> bt_byte_count b' = bt_byte_count b + of_nat (length k + length v)"
proof -
  have ok: "map_ok vec_u8_key (lmt_map t)" using assms(1) by (simp add: lmt_ok_def)
  have k: "lmt_content t k = Some old"
    using learned.get_law [OF assms(1), of k] assms(2) by (simp add: learned_ops_def)
  obtain t' where t': "lmt_insert t k v = Some t'" "lmt_ok t'" "lmt_content t' = (lmt_content t)(k \<mapsto> v)"
    "lmt_byte_count t' = lmt_byte_count t"
    using lmt_insert_correct [OF assms(1), of k v] learned.len_law [OF assms(1)] assms(3) k
    by (auto simp: learned_ops_def)
  then have "lmt_get t' k = Some v" using learned.get_law [OF t'(2), of k] by (simp add: learned_ops_def)
  then show ?thesis using t' by (simp add: bt_insert_def Let_def)
qed

end
