(* ===== verification/Slot_Protocol.thy ===== *)
theory Slot_Protocol
  imports Node
begin

text \<open>
  The concurrent writes of \<^verbatim>\<open>src/node.rs\<close> and the freeze of \<^verbatim>\<open>src/rebuild.rs\<close>, one atomic access at
  a time. A function is the list of its accesses; a compare-and-exchange that fails ends it, as in
  the code. Any number of threads run these functions on the slots of one node, interleaved in
  every order (sequentially consistent: the orderings of the accesses are Acquire and Release on
  the very locations that publish the data). Inline keys and values may be uninitialised; a child
  pointer is an address with its tag, or null. An address stands for one allocation, and every
  allocation has a new address: epochs keep an address from being reused while a thread may still
  compare with it.
\<close>

record ('k, 'v) cell =
  cell_state :: u8
  cell_key :: "'k option"
  cell_value :: "'v option"
  cell_child :: "(nat \<times> bool) option"

datatype ('k, 'v) instr =
    CasState nat u8 u8
  | WriteKey nat 'k
  | WriteValue nat 'v
  | StoreChild nat nat
  | StoreState nat u8
  | CasChild nat "nat \<times> bool" "nat \<times> bool"

type_synonym ('k, 'v) cells = "nat \<Rightarrow> ('k, 'v) cell"

subsection \<open>The functions\<close>

definition cas_empty_to_data_steps :: "nat \<Rightarrow> 'k \<Rightarrow> 'v \<Rightarrow> ('k, 'v) instr list" where
  "cas_empty_to_data_steps idx key val =
     [CasState idx slot_EMPTY slot_WRITING, WriteKey idx key, WriteValue idx val, StoreState idx slot_DATA]"

definition cas_tombstone_to_child_stale_steps :: "nat \<Rightarrow> nat \<Rightarrow> ('k, 'v) instr list" where
  "cas_tombstone_to_child_stale_steps idx child =
     [CasState idx slot_TOMBSTONE slot_WRITING, StoreChild idx child, StoreState idx slot_CHILD_STALE]"

definition cas_data_to_child_stale_steps :: "nat \<Rightarrow> nat \<Rightarrow> ('k, 'v) instr list" where
  "cas_data_to_child_stale_steps idx child =
     [CasState idx slot_DATA slot_WRITING, StoreChild idx child, StoreState idx slot_CHILD_STALE]"

definition cas_data_to_tombstone_steps :: "nat \<Rightarrow> ('k, 'v) instr list" where
  "cas_data_to_tombstone_steps idx = [CasState idx slot_DATA slot_TOMBSTONE]"

text \<open>
  A rebuild of the subtree at address \<open>current\<close>: freeze, then either the swap for the new subtree
  or, when there is nothing to rebuild, the removal of the tag by the drop of the guard.
\<close>

definition rebuild_steps :: "nat \<Rightarrow> nat \<Rightarrow> nat \<Rightarrow> ('k, 'v) instr list" where
  "rebuild_steps idx current new_child =
     [CasChild idx (current, False) (current, True), CasChild idx (current, True) (new_child, False)]"

definition abandoned_rebuild_steps :: "nat \<Rightarrow> nat \<Rightarrow> ('k, 'v) instr list" where
  "abandoned_rebuild_steps idx current =
     [CasChild idx (current, False) (current, True), CasChild idx (current, True) (current, False)]"

subsection \<open>Interleaving\<close>

fun exec :: "('k, 'v) instr \<Rightarrow> ('k, 'v) cells \<Rightarrow> ('k, 'v) cells \<times> bool" where
  "exec (CasState i old new) cs =
     (if cell_state (cs i) = old then (cs(i := (cs i)\<lparr>cell_state := new\<rparr>), True) else (cs, False))"
| "exec (WriteKey i k) cs = (cs(i := (cs i)\<lparr>cell_key := Some k\<rparr>), True)"
| "exec (WriteValue i v) cs = (cs(i := (cs i)\<lparr>cell_value := Some v\<rparr>), True)"
| "exec (StoreChild i a) cs = (cs(i := (cs i)\<lparr>cell_child := Some (a, False)\<rparr>), True)"
| "exec (StoreState i s) cs = (cs(i := (cs i)\<lparr>cell_state := s\<rparr>), True)"
| "exec (CasChild i old new) cs =
     (if cell_child (cs i) = Some old then (cs(i := (cs i)\<lparr>cell_child := Some new\<rparr>), True) else (cs, False))"

record ('k, 'v) slots_state =
  mem :: "('k, 'v) cells"
  used :: "nat set"
  threads :: "nat \<Rightarrow> ('k, 'v) instr list"

text \<open>
  What a thread may start, and the addresses it allocates for that. A rebuild starts with the
  pointer it has loaded from a child slot.
\<close>

inductive may_start :: "('k, 'v) cells \<Rightarrow> ('k, 'v) instr list \<Rightarrow> nat set \<Rightarrow> bool" where
  "may_start cs (cas_empty_to_data_steps i k v) {}"
| "may_start cs (cas_tombstone_to_child_stale_steps i a) {a}"
| "may_start cs (cas_data_to_child_stale_steps i a) {a}"
| "may_start cs (cas_data_to_tombstone_steps i) {}"
| "is_child (cell_state (cs i)) \<Longrightarrow> cell_child (cs i) = Some (a, False) \<Longrightarrow>
     may_start cs (rebuild_steps i a b) {b}"
| "is_child (cell_state (cs i)) \<Longrightarrow> cell_child (cs i) = Some (a, False) \<Longrightarrow>
     may_start cs (abandoned_rebuild_steps i a) {}"

inductive slot_step :: "('k, 'v) slots_state \<Rightarrow> ('k, 'v) slots_state \<Rightarrow> bool" where
  start: "threads s t = [] \<Longrightarrow> may_start (mem s) p new \<Longrightarrow> new \<inter> used s = {} \<Longrightarrow>
     slot_step s (s\<lparr>used := used s \<union> new, threads := (threads s)(t := p)\<rparr>)"
| run: "threads s t = a # p \<Longrightarrow> exec a (mem s) = (cs, ok) \<Longrightarrow>
     slot_step s (s\<lparr>mem := cs, threads := (threads s)(t := if ok then p else [])\<rparr>)"

text \<open>A quiet node: no thread is running, and every slot is what single-threaded code leaves.\<close>

definition cell_ok :: "('k, 'v) cell \<Rightarrow> bool" where
  "cell_ok c \<longleftrightarrow>
     cell_state c \<in> {slot_EMPTY, slot_WRITING, slot_DATA, slot_CHILD, slot_CHILD_STALE, slot_TOMBSTONE} \<and>
     (cell_state c \<in> {slot_DATA, slot_TOMBSTONE, slot_CHILD_STALE} \<longrightarrow> cell_key c \<noteq> None \<and> cell_value c \<noteq> None) \<and>
     (is_child (cell_state c) \<longrightarrow> cell_child c \<noteq> None) \<and>
     (cell_state c \<in> {slot_EMPTY, slot_CHILD} \<longrightarrow> cell_key c = None \<and> cell_value c = None) \<and>
     (cell_state c \<in> {slot_EMPTY, slot_DATA, slot_TOMBSTONE} \<longrightarrow> cell_child c = None)"

definition quiet :: "('k, 'v) slots_state \<Rightarrow> bool" where
  "quiet s \<longleftrightarrow>
     (\<forall>t. threads s t = []) \<and>
     (\<forall>i. cell_ok (mem s i) \<and> cell_state (mem s i) \<noteq> slot_WRITING \<and>
        (\<forall>a tag. cell_child (mem s i) = Some (a, tag) \<longrightarrow> \<not> tag \<and> a \<in> used s))"

inductive slot_reachable :: "('k, 'v) slots_state \<Rightarrow> bool" where
  init: "quiet s \<Longrightarrow> slot_reachable s"
| step: "slot_reachable s \<Longrightarrow> slot_step s s' \<Longrightarrow> slot_reachable s'"

subsection \<open>What a thread that has claimed a slot still has to do\<close>

text \<open>
  The slot a thread owns because it moved its state to \<open>WRITING\<close>, or the one whose pointer it has
  tagged; \<open>None\<close> before the first access and after the last.
\<close>

fun writes :: "('k, 'v) instr list \<Rightarrow> nat option" where
  "writes [WriteKey i k, WriteValue j v, StoreState l s] = Some i"
| "writes [WriteValue i v, StoreState l s] = Some i"
| "writes [StoreState i s] = Some i"
| "writes [StoreChild i a, StoreState l s] = Some i"
| "writes _ = None"

fun freezes :: "('k, 'v) instr list \<Rightarrow> nat option" where
  "freezes [CasChild i old new] = Some i"
| "freezes _ = None"

text \<open>What holds of the memory while a thread is at a point of one of the functions.\<close>

inductive at_point :: "('k, 'v) cells \<Rightarrow> ('k, 'v) instr list \<Rightarrow> bool" where
  "at_point cs []"
| "at_point cs (cas_empty_to_data_steps i k v)"
| "at_point cs (cas_tombstone_to_child_stale_steps i a)"
| "at_point cs (cas_data_to_child_stale_steps i a)"
| "at_point cs (cas_data_to_tombstone_steps i)"
| "is_child (cell_state (cs i)) \<Longrightarrow> at_point cs (rebuild_steps i a b)"
| "cell_child (cs i) = None \<Longrightarrow> at_point cs [WriteKey i k, WriteValue i v, StoreState i slot_DATA]"
| "cell_child (cs i) = None \<Longrightarrow> cell_key (cs i) \<noteq> None \<Longrightarrow>
     at_point cs [WriteValue i v, StoreState i slot_DATA]"
| "cell_child (cs i) = None \<Longrightarrow> cell_key (cs i) \<noteq> None \<Longrightarrow> cell_value (cs i) \<noteq> None \<Longrightarrow>
     at_point cs [StoreState i slot_DATA]"
| "cell_key (cs i) \<noteq> None \<Longrightarrow> cell_value (cs i) \<noteq> None \<Longrightarrow>
     at_point cs [StoreChild i a, StoreState i slot_CHILD_STALE]"
| "cell_key (cs i) \<noteq> None \<Longrightarrow> cell_value (cs i) \<noteq> None \<Longrightarrow> cell_child (cs i) \<noteq> None \<Longrightarrow>
     at_point cs [StoreState i slot_CHILD_STALE]"
| "is_child (cell_state (cs i)) \<Longrightarrow> cell_child (cs i) = Some (a, True) \<Longrightarrow>
     at_point cs [CasChild i (a, True) (b, False)]"

definition slot_inv :: "('k, 'v) slots_state \<Rightarrow> bool" where
  "slot_inv s \<longleftrightarrow>
     (\<forall>i. cell_ok (mem s i)) \<and>
     (\<forall>t. at_point (mem s) (threads s t)) \<and>
     (\<forall>i. cell_state (mem s i) = slot_WRITING \<longleftrightarrow> (\<exists>t. writes (threads s t) = Some i)) \<and>
     (\<forall>t t' i. writes (threads s t) = Some i \<longrightarrow> writes (threads s t') = Some i \<longrightarrow> t = t') \<and>
     (\<forall>i. (\<exists>a. cell_child (mem s i) = Some (a, True)) \<longleftrightarrow> (\<exists>t. freezes (threads s t) = Some i)) \<and>
     (\<forall>t t' i. freezes (threads s t) = Some i \<longrightarrow> freezes (threads s t') = Some i \<longrightarrow> t = t')"


lemma step_states [simp]:
  "slot_EMPTY \<noteq> slot_WRITING" "slot_DATA \<noteq> slot_WRITING" "slot_TOMBSTONE \<noteq> slot_WRITING"
  "slot_CHILD_STALE \<noteq> slot_WRITING" "slot_CHILD \<noteq> slot_WRITING" "slot_EMPTY \<noteq> slot_DATA"
  "slot_EMPTY \<noteq> slot_TOMBSTONE" "slot_EMPTY \<noteq> slot_CHILD_STALE" "slot_DATA \<noteq> slot_TOMBSTONE"
  "slot_DATA \<noteq> slot_CHILD_STALE" "slot_TOMBSTONE \<noteq> slot_CHILD_STALE" "slot_CHILD \<noteq> slot_EMPTY"
  "slot_CHILD \<noteq> slot_DATA" "slot_CHILD \<noteq> slot_TOMBSTONE" "slot_CHILD \<noteq> slot_CHILD_STALE"
  by (simp_all add: slot_EMPTY_def slot_DATA_def slot_CHILD_def slot_WRITING_def slot_CHILD_STALE_def
      slot_TOMBSTONE_def)

declare step_states [THEN not_sym, simp]

lemma step_child_states [simp]:
  "is_child slot_CHILD" "is_child slot_CHILD_STALE" "\<not> is_child slot_EMPTY" "\<not> is_child slot_DATA"
  "\<not> is_child slot_TOMBSTONE" "\<not> is_child slot_WRITING"
  by (simp_all add: is_child_def slot_EMPTY_def slot_DATA_def slot_CHILD_def slot_WRITING_def
      slot_CHILD_STALE_def slot_TOMBSTONE_def)

lemmas step_lists = cas_empty_to_data_steps_def cas_tombstone_to_child_stale_steps_def
  cas_data_to_child_stale_steps_def cas_data_to_tombstone_steps_def rebuild_steps_def
  abandoned_rebuild_steps_def

lemma may_start_point: "may_start cs p new \<Longrightarrow> at_point cs p"
proof (induction rule: may_start.induct)
  case (6 cs i a)
  then show "at_point cs (abandoned_rebuild_steps i a)"
    using at_point.intros(6) [of cs i a a] by (simp add: rebuild_steps_def abandoned_rebuild_steps_def)
qed (auto intro: at_point.intros)

lemma may_start_owns: "may_start cs p new \<Longrightarrow> writes p = None \<and> freezes p = None"
  by (induction rule: may_start.induct) (simp_all add: step_lists)

text \<open>A step of another thread does not disturb a point.\<close>

lemma at_point_frame:
  assumes "at_point cs p"
    and "\<And>i. is_child (cell_state (cs i)) \<Longrightarrow> is_child (cell_state (cs' i))"
    and "\<And>i. writes p = Some i \<Longrightarrow> cs' i = cs i"
    and "\<And>i. freezes p = Some i \<Longrightarrow> cell_child (cs' i) = cell_child (cs i)"
  shows "at_point cs' p"
  using assms by (induction rule: at_point.induct) (auto intro: at_point.intros)

subsection \<open>The invariant\<close>

lemma slot_invD:
  assumes "slot_inv s"
  shows "cell_ok (mem s i)" "at_point (mem s) (threads s t)"
    "cell_state (mem s i) = slot_WRITING \<longleftrightarrow> (\<exists>t. writes (threads s t) = Some i)"
    "writes (threads s t) = Some i \<Longrightarrow> writes (threads s t') = Some i \<Longrightarrow> t = t'"
    "(\<exists>a. cell_child (mem s i) = Some (a, True)) \<longleftrightarrow> (\<exists>t. freezes (threads s t) = Some i)"
    "freezes (threads s t) = Some i \<Longrightarrow> freezes (threads s t') = Some i \<Longrightarrow> t = t'"
  using assms unfolding slot_inv_def by metis+

text \<open>A thread moves on and changes the cell of one slot, which no other thread owns.\<close>

lemma slot_inv_update:
  assumes inv: "slot_inv s" and q: "threads s t = q" and c: "mem s i = c"
    and new: "cell_ok c'" "at_point ((mem s)(i := c')) q'"
    and keep: "is_child (cell_state c) \<Longrightarrow> is_child (cell_state c')"
    and w: "writes q = None \<or> writes q = Some i" "writes q = Some i \<or> cell_state c \<noteq> slot_WRITING"
      "writes q' = (if cell_state c' = slot_WRITING then Some i else None)"
    and f: "freezes q = None \<or> freezes q = Some i" "freezes q = Some i \<or> (\<forall>a. cell_child c \<noteq> Some (a, True))"
      "freezes q' = (if \<exists>a. cell_child c' = Some (a, True) then Some i else None)"
  shows "slot_inv (s\<lparr>mem := (mem s)(i := c'), threads := (threads s)(t := q')\<rparr>)"
proof -
  note I = slot_invD [OF inv]
  have others: "writes (threads s t') \<noteq> Some i" "freezes (threads s t') \<noteq> Some i" if "t' \<noteq> t" for t'
    using I(3) [of i] I(4) [of t i t'] I(5) [of i] I(6) [of t i t'] w(2) f(2) q c that by auto
  have point: "at_point ((mem s)(i := c')) (threads s t')" if "t' \<noteq> t" for t'
    using I(2) [of t'] others [OF that] keep c by (auto elim!: at_point_frame)
  have owner: "(\<exists>t'. g (((threads s)(t := q')) t') = Some j) \<longleftrightarrow>
      (if j = i then g q' = Some i else \<exists>t'. g (threads s t') = Some j)"
    if "g q = None \<or> g q = Some i" "g q' = None \<or> g q' = Some i" "\<And>t'. t' \<noteq> t \<Longrightarrow> g (threads s t') \<noteq> Some i"
    for g :: "('a, 'b) instr list \<Rightarrow> nat option" and j
  proof (cases "j = i")
    case False
    then have "g (((threads s)(t := q')) t') = Some j \<longleftrightarrow> g (threads s t') = Some j" for t'
      using that(1,2) q by auto
    then show ?thesis using False by simp
  qed (use that(3) in auto)
  show ?thesis
    unfolding slot_inv_def
  proof (intro conjI allI impI, goal_cases)
    case (1 j)
    show ?case using I(1) new(1) by simp
  next
    case (2 t')
    show ?case using point new(2) by simp
  next
    case (3 j)
    have "(\<exists>t'. writes (((threads s)(t := q')) t') = Some j) \<longleftrightarrow> cell_state (((mem s)(i := c')) j) = slot_WRITING"
      by (subst owner) (use I(3) [of j] others(1) w(1,3) c in auto)
    then show ?case by simp
  next
    case (4 t1 t2 j)
    then show ?case using I(4) [of t1 j t2] others w(1,3) q by (auto split: if_splits)
  next
    case (5 j)
    have "(\<exists>t'. freezes (((threads s)(t := q')) t') = Some j) \<longleftrightarrow> (\<exists>a. cell_child (((mem s)(i := c')) j) = Some (a, True))"
      by (subst owner) (use I(5) [of j] others(2) f(1,3) c in auto)
    then show ?case by simp
  next
    case (6 t1 t2 j)
    then show ?case using I(6) [of t1 j t2] others f(1,3) q by (auto split: if_splits)
  qed
qed

text \<open>A thread starts, or fails its first access.\<close>

lemma slot_inv_idle:
  assumes "slot_inv s" "writes (threads s t) = None" "freezes (threads s t) = None"
    and "at_point (mem s) q'" "writes q' = None" "freezes q' = None"
  shows "slot_inv (s\<lparr>used := u, threads := (threads s)(t := q')\<rparr>)"
proof -
  note I = slot_invD [OF assms(1)]
  have same: "g (((threads s)(t := q')) t') = g (threads s t')"
    if "g q' = None" "g (threads s t) = None" for g :: "('a, 'b) instr list \<Rightarrow> nat option" and t'
    using that by simp
  have "at_point (mem s) (((threads s)(t := q')) t')" for t' using I(2) assms(4) by simp
  then show ?thesis
    unfolding slot_inv_def
    using I same [of writes, OF assms(5,2)] same [of freezes, OF assms(6,3)] by auto
qed

lemma freezes_child: "at_point cs p \<Longrightarrow> freezes p = Some i \<Longrightarrow> is_child (cell_state (cs i))"
  by (induction rule: at_point.induct) (auto simp: step_lists)

text \<open>Every access keeps the invariant.\<close>

lemma slot_inv_run:
  assumes inv: "slot_inv s" and t: "threads s t = a # p" and e: "exec a (mem s) = (cs, ok)"
  shows "slot_inv (s\<lparr>mem := cs, threads := (threads s)(t := if ok then p else [])\<rparr>)"
proof -
  note I = slot_invD [OF inv]
  have untagged: "\<not> is_child (cell_state (mem s i)) \<Longrightarrow> cell_child (mem s i) \<noteq> Some (b, True)" for i b
    using I(5) [of i] freezes_child [OF I(2)] by blast
  have fail: "slot_inv (s\<lparr>mem := mem s, threads := (threads s)(t := [])\<rparr>)"
    if "writes (a # p) = None" "freezes (a # p) = None"
    using slot_inv_idle [OF inv, of t "[]" "used s"] that t by (simp add: at_point.intros(1))
  note upd = slot_inv_update [OF inv t refl]
  have writing: "cell_state (mem s i) = slot_WRITING" if "writes (a # p) = Some i" for i
    using I(3) [of i] that t by metis
  have child: "is_child (cell_state (mem s i)) \<Longrightarrow> cell_state (mem s i) \<noteq> slot_WRITING" for i by auto
  note facts = step_lists cell_ok_def at_point.intros
  have "at_point (mem s) (a # p)" using I(2) [of t] t by simp
  then show ?thesis
  proof (cases rule: at_point.cases)
    case (2 i k v)
    with e have "if ok then cs = (mem s)(i := (mem s i)\<lparr>cell_state := slot_WRITING\<rparr>) \<and> cell_state (mem s i) = slot_EMPTY
      else cs = mem s" by (auto simp: step_lists split: if_splits)
    then show ?thesis
      using 2 fail upd [of "(mem s i)\<lparr>cell_state := slot_WRITING\<rparr>" i p] I(1) [of i] untagged [of i]
      by (cases ok) (auto simp: facts)
  next
    case (3 i b)
    with e have "if ok then cs = (mem s)(i := (mem s i)\<lparr>cell_state := slot_WRITING\<rparr>) \<and> cell_state (mem s i) = slot_TOMBSTONE
      else cs = mem s" by (auto simp: step_lists split: if_splits)
    then show ?thesis
      using 3 fail upd [of "(mem s i)\<lparr>cell_state := slot_WRITING\<rparr>" i p] I(1) [of i] untagged [of i]
      by (cases ok) (auto simp: facts)
  next
    case (4 i b)
    with e have "if ok then cs = (mem s)(i := (mem s i)\<lparr>cell_state := slot_WRITING\<rparr>) \<and> cell_state (mem s i) = slot_DATA
      else cs = mem s" by (auto simp: step_lists split: if_splits)
    then show ?thesis
      using 4 fail upd [of "(mem s i)\<lparr>cell_state := slot_WRITING\<rparr>" i p] I(1) [of i] untagged [of i]
      by (cases ok) (auto simp: facts)
  next
    case (5 i)
    with e have "if ok then cs = (mem s)(i := (mem s i)\<lparr>cell_state := slot_TOMBSTONE\<rparr>) \<and> cell_state (mem s i) = slot_DATA
      else cs = mem s" by (auto simp: step_lists split: if_splits)
    then show ?thesis
      using 5 fail upd [of "(mem s i)\<lparr>cell_state := slot_TOMBSTONE\<rparr>" i p] I(1) [of i] untagged [of i]
      by (cases ok) (auto simp: facts)
  next
    case (6 i b b')
    with e have "if ok then cs = (mem s)(i := (mem s i)\<lparr>cell_child := Some (b, True)\<rparr>) \<and> cell_child (mem s i) = Some (b, False)
      else cs = mem s" by (auto simp: step_lists split: if_splits)
    then show ?thesis
      using 6 fail upd [of "(mem s i)\<lparr>cell_child := Some (b, True)\<rparr>" i p] I(1) [of i] child [of i]
      by (cases ok) (auto simp: facts)
  next
    case (7 i k v)
    then show ?thesis
      using e upd [of "(mem s i)\<lparr>cell_key := Some k\<rparr>" i p] I(1) [of i] untagged [of i] writing [of i]
      by (auto simp: facts)
  next
    case (8 i v)
    then show ?thesis
      using e upd [of "(mem s i)\<lparr>cell_value := Some v\<rparr>" i p] I(1) [of i] untagged [of i] writing [of i]
      by (auto simp: facts)
  next
    case (9 i)
    then show ?thesis
      using e upd [of "(mem s i)\<lparr>cell_state := slot_DATA\<rparr>" i p] I(1) [of i] untagged [of i] writing [of i]
      by (auto simp: facts)
  next
    case (10 i b)
    then show ?thesis
      using e upd [of "(mem s i)\<lparr>cell_child := Some (b, False)\<rparr>" i p] I(1) [of i] untagged [of i] writing [of i]
      by (auto simp: facts)
  next
    case (11 i)
    then show ?thesis
      using e upd [of "(mem s i)\<lparr>cell_state := slot_CHILD_STALE\<rparr>" i p] I(1) [of i] untagged [of i] writing [of i]
      by (auto simp: facts)
  next
    case (12 i b b')
    then show ?thesis
      using e upd [of "(mem s i)\<lparr>cell_child := Some (b', False)\<rparr>" i p] I(1) [of i] child [of i]
      by (auto simp: facts)
  qed
qed

lemma slot_inv_quiet: "quiet s \<Longrightarrow> slot_inv s"
  by (auto simp: quiet_def slot_inv_def at_point.intros(1))

lemma slot_inv_step: "slot_step s s' \<Longrightarrow> slot_inv s \<Longrightarrow> slot_inv s'"
proof (induction rule: slot_step.induct)
  case (start s t p new)
  then show ?case
    using slot_inv_idle [of s t p "used s \<union> new"] may_start_point [OF start(2)] may_start_owns [OF start(2)] by simp
next
  case (run s t a p cs ok)
  show ?case by (rule slot_inv_run [OF run(3,1,2)])
qed

lemma slot_inv_reachable: "slot_reachable s \<Longrightarrow> slot_inv s"
  by (induction rule: slot_reachable.induct) (auto intro: slot_inv_quiet slot_inv_step)

lemma slot_inv_steps: "slot_step\<^sup>*\<^sup>* s s' \<Longrightarrow> slot_inv s \<Longrightarrow> slot_inv s'"
  by (induction rule: rtranclp_induct) (auto intro: slot_inv_step)

subsection \<open>Inline data is written once\<close>

definition inline_writer :: "nat \<Rightarrow> ('k, 'v) instr list \<Rightarrow> bool" where
  "inline_writer i p \<longleftrightarrow> (case p of WriteKey j _ # _ \<Rightarrow> j = i | WriteValue j _ # _ \<Rightarrow> j = i | _ \<Rightarrow> False)"

definition settled :: "nat \<Rightarrow> 'k option \<Rightarrow> 'v option \<Rightarrow> ('k, 'v) slots_state \<Rightarrow> bool" where
  "settled i k v s \<longleftrightarrow>
     cell_key (mem s i) = k \<and> cell_value (mem s i) = v \<and> cell_state (mem s i) \<noteq> slot_EMPTY \<and>
     (\<forall>t. \<not> inline_writer i (threads s t))"

lemma inline_writer_writes: "at_point cs p \<Longrightarrow> inline_writer i p \<Longrightarrow> writes p = Some i"
  by (induction rule: at_point.induct) (auto simp: step_lists inline_writer_def)

lemma settled_data:
  assumes "slot_inv s" "cell_state (mem s i) \<notin> {slot_EMPTY, slot_WRITING}"
  shows "settled i (cell_key (mem s i)) (cell_value (mem s i)) s"
  using slot_invD(3) [OF assms(1), of i] inline_writer_writes [OF slot_invD(2) [OF assms(1)]] assms(2)
  by (auto simp: settled_def)

lemma settled_step:
  assumes "slot_step s s'" "slot_inv s" "settled i k v s"
  shows "settled i k v s'"
  using assms(1)
proof (cases rule: slot_step.cases)
  case (start t p new)
  have "\<not> inline_writer i p" using start(3) by (cases rule: may_start.cases) (simp_all add: step_lists inline_writer_def)
  then show ?thesis using start assms(3) by (auto simp: settled_def)
next
  case (run t a p cs ok)
  have "at_point (mem s) (a # p)" using slot_invD(2) [OF assms(2), of t] run(2) by simp
  moreover have "\<not> inline_writer i (a # p)" using assms(3) run(2) by (metis settled_def)
  ultimately have "\<not> inline_writer i (if ok then p else []) \<and> cell_key (cs i) = k \<and> cell_value (cs i) = v \<and>
      cell_state (cs i) \<noteq> slot_EMPTY"
    using run(3) assms(3)
    by (cases rule: at_point.cases) (auto simp: settled_def step_lists inline_writer_def split: if_splits)
  then show ?thesis using run(1) assms(3) by (auto simp: settled_def)
qed

lemma settled_steps: "slot_step\<^sup>*\<^sup>* s s' \<Longrightarrow> slot_inv s \<Longrightarrow> settled i k v s \<Longrightarrow> settled i k v s'"
  by (induction rule: rtranclp_induct) (auto intro: settled_step slot_inv_steps)

subsection \<open>Progress\<close>

text \<open>The owner of a slot alone brings it out of \<open>WRITING\<close>, and a rebuild takes the tag away.\<close>

lemma run_step:
  "threads s t = a # p \<Longrightarrow> exec a (mem s) = (cs, True) \<Longrightarrow>
     slot_step s (s\<lparr>mem := cs, threads := (threads s)(t := p)\<rparr>)"
  using slot_step.run [of s t a p cs True] by simp

lemma writer_enabled:
  assumes "slot_inv s" "writes (threads s t) = Some i"
  shows "\<exists>s'. slot_step s s' \<and> threads s' t = tl (threads s t)"
proof -
  obtain a p where p: "threads s t = a # p" using assms(2) by (cases "threads s t") auto
  have "at_point (mem s) (a # p)" using slot_invD(2) [OF assms(1), of t] p by simp
  then obtain cs where "exec a (mem s) = (cs, True)"
    using assms(2) p by (cases rule: at_point.cases) (auto simp: step_lists)
  from run_step [OF p this] show ?thesis by (intro exI conjI) (auto simp: p)
qed

lemma writer_steps:
  assumes "slot_inv s" "writes (threads s t) = Some i" "slot_step s s'"
  shows "threads s' t = threads s t \<or> threads s' t = tl (threads s t) \<and>
    (writes (threads s' t) = Some i \<or> cell_state (mem s' i) \<noteq> slot_WRITING)"
  using assms(3)
proof (cases rule: slot_step.cases)
  case (start t' p new)
  then show ?thesis using assms(2) by (cases "t' = t") auto
next
  case (run t' a p cs ok)
  show ?thesis
  proof (cases "t' = t")
    case True
    have "at_point (mem s) (a # p)" using slot_invD(2) [OF assms(1), of t] run(2) True by simp
    then have "ok \<and> (writes p = Some i \<or> cell_state (cs i) \<noteq> slot_WRITING)"
      using assms(2) run(2,3) True by (cases rule: at_point.cases) (auto simp: step_lists)
    then show ?thesis using run(1,2) True by simp
  qed (simp add: run(1))
qed

text \<open>
  The thread that has tagged a child pointer can take its next access, which is its last and
  removes the tag; no step of another thread touches the pointer.
\<close>

lemma freezer_point:
  assumes "slot_inv s" "freezes (threads s t) = Some i"
  obtains a b where "threads s t = [CasChild i (a, True) (b, False)]" "cell_child (mem s i) = Some (a, True)"
    "is_child (cell_state (mem s i))"
proof -
  have "at_point (mem s) (threads s t)" using assms(1) by (rule slot_invD(2))
  then show thesis using assms(2) that by (cases rule: at_point.cases) (auto simp: step_lists)
qed

lemma freezer_enabled:
  assumes "slot_inv s" "freezes (threads s t) = Some i"
  shows "\<exists>s'. slot_step s s' \<and> threads s' t = []"
proof -
  obtain a b where t: "threads s t = [CasChild i (a, True) (b, False)]" "cell_child (mem s i) = Some (a, True)"
    using assms by (rule freezer_point)
  then have "exec (CasChild i (a, True) (b, False)) (mem s) =
      ((mem s)(i := (mem s i)\<lparr>cell_child := Some (b, False)\<rparr>), True)" by simp
  from run_step [OF t(1) this] show ?thesis by (intro exI conjI) auto
qed

lemma freezer_steps:
  assumes "slot_inv s" "freezes (threads s t) = Some i" "slot_step s s'"
  shows "threads s' t = threads s t \<and> cell_child (mem s' i) = cell_child (mem s i) \<or>
    threads s' t = [] \<and> (\<exists>b. cell_child (mem s' i) = Some (b, False))"
  using assms(3)
proof (cases rule: slot_step.cases)
  case (start t' p new)
  then show ?thesis using assms(2) by (cases "t' = t") auto
next
  case (run t' x p cs ok)
  show ?thesis
  proof (cases "t' = t")
    case True
    obtain a b where "threads s t = [CasChild i (a, True) (b, False)]" "cell_child (mem s i) = Some (a, True)"
      using assms(1,2) by (rule freezer_point)
    then show ?thesis using run True by auto
  next
    case False
    obtain a where a: "cell_child (mem s i) = Some (a, True)" "is_child (cell_state (mem s i))"
      using assms(1,2) by (rule freezer_point)
    then have w: "writes (threads s t') \<noteq> Some i" using slot_invD(3) [OF assms(1), of i] by auto
    have f: "freezes (threads s t') \<noteq> Some i" using slot_invD(6) [OF assms(1), of t' i t] assms(2) False by blast
    have "at_point (mem s) (x # p)" using slot_invD(2) [OF assms(1), of t'] run(2) by simp
    then have "cell_child (cs i) = cell_child (mem s i)"
      using run(2,3) a w f by (cases rule: at_point.cases) (auto simp: step_lists split: if_splits)
    then show ?thesis using run(1) False by simp
  qed
qed

subsection \<open>Validation of a descent\<close>

text \<open>
  A replaced subtree does not come back. The pointer that an operation remembers of its first
  descent equals the current one only if the subtree has been linked all the time.
\<close>

definition installs :: "nat \<Rightarrow> nat \<Rightarrow> ('k, 'v) instr list \<Rightarrow> bool" where
  "installs i a p \<longleftrightarrow>
     StoreChild i a \<in> set p \<or> (\<exists>old tag. CasChild i old (a, tag) \<in> set p \<and> fst old \<noteq> a)"

definition linked :: "('k, 'v) slots_state \<Rightarrow> nat \<Rightarrow> nat \<Rightarrow> bool" where
  "linked s i a \<longleftrightarrow> (\<exists>tag. cell_child (mem s i) = Some (a, tag))"

definition fresh_inv :: "('k, 'v) slots_state \<Rightarrow> bool" where
  "fresh_inv s \<longleftrightarrow>
     (\<forall>i a. linked s i a \<longrightarrow> a \<in> used s) \<and>
     (\<forall>t i a. installs i a (threads s t) \<longrightarrow> a \<in> used s \<and> \<not> linked s i a) \<and>
     (\<forall>t t' i a. installs i a (threads s t) \<longrightarrow> installs i a (threads s t') \<longrightarrow> t = t')"

definition passed :: "nat \<Rightarrow> nat \<Rightarrow> ('k, 'v) slots_state \<Rightarrow> bool" where
  "passed i a s \<longleftrightarrow> a \<in> used s \<and> \<not> linked s i a \<and> (\<forall>t. \<not> installs i a (threads s t))"

lemma installs_simps [simp]:
  "\<not> installs i a []"
  "installs i a (x # p) \<longleftrightarrow> installs i a p \<or> x = StoreChild i a \<or> (\<exists>old tag. x = CasChild i old (a, tag) \<and> fst old \<noteq> a)"
  by (auto simp: installs_def)

lemma may_start_installs: "may_start cs p new \<Longrightarrow> installs i a p \<Longrightarrow> a \<in> new"
  by (induction rule: may_start.induct) (auto simp: step_lists)

text \<open>A successful access links only what it installs, or keeps the address.\<close>

lemma exec_linked:
  assumes "exec x cs = (cs', ok)" "cell_child (cs' i) = Some (a, tag)"
  shows "(\<exists>tag. cell_child (cs i) = Some (a, tag)) \<or> ok \<and> installs i a [x]"
  using assms by (cases x) (auto split: if_splits)

lemma point_installs_once: "at_point cs (x # p) \<Longrightarrow> installs i a [x] \<Longrightarrow> \<not> installs i a p"
  by (cases rule: at_point.cases, assumption) (auto simp: step_lists)

lemma fresh_inv_step:
  assumes "slot_step s s'" "slot_inv s" "fresh_inv s"
  shows "fresh_inv s'"
  using assms(1)
proof (cases rule: slot_step.cases)
  case (start t p new)
  have new: "a \<notin> used s" if "installs i a p" for i a
    using may_start_installs [OF start(3) that] start(4) by blast
  have links: "linked s' = linked s" by (simp add: start(1) linked_def fun_eq_iff)
  have "\<not> linked s i a" "\<not> installs i a (threads s t')" if "installs i a p" for i a t'
    using new [OF that] assms(3) by (auto simp: fresh_inv_def)
  then show ?thesis
    using assms(3) may_start_installs [OF start(3)] start(1) links by (auto simp: fresh_inv_def)
next
  case (run t x p cs ok)
  let ?q = "if ok then p else []"
  have t: "threads s' = (threads s)(t := ?q)" "used s' = used s" "mem s' = cs" by (simp_all add: run(1))
  have old: "installs i a (threads s' t') \<Longrightarrow> installs i a (threads s t')" for t' i a
    by (cases "t' = t") (auto simp: t run(2) split: if_splits)
  have link: "linked s' i a \<Longrightarrow> linked s i a \<or> installs i a [x] \<and> installs i a (threads s t)" for i a
    using exec_linked [OF run(3)] by (auto simp: linked_def t run(2))
  have once: "installs i a [x] \<Longrightarrow> \<not> installs i a ?q" for i a
    using point_installs_once [of "mem s" x p] slot_invD(2) [OF assms(2), of t] run(2) by auto
  have "\<not> linked s' i a" if "installs i a (threads s' t')" for i a t'
  proof
    assume "linked s' i a"
    then have x: "installs i a [x]" "installs i a (threads s t)"
      using link old [OF that] assms(3) unfolding fresh_inv_def by blast+
    then have "t' = t" using old [OF that] assms(3) unfolding fresh_inv_def by blast
    then show False using once [OF x(1)] that by (simp add: t)
  qed
  then show ?thesis using assms(3) link old unfolding fresh_inv_def t(2) by blast
qed

lemma passed_step:
  assumes "slot_step s s'" "passed i a s"
  shows "passed i a s'"
  using assms(1)
proof (cases rule: slot_step.cases)
  case (start t p new)
  then have "\<not> installs i a p" using may_start_installs assms(2) by (fastforce simp: passed_def)
  then show ?thesis using assms(2) by (auto simp: passed_def linked_def start(1))
next
  case (run t x p cs ok)
  have "\<not> installs i a (threads s t)" using assms(2) by (simp add: passed_def)
  then have p: "\<not> installs i a [x]" "\<not> installs i a p" by (simp_all add: run(2))
  have old: "cell_child (mem s i) \<noteq> Some (a, tag)" for tag using assms(2) by (simp add: passed_def linked_def)
  have "cell_child (cs i) \<noteq> Some (a, tag)" for tag
    using exec_linked [OF run(3), of i a tag] p(1) old by blast
  then have "\<not> linked s' i a" by (simp add: linked_def run(1))
  then show ?thesis using assms(2) p(2) by (simp add: passed_def run(1))
qed

lemma linked_step:
  assumes "slot_step s s'" "fresh_inv s" "linked s i a"
  shows "linked s' i a \<or> passed i a s'"
  using assms(1)
proof (cases rule: slot_step.cases)
  case (run t x p cs ok)
  have "\<not> installs i a (threads s t')" for t' using assms(2,3) by (auto simp: fresh_inv_def)
  moreover from this [of t] have "\<not> installs i a p" by (simp add: run(2))
  ultimately show ?thesis using assms(2,3) by (auto simp: passed_def run(1) fresh_inv_def)
qed (use assms(3) in \<open>simp add: linked_def\<close>)

lemma reachable_invs: "slot_reachable s \<Longrightarrow> slot_inv s \<and> fresh_inv s"
proof (induction rule: slot_reachable.induct)
  case (init s)
  then show ?case using slot_inv_quiet [OF init] by (auto simp: quiet_def fresh_inv_def linked_def)
next
  case (step s s')
  then show ?case using slot_inv_step fresh_inv_step by blast
qed

lemma reachable_steps: "slot_step\<^sup>*\<^sup>* s s' \<Longrightarrow> slot_reachable s \<Longrightarrow> slot_reachable s'"
  by (induction rule: rtranclp_induct) (auto intro: slot_reachable.step)

lemma linked_steps:
  "slot_step\<^sup>*\<^sup>* s s' \<Longrightarrow> slot_reachable s \<Longrightarrow> linked s i a \<Longrightarrow> linked s' i a \<or> passed i a s'"
  by (induction rule: rtranclp_induct)
    (use linked_step passed_step reachable_invs reachable_steps in blast)+

lemma passed_steps: "slot_step\<^sup>*\<^sup>* s s' \<Longrightarrow> passed i a s \<Longrightarrow> passed i a s'"
  by (induction rule: rtranclp_induct) (auto intro: passed_step)

subsection \<open>A reader of one slot\<close>

text \<open>
  What \<^verbatim>\<open>lookup::get\<close> makes of a slot at one moment, given what the lookup in each child yields.
\<close>

definition read_slot :: "(nat \<Rightarrow> 'k \<Rightarrow> 'v option) \<Rightarrow> ('k, 'v) cell \<Rightarrow> 'k \<Rightarrow> 'v option" where
  "read_slot get_child c key =
     (if cell_state c = slot_DATA then (if cell_key c = Some key then cell_value c else None)
      else if is_child (cell_state c) then
        (case cell_child c of None \<Rightarrow> None | Some (child, _) \<Rightarrow> get_child child key)
      else None)"

subsection \<open>Dropping a node\<close>

text \<open>
  What \<^verbatim>\<open>Node::drop\<close> frees of a slot: the inline key and value and the child, each where the state
  says that there is one.
\<close>

definition slot_drop :: "('k, 'v) cell \<Rightarrow> 'k option \<times> 'v option \<times> (nat \<times> bool) option" where
  "slot_drop c =
     (let state = cell_state c;
          has_inline = (state = slot_DATA \<or> state = slot_CHILD_STALE \<or> state = slot_TOMBSTONE)
      in (if has_inline then cell_key c else None, if has_inline then cell_value c else None,
          if is_child state then cell_child c else None))"

text \<open>
  When no thread is active, nothing that is initialised is missed and nothing else is read.
\<close>

lemma slot_drop_exact:
  assumes "slot_inv s" "\<forall>t. threads s t = []"
  shows "slot_drop (mem s i) = (cell_key (mem s i), cell_value (mem s i), cell_child (mem s i))"
    "cell_child (mem s i) \<noteq> Some (a, True)"
proof -
  have "cell_state (mem s i) \<noteq> slot_WRITING" using slot_invD(3) [OF assms(1), of i] assms(2) by simp
  then show "slot_drop (mem s i) = (cell_key (mem s i), cell_value (mem s i), cell_child (mem s i))"
    using slot_invD(1) [OF assms(1), of i] unfolding cell_ok_def slot_drop_def Let_def by (elim conjE insertE) simp_all
  show "cell_child (mem s i) \<noteq> Some (a, True)" using slot_invD(5) [OF assms(1), of i] assms(2) by auto
qed

end
