(* ===== verification/Slot_Properties.thy ===== *)
theory Slot_Properties
  imports Slot_Protocol
begin

text \<open>
  Properties of the concurrent protocol of the slots of a node, for any number of threads and every
  interleaving of their atomic accesses.
\<close>

text \<open>A node with an inline pair in slot 0, in which thread 0 is about to attach the child 7.\<close>

definition sample_slots :: "(nat, nat) slots_state" where
  "sample_slots =
     \<lparr>mem = (\<lambda>_. \<lparr>cell_state = slot_EMPTY, cell_key = None, cell_value = None, cell_child = None\<rparr>)
        (0 := \<lparr>cell_state = slot_DATA, cell_key = Some 1, cell_value = Some 10, cell_child = None\<rparr>,
         1 := \<lparr>cell_state = slot_CHILD, cell_key = None, cell_value = None, cell_child = Some (3, False)\<rparr>),
      used = {3, 7}, threads = (\<lambda>_. [])(0 := cas_data_to_child_stale_steps 0 7)\<rparr>"

lemma sample_slots_reachable: "slot_reachable sample_slots"
proof -
  let ?q = "sample_slots\<lparr>used := {3}, threads := \<lambda>_. []\<rparr>"
  have "quiet ?q" by (auto simp: quiet_def sample_slots_def cell_ok_def)
  then have "slot_reachable ?q" by (rule slot_reachable.init)
  moreover have "sample_slots = ?q\<lparr>used := used ?q \<union> {7},
      threads := (threads ?q)(0 := cas_data_to_child_stale_steps 0 7)\<rparr>"
    by (simp add: sample_slots_def insert_commute)
  then have "slot_step ?q sample_slots"
    using slot_step.start [of ?q 0, OF _ may_start.intros(3) [of _ 0 7]] by simp
  ultimately show ?thesis by (rule slot_reachable.step)
qed

text \<open>The same node after thread 0 has claimed the slot, and after it has published the child.\<close>

definition sample_claimed :: "(nat, nat) slots_state" where
  "sample_claimed = sample_slots
     \<lparr>mem := (mem sample_slots)(0 := (mem sample_slots 0)\<lparr>cell_state := slot_WRITING\<rparr>),
      threads := (\<lambda>_. [])(0 := tl (cas_data_to_child_stale_steps 0 7))\<rparr>"

lemma sample_claim: "slot_step sample_slots sample_claimed"
  using run_step [of sample_slots 0 "CasState 0 slot_DATA slot_WRITING" "tl (cas_data_to_child_stale_steps 0 7)"]
  by (simp add: sample_claimed_def sample_slots_def cas_data_to_child_stale_steps_def)

lemma sample_claimed_reachable: "slot_reachable sample_claimed"
  by (rule slot_reachable.step [OF sample_slots_reachable sample_claim])

text \<open>
  C29: In every interleaving, a slot whose state announces inline data has its key and value
  initialised and one that announces a child has a pointer, at most one thread writes a slot
  and at most one rebuilds its child, inline data that was once published never changes, and
  dropping a node that no thread uses frees exactly what its slots hold.
\<close>

theorem slot_safety:
  assumes "slot_reachable s" "slot_step\<^sup>*\<^sup>* s s'"
  shows "cell_ok (mem s i) \<and>
    (\<forall>t t'. writes (threads s t) = Some i \<longrightarrow> writes (threads s t') = Some i \<longrightarrow> t = t') \<and>
    (\<forall>t t'. freezes (threads s t) = Some i \<longrightarrow> freezes (threads s t') = Some i \<longrightarrow> t = t') \<and>
    (cell_state (mem s i) \<notin> {slot_EMPTY, slot_WRITING} \<longrightarrow>
      cell_key (mem s' i) = cell_key (mem s i) \<and> cell_value (mem s' i) = cell_value (mem s i)) \<and>
    ((\<forall>t. threads s t = []) \<longrightarrow>
      slot_drop (mem s i) = (cell_key (mem s i), cell_value (mem s i), cell_child (mem s i)))"
proof -
  have inv: "slot_inv s" using assms(1) by (rule slot_inv_reachable)
  have "settled i (cell_key (mem s i)) (cell_value (mem s i)) s'"
    if "cell_state (mem s i) \<notin> {slot_EMPTY, slot_WRITING}"
    by (rule settled_steps [OF assms(2) inv settled_data [OF inv that]])
  then show ?thesis using slot_invD [OF inv] slot_drop_exact(1) [OF inv] by (auto simp: settled_def)
qed

theorem slot_safety_witness:
  "cell_ok (mem sample_slots 0) \<and> slot_step\<^sup>*\<^sup>* sample_slots sample_claimed \<and>
   cell_value (mem sample_claimed 0) = Some 10"
proof -
  have steps: "slot_step\<^sup>*\<^sup>* sample_slots sample_claimed" using sample_claim by blast
  have "cell_state (mem sample_slots 0) = slot_DATA" "cell_value (mem sample_slots 0) = Some 10"
    by (simp_all add: sample_slots_def)
  then show ?thesis using slot_safety [OF sample_slots_reachable steps, of 0] steps by simp
qed


text \<open>
  C30: Nobody waits for ever on a slot: the thread that holds a slot in WRITING can always take
  its next access, no other thread changes what it has left to do, each of its accesses
  shortens that, and at its end the slot has left WRITING; a tagged child pointer has a holder,
  a thread that can take its next access, this access removes the tag, and until then no thread
  changes the pointer.
\<close>

theorem slot_progress:
  assumes "slot_reachable s"
  shows "(cell_state (mem s i) = slot_WRITING \<longrightarrow>
      (\<exists>t. writes (threads s t) = Some i \<and>
        (\<exists>s'. slot_step s s' \<and> threads s' t = tl (threads s t)) \<and>
        (\<forall>s'. slot_step s s' \<longrightarrow> threads s' t = threads s t \<or>
           threads s' t = tl (threads s t) \<and>
           (writes (threads s' t) = Some i \<or> cell_state (mem s' i) \<noteq> slot_WRITING)))) \<and>
    (cell_child (mem s i) = Some (a, True) \<longrightarrow>
      (\<exists>t. freezes (threads s t) = Some i \<and>
        (\<exists>s'. slot_step s s' \<and> threads s' t = tl (threads s t)) \<and>
        (\<forall>s'. slot_step s s' \<longrightarrow>
           threads s' t = threads s t \<and> cell_child (mem s' i) = Some (a, True) \<or>
           threads s' t = [] \<and> (\<exists>b. cell_child (mem s' i) = Some (b, False)))))"
proof -
  have inv: "slot_inv s" using assms by (rule slot_inv_reachable)
  have tagged: "\<exists>t. freezes (threads s t) = Some i \<and> (\<exists>s'. slot_step s s' \<and> threads s' t = tl (threads s t)) \<and>
      (\<forall>s'. slot_step s s' \<longrightarrow> threads s' t = threads s t \<and> cell_child (mem s' i) = Some (a, True) \<or>
         threads s' t = [] \<and> (\<exists>b. cell_child (mem s' i) = Some (b, False)))"
    if child: "cell_child (mem s i) = Some (a, True)"
  proof -
    obtain t where t: "freezes (threads s t) = Some i" using slot_invD(5) [OF inv, of i] child by blast
    then have "tl (threads s t) = []" by (rule freezer_point [OF inv]) simp
    moreover have "threads s' t = threads s t \<and> cell_child (mem s' i) = Some (a, True) \<or>
        threads s' t = [] \<and> (\<exists>b. cell_child (mem s' i) = Some (b, False))" if "slot_step s s'" for s'
      using freezer_steps [OF inv t that] unfolding child .
    ultimately show ?thesis using t freezer_enabled [OF inv t]
      by (intro exI [of _ t] conjI allI impI) simp_all
  qed
  have writing: "\<exists>t. writes (threads s t) = Some i \<and> (\<exists>s'. slot_step s s' \<and> threads s' t = tl (threads s t)) \<and>
      (\<forall>s'. slot_step s s' \<longrightarrow> threads s' t = threads s t \<or> threads s' t = tl (threads s t) \<and>
         (writes (threads s' t) = Some i \<or> cell_state (mem s' i) \<noteq> slot_WRITING))"
    if w: "cell_state (mem s i) = slot_WRITING"
  proof -
    obtain t where t: "writes (threads s t) = Some i" using slot_invD(3) [OF inv, of i] w by blast
    moreover have "\<forall>s'. slot_step s s' \<longrightarrow> threads s' t = threads s t \<or> threads s' t = tl (threads s t) \<and>
        (writes (threads s' t) = Some i \<or> cell_state (mem s' i) \<noteq> slot_WRITING)"
      using writer_steps [OF inv t] by (intro allI impI)
    ultimately show ?thesis using writer_enabled [OF inv t] by (intro exI [of _ t] conjI)
  qed
  show ?thesis by (intro conjI impI writing tagged)
qed

theorem slot_progress_witness:
  "cell_state (mem sample_claimed 0) = slot_WRITING \<and>
   (\<exists>t s'. slot_step sample_claimed s' \<and> threads s' t = tl (threads sample_claimed t) \<and>
     writes (threads sample_claimed t) = Some 0)"
proof -
  have "cell_state (mem sample_claimed 0) = slot_WRITING" by (simp add: sample_claimed_def)
  then show ?thesis using slot_progress [OF sample_claimed_reachable, of 0] by blast
qed


text \<open>
  C31: The validation at the end of an insert or remove is sound: when the child pointer of the
  first descent is, without a tag, the one loaded at the start, that subtree has been linked at
  every moment between, so no rebuild has replaced it.
\<close>

theorem validation_sound:
  assumes "slot_reachable s" "cell_child (mem s i) = Some (a, False)"
    and "slot_step\<^sup>*\<^sup>* s s1" "slot_step\<^sup>*\<^sup>* s1 s2" "cell_child (mem s2 i) = Some (a, False)"
  shows "cell_child (mem s1 i) \<in> {Some (a, False), Some (a, True)}"
proof -
  have "linked s i a" using assms(2) by (auto simp: linked_def)
  then consider "linked s1 i a" | "passed i a s1" using linked_steps [OF assms(3,1)] by blast
  then show ?thesis
  proof cases
    case 1
    then show ?thesis by (auto simp: linked_def)
  next
    case 2
    then have "passed i a s2" by (rule passed_steps [OF assms(4)])
    then show ?thesis using assms(5) by (auto simp: passed_def linked_def)
  qed
qed

theorem validation_sound_witness:
  "cell_child (mem sample_claimed 1) \<in> {Some (3, False), Some (3, True)}"
proof (rule validation_sound [OF sample_slots_reachable])
  show "slot_step\<^sup>*\<^sup>* sample_slots sample_claimed" using sample_claim by blast
  show "slot_step\<^sup>*\<^sup>* sample_claimed sample_claimed" by blast
qed (simp_all add: sample_claimed_def sample_slots_def)


text \<open>
  A lookup does not wait for a slot in WRITING: while a thread moves the pair of a slot into a
  child, a lookup of its key finds the value, then nothing, and then the value again, although
  the key is present all the time.
\<close>

lemma reader_gap:
  assumes "threads s t = cas_data_to_child_stale_steps i child"
    and "cell_state (mem s i) = slot_DATA" "cell_key (mem s i) = Some k" "cell_value (mem s i) = Some v"
    and "get_child child k = Some v"
  shows "\<exists>s1 s2. slot_step s s1 \<and> slot_step\<^sup>*\<^sup>* s1 s2 \<and>
    read_slot get_child (mem s i) k = Some v \<and> read_slot get_child (mem s1 i) k = None \<and>
    read_slot get_child (mem s2 i) k = Some v"
proof -
  let ?c1 = "(mem s i)\<lparr>cell_state := slot_WRITING\<rparr>"
  let ?c2 = "?c1\<lparr>cell_child := Some (child, False)\<rparr>"
  let ?c3 = "?c2\<lparr>cell_state := slot_CHILD_STALE\<rparr>"
  let ?s1 = "s\<lparr>mem := (mem s)(i := ?c1),
      threads := (threads s)(t := [StoreChild i child, StoreState i slot_CHILD_STALE])\<rparr>"
  let ?s2 = "?s1\<lparr>mem := (mem s)(i := ?c2), threads := (threads s)(t := [StoreState i slot_CHILD_STALE])\<rparr>"
  let ?s3 = "?s2\<lparr>mem := (mem s)(i := ?c3), threads := (threads s)(t := [])\<rparr>"
  have 1: "slot_step s ?s1"
    using run_step [of s t "CasState i slot_DATA slot_WRITING"] assms(1,2)
    by (simp add: cas_data_to_child_stale_steps_def)
  have "slot_step ?s1 ?s2" using run_step [of ?s1 t "StoreChild i child"] by simp
  moreover have "slot_step ?s2 ?s3" using run_step [of ?s2 t "StoreState i slot_CHILD_STALE"] by simp
  ultimately have "slot_step\<^sup>*\<^sup>* ?s1 ?s3" by (meson r_into_rtranclp rtranclp_trans)
  with 1 show ?thesis using assms(2-5) by (intro exI [of _ ?s1] exI [of _ ?s3]) (simp add: read_slot_def)
qed

lemma reader_gap_witness:
  "\<exists>s1 s2. slot_step sample_slots s1 \<and> slot_step\<^sup>*\<^sup>* s1 s2 \<and>
    read_slot (\<lambda>_. [1 \<mapsto> 10, 2 \<mapsto> 20]) (mem sample_slots 0) 1 = Some 10 \<and>
    read_slot (\<lambda>_. [1 \<mapsto> 10, 2 \<mapsto> 20]) (mem s1 0) 1 = None \<and>
    read_slot (\<lambda>_. [1 \<mapsto> 10, 2 \<mapsto> 20]) (mem s2 0) 1 = Some 10"
  using reader_gap [of sample_slots 0 0 7 1 10 "\<lambda>_. [1 \<mapsto> 10, 2 \<mapsto> 20]"]
  by (simp add: sample_slots_def)

end
