(* ===== verification/Root_Protocol.thy ===== *)
theory Root_Protocol
  imports LearnedMap_Facts
begin

text \<open>
  \<^verbatim>\<open>src/map.rs\<close> with many threads: the updates with their validation of the root, the lookup,
  the rebuild of the root, and \<^verbatim>\<open>drain\<close> (\<^verbatim>\<open>clear\<close> is the same without a result). An access to
  the root pointer, the counters or one tree is a step; steps of any number of threads interleave
  in every order. An operation on one tree is a single step here, at its compare-and-exchange; the
  traversal of a tree that is being replaced takes any number of steps, between which threads that
  loaded the root earlier go on changing that tree. A root pointer is an address and its tag.
  Trees have at most \<open>max_pairs\<close> entries.
\<close>

datatype ('k, 'v) op = Put 'k 'v | GetOrPut 'k 'v | Del 'k

datatype task = Rebuilding | Draining

text \<open>
  Where a thread is: \<open>OpLoad\<close> to \<open>OpCount\<close> are the loop of an update, with the flag that some
  iteration changed the tree; \<open>Threshold\<close> and \<open>Claim\<close> are \<^verbatim>\<open>maybe_rebuild_root\<close>.
\<close>

datatype ('k, 'v) pc =
    Idle
  | OpLoad "('k, 'v) op" bool
  | OpTree "('k, 'v) op" bool nat
  | OpCheck "('k, 'v) op" bool nat bool
  | OpCount "('k, 'v) op"
  | Threshold usize
  | Claim nat
  | TaskLoad task
  | Freeze task nat
  | Scan task nat "'k set" "('k \<times> 'v) list"
  | Swap task nat nat "('k \<times> 'v) list"
  | Unfreeze nat
  | Finish task "('k \<times> 'v) list"
  | Reset
  | ReadLoad 'k
  | Read 'k nat
  | ReadDone 'k "'v option"

record ('k, 'v) shared =
  root_ptr :: "nat \<times> bool"
  heap :: "nat \<Rightarrow> ('k, 'v) node"
  allocated :: "nat set"
  map_len :: usize
  rebuild_at :: nat

primrec op_key :: "('k, 'v) op \<Rightarrow> 'k" where
  "op_key (Put k v) = k"
| "op_key (GetOrPut k v) = k"
| "op_key (Del k) = k"

text \<open>An operation on one tree, and whether it counts as an insertion or a removal.\<close>

primrec tree_op ::
    "'k::linorder key_impl \<Rightarrow> config \<Rightarrow> ('k, 'v) node \<Rightarrow> ('k, 'v) op \<Rightarrow> (('k, 'v) node \<times> bool) option" where
  "tree_op K cfg n (Put k v) = map_option (\<lambda>(n', r). (n', r = Inserted)) (tree_insert K cfg n k v)"
| "tree_op K cfg n (GetOrPut k v) = map_option (\<lambda>(n', _, r). (n', r = Inserted)) (get_or_insert K cfg n k v)"
| "tree_op K cfg n (Del k) = remove K cfg n k"

declare tree_op.simps [simp del]

text \<open>
  \<^verbatim>\<open>LearnedMap::insert\<close>, \<^verbatim>\<open>get_or_insert\<close> and \<^verbatim>\<open>remove\<close>. A tagged root makes the thread wait,
  that is, take no step.
\<close>

inductive op_step ::
    "'k::linorder key_impl \<Rightarrow> config \<Rightarrow> ('k, 'v) pc \<Rightarrow> ('k, 'v) shared \<Rightarrow>
     ('k, 'v) pc \<Rightarrow> ('k, 'v) shared \<Rightarrow> bool" for K cfg where
  op_start: "op_step K cfg Idle s (OpLoad op False) s"
| op_load: "root_ptr s = (a, False) \<Longrightarrow> op_step K cfg (OpLoad op f) s (OpTree op f a) s"
| op_tree: "tree_op K cfg (heap s a) op = Some (n', changed) \<Longrightarrow> length (entries n') \<le> max_pairs \<Longrightarrow>
    op_step K cfg (OpTree op f a) s (OpCheck op f a changed) (s\<lparr>heap := (heap s)(a := n')\<rparr>)"
| op_retry: "root_ptr s \<noteq> (a, False) \<Longrightarrow>
    op_step K cfg (OpCheck op f a changed) s (OpLoad op (changed \<or> f)) s"
| op_done: "root_ptr s = (a, False) \<Longrightarrow>
    op_step K cfg (OpCheck op f a changed) s (if changed \<or> f then OpCount op else Idle) s"
| op_count_insert: "op \<noteq> Del k \<Longrightarrow>
    op_step K cfg (OpCount op) s (Threshold (map_len s + 1)) (s\<lparr>map_len := map_len s + 1\<rparr>)"
| op_count_remove:
    "op_step K cfg (OpCount (Del k)) s Idle (s\<lparr>map_len := map_len s - 1\<rparr>)"

text \<open>\<^verbatim>\<open>maybe_rebuild_root\<close>\<close>

inductive claim_step :: "config \<Rightarrow> ('k, 'v) pc \<Rightarrow> ('k, 'v) shared \<Rightarrow> ('k, 'v) pc \<Rightarrow> ('k, 'v) shared \<Rightarrow> bool"
  for cfg where
  claim_read: "claim_step cfg (Threshold current_len) s
     (if auto_rebuild cfg \<and> rebuild_at s \<le> unat current_len then Claim (rebuild_at s) else Idle) s"
| claim_won: "rebuild_at s = threshold \<Longrightarrow>
    claim_step cfg (Claim threshold) s (TaskLoad Rebuilding)
      (s\<lparr>rebuild_at := saturating_mul threshold ROOT_REBUILD_GROWTH_FACTOR\<rparr>)"
| claim_lost: "rebuild_at s \<noteq> threshold \<Longrightarrow> claim_step cfg (Claim threshold) s Idle s"

text \<open>
  Freezing, and the traversal that collects the pairs of the frozen tree in ascending order: a
  step reads the entries of the next stretch of keys.
\<close>

definition lower_set :: "'k::linorder set \<Rightarrow> bool" where
  "lower_set S \<longleftrightarrow> (\<forall>x\<in>S. \<forall>y\<le>x. y \<in> S)"

inductive freeze_step :: "task \<Rightarrow> ('k::linorder, 'v) pc \<Rightarrow> ('k, 'v) shared \<Rightarrow> ('k, 'v) pc \<Rightarrow> ('k, 'v) shared \<Rightarrow> bool"
  for task where
  task_start: "freeze_step task Idle s (TaskLoad task) s"
| task_load: "root_ptr s = (a, False) \<Longrightarrow> freeze_step task (TaskLoad task) s (Freeze task a) s"
| task_busy: "root_ptr s = (a, True) \<Longrightarrow> freeze_step task (TaskLoad task) s Idle s"
| freeze: "root_ptr s = (a, False) \<Longrightarrow>
    freeze_step task (Freeze task a) s (Scan task a {} []) (s\<lparr>root_ptr := (a, True)\<rparr>)"
| freeze_failed: "root_ptr s \<noteq> (a, False) \<Longrightarrow> freeze_step task (Freeze task a) s Idle s"
| scan: "lower_set seen' \<Longrightarrow> seen \<subseteq> seen' \<Longrightarrow>
    freeze_step task (Scan task a seen pairs) s
      (Scan task a seen' (pairs @ filter (\<lambda>p. fst p \<in> seen' - seen) (sorted_pairs (heap s a)))) s"

text \<open>\<^verbatim>\<open>LearnedMap::rebuild\<close> after the traversal\<close>

inductive rebuild_step ::
    "'k::linorder key_impl \<Rightarrow> config \<Rightarrow> ('k, 'v) pc \<Rightarrow> ('k, 'v) shared \<Rightarrow>
     ('k, 'v) pc \<Rightarrow> ('k, 'v) shared \<Rightarrow> bool" for K cfg where
  rebuild_empty: "rebuild_step K cfg (Scan Rebuilding a UNIV []) s (Unfreeze a) s"
| rebuild_build: "pairs \<noteq> [] \<Longrightarrow> length pairs \<le> max_pairs \<Longrightarrow>
    bulk_load K (cfg\<lparr>range_headroom := Fin 1\<rparr>) pairs = Some (Inr new_root) \<Longrightarrow> b \<notin> allocated s \<Longrightarrow>
    rebuild_step K cfg (Scan Rebuilding a UNIV pairs) s (Swap Rebuilding a b pairs)
      (s\<lparr>heap := (heap s)(b := new_root), allocated := insert b (allocated s)\<rparr>)"
| rebuild_failed: "pairs \<noteq> [] \<Longrightarrow> bulk_load K (cfg\<lparr>range_headroom := Fin 1\<rparr>) pairs = Some (Inl e) \<Longrightarrow>
    rebuild_step K cfg (Scan Rebuilding a UNIV pairs) s (Unfreeze a) s"
| rebuild_swap: "root_ptr s = (a, True) \<Longrightarrow>
    rebuild_step K cfg (Swap Rebuilding a b pairs) s (Finish Rebuilding pairs) (s\<lparr>root_ptr := (b, False)\<rparr>)"
| rebuild_lost: "root_ptr s \<noteq> (a, True) \<Longrightarrow> rebuild_step K cfg (Swap Rebuilding a b pairs) s (Unfreeze a) s"
| rebuild_unfreeze: "root_ptr s = (a, True) \<Longrightarrow>
    rebuild_step K cfg (Unfreeze a) s Idle (s\<lparr>root_ptr := (a, False)\<rparr>)"
| rebuild_give_up: "root_ptr s \<noteq> (a, True) \<Longrightarrow> rebuild_step K cfg (Unfreeze a) s Idle s"
| rebuild_finish: "rebuild_step K cfg (Finish Rebuilding pairs) s Idle
    (s\<lparr>rebuild_at := saturating_mul (length pairs) ROOT_REBUILD_GROWTH_FACTOR\<rparr>)"

text \<open>\<^verbatim>\<open>LearnedMap::drain\<close> after the traversal\<close>

inductive drain_step :: "('k::linorder, 'v) pc \<Rightarrow> ('k, 'v) shared \<Rightarrow> ('k, 'v) pc \<Rightarrow> ('k, 'v) shared \<Rightarrow> bool" where
  drain_build: "b \<notin> allocated s \<Longrightarrow>
    drain_step (Scan Draining a UNIV pairs) s (Swap Draining a b pairs)
      (s\<lparr>heap := (heap s)(b := empty_root), allocated := insert b (allocated s)\<rparr>)"
| drain_swap: "root_ptr s = (a, True) \<Longrightarrow>
    drain_step (Swap Draining a b pairs) s (Finish Draining pairs) (s\<lparr>root_ptr := (b, False)\<rparr>)"
| drain_lost: "root_ptr s \<noteq> (a, True) \<Longrightarrow> drain_step (Swap Draining a b pairs) s (Unfreeze a) s"
| drain_count: "drain_step (Finish Draining pairs) s Reset
    (s\<lparr>map_len := map_len s - of_nat (length pairs)\<rparr>)"
| drain_reset: "drain_step Reset s Idle (s\<lparr>rebuild_at := INITIAL_ROOT_REBUILD_THRESHOLD\<rparr>)"

text \<open>\<^verbatim>\<open>LearnedMap::get\<close>, which ignores the tag\<close>

inductive read_step ::
    "'k::linorder key_impl \<Rightarrow> ('k, 'v) pc \<Rightarrow> ('k, 'v) shared \<Rightarrow> ('k, 'v) pc \<Rightarrow> ('k, 'v) shared \<Rightarrow> bool"
  for K where
  read_start: "read_step K Idle s (ReadLoad k) s"
| read_load: "read_step K (ReadLoad k) s (Read k (fst (root_ptr s))) s"
| read_tree: "read_step K (Read k a) s (ReadDone k (get K (heap s a) k)) s"
| read_done: "read_step K (ReadDone k r) s Idle s"

text \<open>A map and its threads: one of them takes a step.\<close>

definition thread_step ::
    "'k::linorder key_impl \<Rightarrow> config \<Rightarrow> ('k, 'v) pc \<Rightarrow> ('k, 'v) shared \<Rightarrow>
     ('k, 'v) pc \<Rightarrow> ('k, 'v) shared \<Rightarrow> bool" where
  "thread_step K cfg p s p' s' \<longleftrightarrow>
     op_step K cfg p s p' s' \<or> claim_step cfg p s p' s' \<or> (\<exists>task. freeze_step task p s p' s') \<or>
     rebuild_step K cfg p s p' s' \<or> drain_step p s p' s' \<or> read_step K p s p' s'"

type_synonym ('k, 'v) world = "('k, 'v) shared \<times> (nat \<Rightarrow> ('k, 'v) pc)"

inductive world_step ::
    "'k::linorder key_impl \<Rightarrow> config \<Rightarrow> ('k, 'v) world \<Rightarrow> ('k, 'v) world \<Rightarrow> bool" for K cfg where
  "thread_step K cfg (pcs t) s p' s' \<Longrightarrow> world_step K cfg (s, pcs) (s', pcs(t := p'))"

definition world_start :: "'k::linorder key_impl \<Rightarrow> ('k, 'v) world \<Rightarrow> bool" where
  "world_start K = (\<lambda>(s, pcs).
     (\<forall>t. pcs t = Idle) \<and> \<not> snd (root_ptr s) \<and> allocated s = {fst (root_ptr s)} \<and>
     wf_node K (heap s (fst (root_ptr s))) \<and> length (entries (heap s (fst (root_ptr s)))) \<le> max_pairs \<and>
     unat (map_len s) = length (entries (heap s (fst (root_ptr s)))))"

inductive world_reachable :: "'k::linorder key_impl \<Rightarrow> config \<Rightarrow> ('k, 'v) world \<Rightarrow> bool" for K cfg where
  start: "world_start K w \<Longrightarrow> world_reachable K cfg w"
| step: "world_reachable K cfg w \<Longrightarrow> world_step K cfg w w' \<Longrightarrow> world_reachable K cfg w'"

text \<open>What a lookup in the current tree yields, and the keys of updates in progress.\<close>

definition root_content :: "('k, 'v) shared \<Rightarrow> 'k \<Rightarrow> 'v option" where
  "root_content s = map_of (entries (heap s (fst (root_ptr s))))"

fun pending :: "('k, 'v) pc \<Rightarrow> 'k option" where
  "pending (OpLoad op f) = Some (op_key op)"
| "pending (OpTree op f a) = Some (op_key op)"
| "pending (OpCheck op f a changed) = Some (op_key op)"
| "pending _ = None"

definition busy :: "(nat \<Rightarrow> ('k, 'v) pc) \<Rightarrow> 'k set" where
  "busy pcs = {k. \<exists>t. pending (pcs t) = Some k}"

end
