(* ===== verification/Root_Facts.thy ===== *)
theory Root_Facts
  imports Root_Protocol
begin

text \<open>
  The invariant of the root protocol. At most one thread has the root frozen, a tree that is not yet
  swapped in is private to the thread that built it, and what a traversal has collected so far agrees
  with the frozen tree except at keys with an update in progress: such an update has not validated
  the root, and cannot while the root is frozen.
\<close>

fun freezing :: "('k, 'v) pc \<Rightarrow> nat option" where
  "freezing (Scan task a seen pairs) = Some a"
| "freezing (Swap task a b pairs) = Some a"
| "freezing (Unfreeze a) = Some a"
| "freezing _ = None"

fun installing :: "('k, 'v) pc \<Rightarrow> nat option" where
  "installing (Swap task a b pairs) = Some b"
| "installing _ = None"

fun working_on :: "('k, 'v) pc \<Rightarrow> nat option" where
  "working_on (OpTree op f a) = Some a"
| "working_on (OpCheck op f a changed) = Some a"
| "working_on _ = None"

definition agrees :: "('k \<Rightarrow> 'v option) \<Rightarrow> 'k set \<Rightarrow> 'k set \<Rightarrow> ('k \<times> 'v) list \<Rightarrow> bool" where
  "agrees content keys ignored pairs \<longleftrightarrow> (\<forall>k \<in> keys - ignored. map_of pairs k = content k)"

definition tree_content :: "('k, 'v) shared \<Rightarrow> nat \<Rightarrow> 'k \<Rightarrow> 'v option" where
  "tree_content s a = map_of (entries (heap s a))"

fun snapshot_ok :: "('k::linorder, 'v) shared \<Rightarrow> 'k set \<Rightarrow> ('k, 'v) pc \<Rightarrow> bool" where
  "snapshot_ok s ignored (Scan task a seen pairs) \<longleftrightarrow>
     lower_set seen \<and> sorted_keys pairs \<and> fst ` set pairs \<subseteq> seen \<and> agrees (tree_content s a) seen ignored pairs"
| "snapshot_ok s ignored (Swap task a b pairs) \<longleftrightarrow>
     entries (heap s b) = (case task of Rebuilding \<Rightarrow> pairs | Draining \<Rightarrow> []) \<and>
     agrees (tree_content s a) UNIV ignored pairs"
| "snapshot_ok s ignored _ \<longleftrightarrow> True"

definition tree_ok :: "'k::linorder key_impl \<Rightarrow> ('k, 'v) node \<Rightarrow> bool" where
  "tree_ok K n \<longleftrightarrow> wf_node K n \<and> length (entries n) \<le> max_pairs"

definition root_inv :: "'k::linorder key_impl \<Rightarrow> ('k, 'v) world \<Rightarrow> bool" where
  "root_inv K = (\<lambda>(s, pcs).
     fst (root_ptr s) \<in> allocated s \<and>
     (\<forall>a \<in> allocated s. tree_ok K (heap s a)) \<and>
     (\<forall>t a. freezing (pcs t) = Some a \<longrightarrow> root_ptr s = (a, True)) \<and>
     (\<forall>t t'. freezing (pcs t) \<noteq> None \<longrightarrow> freezing (pcs t') \<noteq> None \<longrightarrow> t = t') \<and>
     (\<forall>t b. installing (pcs t) = Some b \<longrightarrow>
        b \<in> allocated s \<and> b \<noteq> fst (root_ptr s) \<and> (\<forall>t'. working_on (pcs t') \<noteq> Some b)) \<and>
     (\<forall>t a. working_on (pcs t) = Some a \<longrightarrow> a \<in> allocated s) \<and>
     (\<forall>t. snapshot_ok s (busy pcs) (pcs t)))"

lemma root_invD:
  assumes "root_inv K (s, pcs)"
  shows "fst (root_ptr s) \<in> allocated s" "a \<in> allocated s \<Longrightarrow> tree_ok K (heap s a)"
    "freezing (pcs t) = Some a \<Longrightarrow> root_ptr s = (a, True)"
    "freezing (pcs t) \<noteq> None \<Longrightarrow> freezing (pcs t') \<noteq> None \<Longrightarrow> t = t'"
    "installing (pcs t) = Some b \<Longrightarrow> b \<in> allocated s"
    "installing (pcs t) = Some b \<Longrightarrow> b \<noteq> fst (root_ptr s)"
    "installing (pcs t) = Some b \<Longrightarrow> working_on (pcs t') \<noteq> Some b"
    "working_on (pcs t) = Some a \<Longrightarrow> a \<in> allocated s"
    "snapshot_ok s (busy pcs) (pcs t)"
  using assms unfolding root_inv_def by blast+

subsection \<open>What an operation on a tree does\<close>

text \<open>The map of a tree after an update.\<close>

primrec op_effect :: "('k, 'v) op \<Rightarrow> ('k \<Rightarrow> 'v option) \<Rightarrow> 'v option" where
  "op_effect (Put k v) c = Some v"
| "op_effect (GetOrPut k v) c = (case c k of None \<Rightarrow> Some v | Some old \<Rightarrow> Some old)"
| "op_effect (Del k) c = None"

primrec op_changes :: "('k, 'v) op \<Rightarrow> ('k \<Rightarrow> 'v option) \<Rightarrow> bool" where
  "op_changes (Put k v) c \<longleftrightarrow> c k = None"
| "op_changes (GetOrPut k v) c \<longleftrightarrow> c k = None"
| "op_changes (Del k) c \<longleftrightarrow> c k \<noteq> None"

lemma tree_op_correct:
  assumes "tree_op K cfg n op = Some (n', changed)" "key_contract K" "config_total cfg" "tree_ok K n"
  shows "wf_node K n' \<and> map_of (entries n') = (map_of (entries n))(op_key op := op_effect op (map_of (entries n))) \<and>
    changed = op_changes op (map_of (entries n))"
proof -
  have pre: "wf_node K n" "config_ok cfg" "length (entries n) < usize_max"
    using assms(3,4) max_pairs_usize config_total_ok by (auto simp: tree_ok_def)
  show ?thesis
  proof (cases op)
    case (Put k v)
    then obtain r where r: "tree_insert K cfg n k v = Some (n', r)" "changed = (r = Inserted)"
      using assms(1) by (auto simp: tree_op.simps)
    from tree_insert_correct [OF r(1) assms(2) pre] show ?thesis by (simp add: Put r(2))
  next
    case (GetOrPut k v)
    then obtain val r where r: "get_or_insert K cfg n k v = Some (n', val, r)" "changed = (r = Inserted)"
      using assms(1) by (auto simp: tree_op.simps)
    from get_or_insert_correct [OF r(1) assms(2) pre] show ?thesis
      by (auto simp: GetOrPut r(2) gets_or_inserts_def updates_at_def split: option.splits)
  next
    case (Del k)
    with assms(1) have "remove K cfg n k = Some (n', changed)" by (simp add: tree_op.simps)
    from remove_correct [OF this assms(2) pre] show ?thesis by (simp add: Del)
  qed
qed

lemma tree_op_returns:
  assumes "key_contract K" "config_total cfg" "tree_ok K n" "length (entries n) < max_pairs"
  shows "\<exists>n' changed. tree_op K cfg n op = Some (n', changed)"
proof -
  have "wf_node K n" "length (entries n) \<le> max_pairs" using assms(3) by (simp_all add: tree_ok_def)
  then show ?thesis
    using tree_insert_total [OF assms(1) _ assms(2,4)] get_or_insert_total [OF assms(1) _ assms(2,4)]
      remove_total [OF assms(1) _ assms(2)]
    by (cases op) (fastforce simp: tree_op.simps)+
qed

subsection \<open>The invariant\<close>

lemma busy_update:
  "pending (pcs t) = None \<or> pending p' = pending (pcs t) \<Longrightarrow> busy pcs \<subseteq> busy (pcs(t := p'))"
  by (auto simp: busy_def) (metis option.distinct(1))+

lemma not_freezing:
  "freezing p = None \<Longrightarrow> installing p = None" "freezing p = None \<Longrightarrow> snapshot_ok s ignored p"
  "working_on p \<noteq> None \<Longrightarrow> freezing p = None"
  by (cases p; simp)+

text \<open>Other threads may change the trees at busy keys, and leave a private tree alone.\<close>

lemma snapshot_frame:
  assumes "snapshot_ok s ignored p" "ignored \<subseteq> ignored'"
    and "\<And>a k. freezing p = Some a \<Longrightarrow> k \<notin> ignored' \<Longrightarrow> tree_content s' a k = tree_content s a k"
    and "\<And>b. installing p = Some b \<Longrightarrow> heap s' b = heap s b"
  shows "snapshot_ok s' ignored' p"
  using assms by (cases p) (auto simp: agrees_def subset_iff)

lemma root_inv_step:
  assumes inv: "root_inv K (s, pcs)"
    and root: "fst (root_ptr s') \<in> allocated s'" "allocated s \<subseteq> allocated s'"
      "\<And>a. a \<in> allocated s' \<Longrightarrow> tree_ok K (heap s' a)"
    and freezer: "\<And>a. freezing p' = Some a \<Longrightarrow> root_ptr s' = (a, True) \<and> (\<forall>t'. t' \<noteq> t \<longrightarrow> freezing (pcs t') = None)"
      "\<And>t' a. t' \<noteq> t \<Longrightarrow> freezing (pcs t') = Some a \<Longrightarrow> root_ptr s' = (a, True)"
    and installer: "\<And>b. installing p' = Some b \<Longrightarrow>
        b \<in> allocated s' \<and> b \<noteq> fst (root_ptr s') \<and> (\<forall>t'. t' \<noteq> t \<longrightarrow> working_on (pcs t') \<noteq> Some b)"
      "\<And>t' b. t' \<noteq> t \<Longrightarrow> installing (pcs t') = Some b \<Longrightarrow> fst (root_ptr s') \<noteq> b \<and> working_on p' \<noteq> Some b"
    and work: "\<And>a. working_on p' = Some a \<Longrightarrow> a \<in> allocated s'"
    and snapshots: "snapshot_ok s' (busy (pcs(t := p'))) p'"
      "\<And>t'. t' \<noteq> t \<Longrightarrow> snapshot_ok s' (busy (pcs(t := p'))) (pcs t')"
  shows "root_inv K (s', pcs(t := p'))"
proof -
  note I = root_invD [OF inv]
  have own: "working_on p' \<noteq> Some b" if "installing p' = Some b" for b
    using that by (cases p') auto
  show ?thesis
    unfolding root_inv_def prod.case
  proof (intro conjI allI impI ballI, goal_cases)
    case 1 show ?case by (rule root(1))
  next
    case (2 a) then show ?case by (rule root(3))
  next
    case (3 t' a) then show ?case using freezer by (cases "t' = t") auto
  next
    case (4 t1 t2) then show ?case using freezer(1) I(4) [of t1 t2] by (auto split: if_splits)
  next
    case (5 t' b) then show ?case using installer(1) I(5) [of t'] root(2) by (cases "t' = t") auto
  next
    case (6 t' b) then show ?case using installer by (cases "t' = t") auto
  next
    case (7 t1 b t2)
    then show ?case
      using installer(1) [of b] installer(2) [of t1 b] own [of b] I(7) [of t1 b t2]
      by (cases "t1 = t"; cases "t2 = t") auto
  next
    case (8 t' a) then show ?case using work I(8) [of t'] root(2) by (cases "t' = t") auto
  next
    case (9 t') then show ?case using snapshots by (cases "t' = t") auto
  qed
qed

text \<open>A step that leaves the root and the trees alone and is not part of a replacement.\<close>

lemma root_inv_local:
  assumes inv: "root_inv K (s, pcs)"
    and same: "root_ptr s' = root_ptr s" "heap s' = heap s" "allocated s' = allocated s"
    and p': "freezing p' = None"
      "pending (pcs t) = None \<or> pending p' = pending (pcs t) \<or> \<not> snd (root_ptr s)"
      "\<And>a. working_on p' = Some a \<Longrightarrow> a = fst (root_ptr s) \<or> working_on (pcs t) = Some a"
  shows "root_inv K (s', pcs(t := p'))"
proof -
  note I = root_invD [OF inv]
  show ?thesis
  proof (rule root_inv_step [OF inv])
    have content: "tree_content s' = tree_content s" by (simp add: tree_content_def same fun_eq_iff)
    show "snapshot_ok s' (busy (pcs(t := p'))) (pcs t')" if "t' \<noteq> t" for t'
    proof (cases "freezing (pcs t')")
      case None
      then show ?thesis by (rule not_freezing)
    next
      case (Some a)
      then have "snd (root_ptr s)" using I(3) by fastforce
      then have "busy pcs \<subseteq> busy (pcs(t := p'))" using p'(2) busy_update by blast
      then show ?thesis using snapshot_frame [OF I(9)] content same by metis
    qed
    show "fst (root_ptr s') \<noteq> b \<and> working_on p' \<noteq> Some b" if "t' \<noteq> t" "installing (pcs t') = Some b" for t' b
      using I(6,7) [OF that(2)] p'(3) by (auto simp: same)
    show "a \<in> allocated s'" if "working_on p' = Some a" for a
      using p'(3) [OF that] I(1) I(8) by (auto simp: same)
    show "snapshot_ok s' (busy (pcs(t := p'))) p'" by (rule not_freezing) (rule p'(1))
  qed (use I(1-3) p'(1) not_freezing(1) [OF p'(1)] in \<open>simp_all add: same\<close>)
qed

text \<open>An operation on a tree.\<close>

lemma root_inv_tree:
  assumes inv: "root_inv K (s, pcs)" and t: "pcs t = OpTree op f a" and K: "key_contract K" "config_total cfg"
    and op: "tree_op K cfg (heap s a) op = Some (n', changed)" "length (entries n') \<le> max_pairs"
  shows "root_inv K (s\<lparr>heap := (heap s)(a := n')\<rparr>, pcs(t := OpCheck op f a changed))"
proof -
  note I = root_invD [OF inv]
  have a: "a \<in> allocated s" using I(8) [of t a] t by simp
  note eff = tree_op_correct [OF op(1) K I(2) [OF a]]
  show ?thesis
  proof (rule root_inv_step [OF inv])
    show "tree_ok K (heap (s\<lparr>heap := (heap s)(a := n')\<rparr>) c)" if "c \<in> allocated (s\<lparr>heap := (heap s)(a := n')\<rparr>)" for c
      using that I(2) [of c] eff op(2) by (auto simp: tree_ok_def)
    have busy: "busy pcs \<subseteq> busy (pcs(t := OpCheck op f a changed))" "op_key op \<in> busy (pcs(t := OpCheck op f a changed))"
      using busy_update [of pcs t "OpCheck op f a changed"] t by (auto simp: busy_def)
    show "snapshot_ok (s\<lparr>heap := (heap s)(a := n')\<rparr>) (busy (pcs(t := OpCheck op f a changed))) (pcs t')" for t'
    proof (rule snapshot_frame [OF I(9) busy(1)])
      show "tree_content (s\<lparr>heap := (heap s)(a := n')\<rparr>) c k = tree_content s c k"
        if "k \<notin> busy (pcs(t := OpCheck op f a changed))" for c k
        using that busy(2) eff by (auto simp: tree_content_def)
      show "heap (s\<lparr>heap := (heap s)(a := n')\<rparr>) b = heap s b" if "installing (pcs t') = Some b" for b
        using I(7) [OF that, of t] t by auto
    qed
    show "fst (root_ptr (s\<lparr>heap := (heap s)(a := n')\<rparr>)) \<noteq> b \<and> working_on (OpCheck op f a changed) \<noteq> Some b"
      if "t' \<noteq> t" "installing (pcs t') = Some b" for t' b
      using I(6) [OF that(2)] I(7) [OF that(2), of t] t by auto
  qed (use I(1,3) a in simp_all)
qed

lemma others_quiet:
  assumes "root_inv K (s, pcs)" "freezing (pcs t) = Some a" "t' \<noteq> t" shows "freezing (pcs t') = None"
  using root_invD(4) [OF assms(1), of t' t] assms(2,3) by (cases "freezing (pcs t')") simp_all

text \<open>A step of the thread that has the root frozen, which changes nothing shared.\<close>

lemma root_inv_keep:
  assumes inv: "root_inv K (s, pcs)" and p: "freezing (pcs t) = Some a"
    and p': "freezing p' = Some a" "installing p' = None" "snapshot_ok s (busy pcs) p'"
  shows "root_inv K (s, pcs(t := p'))"
proof -
  note I = root_invD [OF inv]
  have quiet: "freezing (pcs t') = None" if "t' \<noteq> t" for t'
    using others_quiet [OF inv, of t a t'] p that by simp
  have "pending (pcs t) = None" using p by (cases "pcs t") simp_all
  then have busy: "busy pcs \<subseteq> busy (pcs(t := p'))" using busy_update by blast
  show ?thesis
  proof (rule root_inv_step [OF inv])
    show "snapshot_ok s (busy (pcs(t := p'))) p'" using snapshot_frame [OF p'(3) busy] by simp
    show "snapshot_ok s (busy (pcs(t := p'))) (pcs t')" for t' using snapshot_frame [OF I(9) busy] by simp
    show "a' \<in> allocated s" if "working_on p' = Some a'" for a' using not_freezing(3) [of p'] that p'(1) by simp
    show "fst (root_ptr s) \<noteq> b \<and> working_on p' \<noteq> Some b" if "t' \<noteq> t" "installing (pcs t') = Some b" for t' b
      using not_freezing(1) [OF quiet [OF that(1)]] that(2) by simp
  qed (use I(1-3) p p' quiet in auto)
qed

lemma root_inv_freeze:
  assumes inv: "root_inv K (s, pcs)" and p: "pcs t = Freeze task a" and root: "root_ptr s = (a, False)"
  shows "root_inv K (s\<lparr>root_ptr := (a, True)\<rparr>, pcs(t := Scan task a {} []))"
proof -
  note I = root_invD [OF inv]
  have quiet: "freezing (pcs t') = None" for t' using I(3) [of t'] root by fastforce
  show ?thesis
    by (rule root_inv_step [OF inv])
      (use I(1,2) root quiet not_freezing(1,2) [OF quiet] in \<open>auto simp: lower_set_def agrees_def\<close>)
qed

text \<open>Building the new tree, which nobody else knows of.\<close>

lemma root_inv_alloc:
  assumes inv: "root_inv K (s, pcs)" and p: "pcs t = Scan task a UNIV pairs"
    and new: "b \<notin> allocated s" "tree_ok K n" "entries n = (case task of Rebuilding \<Rightarrow> pairs | Draining \<Rightarrow> [])"
  shows "root_inv K (s\<lparr>heap := (heap s)(b := n), allocated := insert b (allocated s)\<rparr>, pcs(t := Swap task a b pairs))"
proof -
  let ?s = "s\<lparr>heap := (heap s)(b := n), allocated := insert b (allocated s)\<rparr>"
  note I = root_invD [OF inv]
  have root: "root_ptr s = (a, True)" using I(3) [of t a] p by simp
  then have "a \<noteq> b" using I(1) new(1) by auto
  then have content: "tree_content ?s a = tree_content s a" by (simp add: tree_content_def fun_eq_iff)
  have quiet: "freezing (pcs t') = None" if "t' \<noteq> t" for t'
    using others_quiet [OF inv, of t a t'] p that by simp
  have busy: "busy pcs \<subseteq> busy (pcs(t := Swap task a b pairs))" using busy_update [of pcs t] p by simp
  have "snapshot_ok s (busy (pcs(t := Swap task a b pairs))) (pcs t)"
    using snapshot_frame [OF I(9) busy] by simp
  then have "agrees (tree_content ?s a) UNIV (busy (pcs(t := Swap task a b pairs))) pairs"
    by (simp add: p content del: fun_upd_apply)
  then have snap: "snapshot_ok ?s (busy (pcs(t := Swap task a b pairs))) (Swap task a b pairs)"
    by (simp add: new(3) fun_upd_same del: fun_upd_apply)
  show ?thesis
  proof (rule root_inv_step [OF inv])
    show "snapshot_ok ?s (busy (pcs(t := Swap task a b pairs))) (Swap task a b pairs)" by (rule snap)
    show "installing (Swap task a b pairs) = Some c \<Longrightarrow>
        c \<in> allocated ?s \<and> c \<noteq> fst (root_ptr ?s) \<and> (\<forall>t'. t' \<noteq> t \<longrightarrow> working_on (pcs t') \<noteq> Some c)" for c
      using I(8) new(1) root \<open>a \<noteq> b\<close> by auto
    show "fst (root_ptr ?s) \<noteq> c \<and> working_on (Swap task a b pairs) \<noteq> Some c"
      if "t' \<noteq> t" "installing (pcs t') = Some c" for t' c
      using not_freezing(1) [OF quiet [OF that(1)]] that(2) by simp
    show "snapshot_ok ?s (busy (pcs(t := Swap task a b pairs))) (pcs t')" if "t' \<noteq> t" for t'
      by (rule not_freezing) (rule quiet [OF that])
  qed (use I(1,2) new(2) root quiet in auto)
qed

text \<open>The end of a replacement: the root gets its old or its new address, without a tag.\<close>

lemma root_inv_release:
  assumes inv: "root_inv K (s, pcs)" and p: "freezing (pcs t) = Some a"
    and c: "c \<in> allocated s" and p': "freezing p' = None" "working_on p' = None"
  shows "root_inv K (s\<lparr>root_ptr := (c, False)\<rparr>, pcs(t := p'))"
proof -
  note I = root_invD [OF inv]
  have quiet: "freezing (pcs t') = None" if "t' \<noteq> t" for t'
    using others_quiet [OF inv, of t a t'] p that by simp
  show ?thesis
  proof (rule root_inv_step [OF inv])
    show "fst (root_ptr (s\<lparr>root_ptr := (c, False)\<rparr>)) \<noteq> b \<and> working_on p' \<noteq> Some b"
      if "t' \<noteq> t" "installing (pcs t') = Some b" for t' b
      using not_freezing(1) [OF quiet [OF that(1)]] that(2) by simp
    show "snapshot_ok (s\<lparr>root_ptr := (c, False)\<rparr>) (busy (pcs(t := p'))) p'" by (rule not_freezing) (rule p'(1))
    show "snapshot_ok (s\<lparr>root_ptr := (c, False)\<rparr>) (busy (pcs(t := p'))) (pcs t')" if "t' \<noteq> t" for t'
      by (rule not_freezing) (rule quiet [OF that])
  qed (use I(2) c p' quiet not_freezing(1) [OF p'(1)] in auto)
qed

text \<open>The traversal reads on.\<close>

lemma map_of_filter_keys:
  "map_of (filter (\<lambda>p. fst p \<in> S) ps) k = (if k \<in> S then map_of ps k else None)"
  by (induction ps) auto

lemma snapshot_scan:
  assumes "snapshot_ok s ignored (Scan task a seen pairs)" "lower_set seen'" "seen \<subseteq> seen'" "sorted_keys (entries (heap s a))"
  shows "snapshot_ok s ignored (Scan task a seen' (pairs @ filter (\<lambda>p. fst p \<in> seen' - seen) (entries (heap s a))))"
proof -
  have snap: "lower_set seen" "sorted_keys pairs" "fst ` set pairs \<subseteq> seen" "agrees (tree_content s a) seen ignored pairs"
    using assms(1) by simp_all
  have less: "fst p < fst q" if "p \<in> set pairs" "fst q \<in> seen' - seen" for p q
    using that snap(1,3) by (auto simp: lower_set_def not_le [symmetric])
  have "sorted_keys (pairs @ filter (\<lambda>p. fst p \<in> seen' - seen) (entries (heap s a)))"
    unfolding sorted_keys_append by (intro conjI ballI snap(2) sorted_keys_filter assms(4) less) simp_all
  moreover have "map_of pairs k = None" if "k \<notin> seen" for k
    using snap(3) that by (auto simp: map_of_eq_None_iff)
  then have "map_of (pairs @ filter (\<lambda>p. fst p \<in> seen' - seen) (entries (heap s a))) k =
      (if k \<in> seen then map_of pairs k else map_of (entries (heap s a)) k)" if "k \<in> seen'" for k
    using that map_of_filter_keys [of "seen' - seen" "entries (heap s a)" k]
    by (simp add: map_add_def split: option.splits)
  then have "agrees (tree_content s a) seen' ignored (pairs @ filter (\<lambda>p. fst p \<in> seen' - seen) (entries (heap s a)))"
    using snap(4) by (simp only: agrees_def tree_content_def) auto
  ultimately show ?thesis using snap(3) assms(2,3) by auto
qed

subsection \<open>Every step keeps the invariant\<close>

lemma root_inv_op:
  assumes "op_step K cfg p s p' s'" "root_inv K (s, pcs)" "pcs t = p" "key_contract K" "config_total cfg"
  shows "root_inv K (s', pcs(t := p'))"
  using assms(1)
proof (cases rule: op_step.cases)
  case (op_tree a op n' changed f)
  then show ?thesis using root_inv_tree [OF assms(2) _ assms(4,5)] assms(3) by simp
qed (use assms(2,3) in \<open>auto intro!: root_inv_local [of K s]\<close>)

lemma root_inv_claim: "claim_step cfg p s p' s' \<Longrightarrow> root_inv K (s, pcs) \<Longrightarrow> pcs t = p \<Longrightarrow> root_inv K (s', pcs(t := p'))"
  by (erule claim_step.cases) (auto intro!: root_inv_local [of K s])

lemma root_inv_read: "read_step K p s p' s' \<Longrightarrow> root_inv K (s, pcs) \<Longrightarrow> pcs t = p \<Longrightarrow> root_inv K (s', pcs(t := p'))"
  by (erule read_step.cases) (auto intro!: root_inv_local [of K s])

lemma root_inv_freezing:
  assumes "freeze_step task p s p' s'" "root_inv K (s, pcs)" "pcs t = p" "key_contract K"
  shows "root_inv K (s', pcs(t := p'))"
  using assms(1)
proof (cases rule: freeze_step.cases)
  case (freeze a)
  then show ?thesis using root_inv_freeze [OF assms(2)] assms(3) by simp
next
  case (scan seen' seen a pairs)
  note I = root_invD [OF assms(2)]
  have t: "pcs t = Scan task a seen pairs" using scan(1) assms(3) by simp
  have "tree_ok K (heap s a)" using I(1,2) I(3) [of t a] t by simp
  then have pairs: "sorted_pairs (heap s a) = entries (heap s a)" "sorted_keys (entries (heap s a))"
    using iter_collect_entries(3) key_contract.entries_sorted [OF assms(4)] by (auto simp: tree_ok_def)
  show ?thesis
    unfolding scan(2,3) pairs(1)
  proof (rule root_inv_keep [OF assms(2)])
    show "snapshot_ok s (busy pcs) (Scan task a seen' (pairs @ filter (\<lambda>p. fst p \<in> seen' - seen) (entries (heap s a))))"
      using snapshot_scan [OF _ scan(4,5) pairs(2)] I(9) [of t] unfolding t by blast
  qed (simp_all add: t)
qed (use assms(2,3) in \<open>auto intro!: root_inv_local [of K s]\<close>)

lemma root_inv_rebuild:
  assumes "rebuild_step K cfg p s p' s'" "root_inv K (s, pcs)" "pcs t = p" "key_contract K" "config_total cfg"
  shows "root_inv K (s', pcs(t := p'))"
  using assms(1)
proof (cases rule: rebuild_step.cases)
  case (rebuild_build pairs new_root b a)
  have "config_ok (cfg\<lparr>range_headroom := Fin 1\<rparr>)" using assms(5) by (rule config_sep_ok_headroom)
  then have "wf_node K new_root \<and> entries new_root = pairs"
    using bulk_load_correct [OF rebuild_build(6) assms(4)] rebuild_build(5) max_pairs_usize by simp
  then show ?thesis
    using root_inv_alloc [OF assms(2), of t Rebuilding a pairs b new_root] rebuild_build assms(3)
    by (simp add: tree_ok_def)
next
  case (rebuild_swap a b pairs)
  then show ?thesis
    using root_inv_release [OF assms(2), of t a b] root_invD(5) [OF assms(2), of t b] assms(3) by simp
next
  case (rebuild_unfreeze a)
  then show ?thesis
    using root_inv_release [OF assms(2), of t a a] root_invD(1) [OF assms(2)] assms(3) by simp
next
  case (rebuild_lost a b pairs)
  then show ?thesis using root_invD(3) [OF assms(2), of t a] assms(3) by simp
next
  case (rebuild_give_up a)
  then show ?thesis using root_invD(3) [OF assms(2), of t a] assms(3) by simp
qed (use assms(2,3) in \<open>auto intro!: root_inv_local [of K s] root_inv_keep [of K s pcs t]\<close>)

lemma root_inv_drain:
  assumes "drain_step p s p' s'" "root_inv K (s, pcs)" "pcs t = p"
  shows "root_inv K (s', pcs(t := p'))"
  using assms(1)
proof (cases rule: drain_step.cases)
  case (drain_build b a pairs)
  then show ?thesis
    using root_inv_alloc [OF assms(2), of t Draining a pairs b empty_root] assms(3)
    by (simp add: tree_ok_def wf_empty_root)
next
  case (drain_swap a b pairs)
  then show ?thesis
    using root_inv_release [OF assms(2), of t a b] root_invD(5) [OF assms(2), of t b] assms(3) by simp
next
  case (drain_lost a b pairs)
  then show ?thesis using root_invD(3) [OF assms(2), of t a] assms(3) by simp
qed (use assms(2,3) in \<open>auto intro!: root_inv_local [of K s]\<close>)

lemma root_inv_thread:
  assumes "thread_step K cfg (pcs t) s p' s'" "root_inv K (s, pcs)" "key_contract K" "config_total cfg"
  shows "root_inv K (s', pcs(t := p'))"
proof -
  consider "op_step K cfg (pcs t) s p' s'" | "claim_step cfg (pcs t) s p' s'"
    | task where "freeze_step task (pcs t) s p' s'" | "rebuild_step K cfg (pcs t) s p' s'"
    | "drain_step (pcs t) s p' s'" | "read_step K (pcs t) s p' s'"
    using assms(1) unfolding thread_step_def by blast
  then show ?thesis
    using root_inv_op [OF _ assms(2) refl assms(3,4)] root_inv_claim [OF _ assms(2) refl]
      root_inv_freezing [OF _ assms(2) refl assms(3)] root_inv_rebuild [OF _ assms(2) refl assms(3,4)]
      root_inv_drain [OF _ assms(2) refl] root_inv_read [OF _ assms(2) refl]
    by cases assumption+
qed

lemma root_inv_start: "world_start K w \<Longrightarrow> root_inv K w"
  by (cases w) (auto simp: world_start_def root_inv_def tree_ok_def)

lemma root_inv_world:
  "world_step K cfg w w' \<Longrightarrow> root_inv K w \<Longrightarrow> key_contract K \<Longrightarrow> config_total cfg \<Longrightarrow> root_inv K w'"
  by (erule world_step.cases) (auto intro: root_inv_thread)

lemma root_inv_reachable:
  "world_reachable K cfg w \<Longrightarrow> key_contract K \<Longrightarrow> config_total cfg \<Longrightarrow> root_inv K w"
  by (induction rule: world_reachable.induct) (auto intro: root_inv_start root_inv_world)

lemma world_reachable_steps:
  "(world_step K cfg)\<^sup>*\<^sup>* w w' \<Longrightarrow> world_reachable K cfg w \<Longrightarrow> world_reachable K cfg w'"
  by (induction rule: rtranclp_induct) (auto intro: world_reachable.step)

end
