(* ===== verification/Root_Runs.thy ===== *)
theory Root_Runs
  imports Root_Facts
begin

text \<open>
  Runs of single threads in the root protocol, step by step, and the operations of the sequential
  map as such runs.
\<close>

subsection \<open>Runs\<close>

lemma thread_stepI:
  "op_step K cfg p s p' s' \<Longrightarrow> thread_step K cfg p s p' s'"
  "claim_step cfg p s p' s' \<Longrightarrow> thread_step K cfg p s p' s'"
  "freeze_step task p s p' s' \<Longrightarrow> thread_step K cfg p s p' s'"
  "rebuild_step K cfg p s p' s' \<Longrightarrow> thread_step K cfg p s p' s'"
  "drain_step p s p' s' \<Longrightarrow> thread_step K cfg p s p' s'"
  "read_step K p s p' s' \<Longrightarrow> thread_step K cfg p s p' s'"
  by (auto simp: thread_step_def)

lemma then_step:
  assumes "(world_step K cfg)\<^sup>*\<^sup>* w (s, pcs)" "thread_step K cfg (pcs t) s p' s'"
  shows "(world_step K cfg)\<^sup>*\<^sup>* w (s', pcs(t := p'))"
  using rtranclp.rtrancl_into_rtrancl [OF assms(1) world_step.intros [of K cfg pcs t s p' s']] assms(2) by simp

lemmas first_step = then_step [OF rtranclp.rtrancl_refl]

text \<open>An update up to its operation on the tree, the operation, a failed validation, and the end.\<close>

lemma run_start:
  assumes "pcs t = Idle" "root_ptr s = (a, False)"
  shows "(world_step K cfg)\<^sup>*\<^sup>* (s, pcs) (s, pcs(t := OpTree op False a))"
proof -
  have "(world_step K cfg)\<^sup>*\<^sup>* (s, pcs) (s, pcs(t := OpLoad op False))"
    by (rule first_step) (simp add: assms(1) thread_stepI(1) op_start)
  from then_step [OF this, of t "OpTree op False a" s] show ?thesis
    by (simp add: thread_stepI(1) op_load assms(2))
qed

lemma run_tree:
  assumes "pcs t = OpTree op f a" "tree_op K cfg (heap s a) op = Some (n', changed)" "length (entries n') \<le> max_pairs"
  shows "(world_step K cfg)\<^sup>*\<^sup>* (s, pcs) (s\<lparr>heap := (heap s)(a := n')\<rparr>, pcs(t := OpCheck op f a changed))"
  by (rule first_step) (simp add: assms thread_stepI(1) op_tree)

lemma run_retry:
  assumes "pcs t = OpCheck op f a changed" "root_ptr s = (b, False)" "a \<noteq> b"
  shows "(world_step K cfg)\<^sup>*\<^sup>* (s, pcs) (s, pcs(t := OpTree op (changed \<or> f) b))"
proof -
  have "(world_step K cfg)\<^sup>*\<^sup>* (s, pcs) (s, pcs(t := OpLoad op (changed \<or> f)))"
    using assms by (intro first_step) (simp add: thread_stepI(1) op_retry)
  from then_step [OF this, of t "OpTree op (changed \<or> f) b" s] show ?thesis
    by (simp add: thread_stepI(1) op_load assms(2))
qed

lemma run_insert_end:
  assumes "pcs t = OpCheck (Put k v) f a changed" "root_ptr s = (a, False)" "changed \<or> f"
    "unat (map_len s + 1) < rebuild_at s"
  shows "(world_step K cfg)\<^sup>*\<^sup>* (s, pcs) (s\<lparr>map_len := map_len s + 1\<rparr>, pcs(t := Idle))"
proof -
  have "(world_step K cfg)\<^sup>*\<^sup>* (s, pcs) (s, pcs(t := OpCount (Put k v)))"
    using op_done [of s a K cfg "Put k v" f changed] assms by (intro first_step) (simp add: thread_stepI(1))
  from then_step [OF this, of t "Threshold (map_len s + 1)" "s\<lparr>map_len := map_len s + 1\<rparr>"]
  have "(world_step K cfg)\<^sup>*\<^sup>* (s, pcs) (s\<lparr>map_len := map_len s + 1\<rparr>, pcs(t := Threshold (map_len s + 1)))"
    by (simp add: thread_stepI(1) op_count_insert)
  from then_step [OF this, of t Idle] show ?thesis
    using claim_read [of cfg "map_len s + 1" "s\<lparr>map_len := map_len s + 1\<rparr>"] assms(4) by (simp add: thread_stepI(2))
qed

text \<open>A replacement: freeze and traverse in one go, then build, swap and finish.\<close>

lemma run_scan:
  assumes "pcs t = TaskLoad task" "root_ptr s = (a, False)" "wf_node K (heap s a)"
  shows "(world_step K cfg)\<^sup>*\<^sup>* (s, pcs) (s\<lparr>root_ptr := (a, True)\<rparr>, pcs(t := Scan task a UNIV (entries (heap s a))))"
proof -
  have "(world_step K cfg)\<^sup>*\<^sup>* (s, pcs) (s, pcs(t := Freeze task a))"
    by (rule first_step) (simp add: assms(1) thread_stepI(3) [OF task_load] assms(2))
  from then_step [OF this, of t "Scan task a {} []"]
  have "(world_step K cfg)\<^sup>*\<^sup>* (s, pcs) (s\<lparr>root_ptr := (a, True)\<rparr>, pcs(t := Scan task a {} []))"
    by (simp add: thread_stepI(3) [OF freeze] assms(2))
  from then_step [OF this, of t] show ?thesis
    using scan [of UNIV "{}" task a "[]" "s\<lparr>root_ptr := (a, True)\<rparr>"] thread_stepI(3)
    by (fastforce simp: lower_set_def iter_collect_entries(3) [OF assms(3)])
qed

lemma run_freeze:
  assumes "pcs t = Idle" "root_ptr s = (a, False)" "wf_node K (heap s a)"
  shows "(world_step K cfg)\<^sup>*\<^sup>* (s, pcs) (s\<lparr>root_ptr := (a, True)\<rparr>, pcs(t := Scan task a UNIV (entries (heap s a))))"
proof -
  have "(world_step K cfg)\<^sup>*\<^sup>* (s, pcs) (s, pcs(t := TaskLoad task))"
    by (rule first_step) (simp add: assms(1) thread_stepI(3) [OF task_start])
  from rtranclp_trans [OF this run_scan [of "pcs(t := TaskLoad task)" t, OF _ assms(2,3)]] show ?thesis by simp
qed

lemma run_drain_end:
  assumes "pcs t = Scan Draining a UNIV pairs" "root_ptr s = (a, True)" "b \<notin> allocated s"
  shows "(world_step K cfg)\<^sup>*\<^sup>* (s, pcs)
    (s\<lparr>heap := (heap s)(b := empty_root), allocated := insert b (allocated s), root_ptr := (b, False),
        map_len := map_len s - of_nat (length pairs), rebuild_at := INITIAL_ROOT_REBUILD_THRESHOLD\<rparr>, pcs(t := Idle))"
proof -
  let ?s = "s\<lparr>heap := (heap s)(b := empty_root), allocated := insert b (allocated s)\<rparr>"
  have "(world_step K cfg)\<^sup>*\<^sup>* (s, pcs) (?s, pcs(t := Swap Draining a b pairs))"
    by (rule first_step) (simp add: assms thread_stepI(5) drain_build)
  from then_step [OF this, of t "Finish Draining pairs" "?s\<lparr>root_ptr := (b, False)\<rparr>"]
  have "(world_step K cfg)\<^sup>*\<^sup>* (s, pcs) (?s\<lparr>root_ptr := (b, False)\<rparr>, pcs(t := Finish Draining pairs))"
    using drain_swap [of ?s a b pairs] by (simp add: assms(2) thread_stepI(5))
  from then_step [OF this, of t Reset "?s\<lparr>root_ptr := (b, False), map_len := map_len s - of_nat (length pairs)\<rparr>"]
    drain_count [of pairs "?s\<lparr>root_ptr := (b, False)\<rparr>"]
  have "(world_step K cfg)\<^sup>*\<^sup>* (s, pcs)
      (?s\<lparr>root_ptr := (b, False), map_len := map_len s - of_nat (length pairs)\<rparr>, pcs(t := Reset))"
    by (simp add: thread_stepI(5))
  from then_step [OF this, of t Idle "?s\<lparr>root_ptr := (b, False), map_len := map_len s - of_nat (length pairs),
      rebuild_at := INITIAL_ROOT_REBUILD_THRESHOLD\<rparr>"]
    drain_reset [of "?s\<lparr>root_ptr := (b, False), map_len := map_len s - of_nat (length pairs)\<rparr>"]
  show ?thesis by (simp add: thread_stepI(5))
qed

lemma run_rebuild_swap:
  assumes "pcs t = Scan Rebuilding a UNIV pairs" "root_ptr s = (a, True)" "b \<notin> allocated s"
    "pairs \<noteq> []" "length pairs \<le> max_pairs" "bulk_load K (cfg\<lparr>range_headroom := Fin 1\<rparr>) pairs = Some (Inr n)"
  shows "(world_step K cfg)\<^sup>*\<^sup>* (s, pcs)
    (s\<lparr>heap := (heap s)(b := n), allocated := insert b (allocated s), root_ptr := (b, False)\<rparr>,
     pcs(t := Finish Rebuilding pairs))"
proof -
  let ?s = "s\<lparr>heap := (heap s)(b := n), allocated := insert b (allocated s)\<rparr>"
  have "(world_step K cfg)\<^sup>*\<^sup>* (s, pcs) (?s, pcs(t := Swap Rebuilding a b pairs))"
    by (rule first_step) (simp add: assms thread_stepI(4) rebuild_build)
  from then_step [OF this, of t "Finish Rebuilding pairs" "?s\<lparr>root_ptr := (b, False)\<rparr>"] show ?thesis
    using rebuild_swap [of ?s a K cfg b pairs] by (simp add: assms(2) thread_stepI(4))
qed

lemma run_read:
  assumes "pcs t = Idle"
  shows "(world_step K cfg)\<^sup>*\<^sup>* (s, pcs) (s, pcs(t := ReadDone k (get K (heap s (fst (root_ptr s))) k)))"
proof -
  have "(world_step K cfg)\<^sup>*\<^sup>* (s, pcs) (s, pcs(t := ReadLoad k))"
    by (rule first_step) (simp add: assms thread_stepI(6) read_start)
  from then_step [OF this, of t "Read k (fst (root_ptr s))" s]
  have "(world_step K cfg)\<^sup>*\<^sup>* (s, pcs) (s, pcs(t := Read k (fst (root_ptr s))))"
    by (simp add: thread_stepI(6) read_load)
  from then_step [OF this, of t] show ?thesis
    using read_tree [of K k "fst (root_ptr s)" s] by (fastforce simp: thread_stepI(6))
qed

lemma run_again:
  assumes "pcs t = ReadDone k r" shows "(world_step K cfg)\<^sup>*\<^sup>* (s, pcs) (s, pcs(t := Idle))"
  by (rule first_step) (simp add: assms thread_stepI(6) read_done)

subsection \<open>The sequential operations\<close>

text \<open>The shared state of a map that no thread has frozen.\<close>

definition holds :: "('k, 'v) shared \<Rightarrow> ('k, 'v) learned_map \<Rightarrow> bool" where
  "holds s m \<longleftrightarrow> (\<exists>a. root_ptr s = (a, False) \<and> heap s a = lm_root m) \<and>
     map_len s = lm_len m \<and> rebuild_at s = next_root_rebuild m \<and> finite (allocated s)"

lemma holds_fresh: "holds s m \<Longrightarrow> \<exists>b. b \<notin> allocated s"
  unfolding holds_def by (metis ex_new_if_finite infinite_UNIV_nat)

lemma root_ptr_idem: "root_ptr s = x \<Longrightarrow> s\<lparr>root_ptr := x\<rparr> = s"
  by (cases s) simp

lemma run_unfreeze:
  assumes "pcs t = Unfreeze a" "root_ptr s = (a, True)"
  shows "(world_step K cfg)\<^sup>*\<^sup>* (s, pcs) (s\<lparr>root_ptr := (a, False)\<rparr>, pcs(t := Idle))"
  by (rule first_step) (simp add: assms thread_stepI(4) rebuild_unfreeze)

lemma alone_rebuild:
  assumes "holds s m" "tree_ok K (lm_root m)" "lm_rebuild K m = Some m'" "pcs t = TaskLoad Rebuilding"
  shows "\<exists>s'. (world_step K (lm_config m))\<^sup>*\<^sup>* (s, pcs) (s', pcs(t := Idle)) \<and> holds s' m' \<and> lm_config m' = lm_config m"
proof -
  let ?cfg = "lm_config m" and ?pairs = "entries (lm_root m)"
  obtain a where a: "root_ptr s = (a, False)" "heap s a = lm_root m" using assms(1) by (auto simp: holds_def)
  let ?s = "s\<lparr>root_ptr := (a, True)\<rparr>" and ?p = "pcs(t := Scan Rebuilding a UNIV ?pairs)"
  have wf: "wf_node K (heap s a)" "length ?pairs \<le> max_pairs" "sorted_pairs (lm_root m) = ?pairs"
    using assms(2) iter_collect_entries(3) [of K "lm_root m"] by (simp_all add: tree_ok_def a(2))
  have scan: "(world_step K ?cfg)\<^sup>*\<^sup>* (s, pcs) (?s, ?p)"
    using run_scan [of pcs t Rebuilding s a K ?cfg] assms(4) a wf(1) by simp
  have undo: "(world_step K ?cfg)\<^sup>*\<^sup>* (s, pcs) (s, pcs(t := Idle))"
    if "rebuild_step K ?cfg (Scan Rebuilding a UNIV ?pairs) ?s (Unfreeze a) ?s"
  proof -
    have "(world_step K ?cfg)\<^sup>*\<^sup>* (s, pcs) (?s, ?p(t := Unfreeze a))"
      by (rule then_step [OF scan]) (simp add: thread_stepI(4) that)
    from rtranclp_trans [OF this run_unfreeze [of _ t a ?s K ?cfg]] show ?thesis
      using a(1) by (simp add: root_ptr_idem)
  qed
  consider "?pairs = []" | e where "?pairs \<noteq> []" "bulk_load K (?cfg\<lparr>range_headroom := Fin 1\<rparr>) ?pairs = Some (Inl e)"
    | n where "?pairs \<noteq> []" "bulk_load K (?cfg\<lparr>range_headroom := Fin 1\<rparr>) ?pairs = Some (Inr n)"
  proof (cases "bulk_load K (?cfg\<lparr>range_headroom := Fin 1\<rparr>) ?pairs")
    case None
    then show ?thesis using that(1) assms(3) by (auto simp: lm_rebuild_def wf(3) Let_def split: if_splits)
  next
    case (Some res)
    then show ?thesis using that by (cases res) blast+
  qed
  then show ?thesis
  proof cases
    case 1
    then show ?thesis using undo assms(1,3) rebuild_empty [of K ?cfg a ?s] by (auto simp: lm_rebuild_def wf(3))
  next
    case (2 e)
    then show ?thesis using undo assms(1,3) rebuild_failed [of ?pairs K ?cfg e a ?s] by (auto simp: lm_rebuild_def wf(3))
  next
    case (3 n)
    obtain b where b: "b \<notin> allocated s" using holds_fresh [OF assms(1)] by blast
    let ?s2 = "?s\<lparr>heap := (heap s)(b := n), allocated := insert b (allocated s), root_ptr := (b, False)\<rparr>"
    have "(world_step K ?cfg)\<^sup>*\<^sup>* (?s, ?p) (?s2, ?p(t := Finish Rebuilding ?pairs))"
      using run_rebuild_swap [of ?p t a ?pairs ?s b K ?cfg n] 3 b wf(2) by simp
    from then_step [OF rtranclp_trans [OF scan this], of t Idle] rebuild_finish [of K ?cfg ?pairs ?s2]
    have "(world_step K ?cfg)\<^sup>*\<^sup>* (s, pcs) (?s2\<lparr>rebuild_at := saturating_mul (length ?pairs) ROOT_REBUILD_GROWTH_FACTOR\<rparr>,
        pcs(t := Idle))"
      by (simp add: thread_stepI(4))
    then show ?thesis using assms(1,3) 3 by (fastforce simp: lm_rebuild_def wf(3) holds_def)
  qed
qed

lemma alone_threshold:
  assumes "holds s m" "tree_ok K (lm_root m)" "maybe_rebuild_root K m len = Some m'" "pcs t = Threshold len"
  shows "\<exists>s'. (world_step K (lm_config m))\<^sup>*\<^sup>* (s, pcs) (s', pcs(t := Idle)) \<and> holds s' m' \<and> lm_config m' = lm_config m"
proof (cases "auto_rebuild (lm_config m) \<and> rebuild_at s \<le> unat len")
  case False
  then have "m' = m" using assms(1,3) by (auto simp: maybe_rebuild_root_def holds_def split: if_splits)
  moreover have "(world_step K (lm_config m))\<^sup>*\<^sup>* (s, pcs) (s, pcs(t := Idle))"
    using claim_read [of "lm_config m" len s] False assms(4)
    by (intro first_step thread_stepI(2)) (simp only: if_not_P if_False)
  ultimately show ?thesis using assms(1) by blast
next
  case True
  let ?r = "rebuild_at s"
  let ?s = "s\<lparr>rebuild_at := saturating_mul ?r ROOT_REBUILD_GROWTH_FACTOR\<rparr>"
  let ?m = "m\<lparr>next_root_rebuild := saturating_mul ?r ROOT_REBUILD_GROWTH_FACTOR\<rparr>"
  have "(world_step K (lm_config m))\<^sup>*\<^sup>* (s, pcs) (s, pcs(t := Claim ?r))"
    using claim_read [of "lm_config m" len s] True assms(4) by (intro first_step thread_stepI(2)) simp
  from then_step [OF this, of t "TaskLoad Rebuilding" ?s]
  have claim: "(world_step K (lm_config m))\<^sup>*\<^sup>* (s, pcs) (?s, pcs(t := TaskLoad Rebuilding))"
    by (simp add: thread_stepI(2) claim_won)
  have "lm_rebuild K ?m = Some m'" "holds ?s ?m"
    using assms(1,3) True by (simp_all add: maybe_rebuild_root_def holds_def)
  from alone_rebuild [OF this(2) _ this(1), of "pcs(t := TaskLoad Rebuilding)" t] assms(2)
  show ?thesis using rtranclp_trans [OF claim] by fastforce
qed

text \<open>An update, as the three operations have it in common.\<close>

lemma alone_update:
  assumes "holds s m" "key_contract K" "config_total (lm_config m)" "tree_ok K (lm_root m)"
    and "length (entries (lm_root m)) < max_pairs" "pcs t = Idle"
    and op: "tree_op K (lm_config m) (lm_root m) op = Some (n, changed)"
    and m': "if \<not> changed then m' = m\<lparr>lm_root := n\<rparr>
      else if \<exists>k. op = Del k then m' = m\<lparr>lm_root := n, lm_len := lm_len m - 1\<rparr>
      else maybe_rebuild_root K (m\<lparr>lm_root := n, lm_len := lm_len m + 1\<rparr>) (lm_len m + 1) = Some m'"
  shows "\<exists>s'. (world_step K (lm_config m))\<^sup>*\<^sup>* (s, pcs) (s', pcs) \<and> holds s' m'"
proof -
  let ?cfg = "lm_config m"
  obtain a where a: "root_ptr s = (a, False)" "heap s a = lm_root m" using assms(1) by (auto simp: holds_def)
  let ?s = "s\<lparr>heap := (heap s)(a := n)\<rparr>"
  have spec: "wf_node K n" "map_of (entries n) =
      (map_of (entries (lm_root m)))(op_key op := op_effect op (map_of (entries (lm_root m))))"
    using tree_op_correct [OF op assms(2-4)] by simp_all
  have fits: "length (entries n) \<le> max_pairs"
    using entries_update_length [OF assms(2) _ spec] assms(4,5) by (auto simp: tree_ok_def split: option.splits if_splits)
  have "(world_step K ?cfg)\<^sup>*\<^sup>* (s, pcs) (s, pcs(t := OpTree op False a))" using run_start [of pcs t s a K ?cfg op] assms(6) a(1) by simp
  moreover have "(world_step K ?cfg)\<^sup>*\<^sup>* (s, pcs(t := OpTree op False a)) (?s, pcs(t := OpCheck op False a changed))"
    using run_tree [of "pcs(t := OpTree op False a)" t op False a K ?cfg s n changed] op fits by (simp add: a(2))
  ultimately have check: "(world_step K ?cfg)\<^sup>*\<^sup>* (s, pcs) (?s, pcs(t := OpCheck op False a changed))" by simp
  from then_step [OF this, of t _ ?s] op_done [of ?s a K ?cfg op False changed]
  have "done": "(world_step K ?cfg)\<^sup>*\<^sup>* (s, pcs) (?s, pcs(t := if changed then OpCount op else Idle))"
    using a(1) by (simp add: thread_stepI(1))
  have idle: "pcs(t := Idle) = pcs" using assms(6) by (simp add: fun_upd_idem)
  show ?thesis
  proof (cases changed)
    case False
    then have "holds ?s m'" using m' assms(1) a(1) by (simp add: holds_def)
    then show ?thesis using False "done" idle by auto
  next
    case True
    show ?thesis
    proof (cases "\<exists>k. op = Del k")
      case del: True
      then have "(world_step K ?cfg)\<^sup>*\<^sup>* (s, pcs) (?s\<lparr>map_len := map_len s - 1\<rparr>, pcs(t := Idle))"
        using then_step [OF "done", of t Idle] op_count_remove [of K ?cfg _ ?s] True by (fastforce simp: thread_stepI(1))
      moreover have "holds (?s\<lparr>map_len := map_len s - 1\<rparr>) m'"
        using m' del True assms(1) a(1) by (auto simp: holds_def)
      ultimately show ?thesis by (auto simp: idle)
    next
      case ins: False
      let ?s1 = "?s\<lparr>map_len := lm_len m + 1\<rparr>" and ?p = "pcs(t := Threshold (lm_len m + 1))"
      let ?m = "m\<lparr>lm_root := n, lm_len := lm_len m + 1\<rparr>"
      have len: "map_len s = lm_len m" using assms(1) by (simp add: holds_def)
      then have count: "(world_step K ?cfg)\<^sup>*\<^sup>* (s, pcs) (?s1, ?p)"
        using then_step [OF "done", of t "Threshold (lm_len m + 1)" ?s1] op_count_insert [of op _ K ?cfg ?s] ins True
        by (fastforce simp: thread_stepI(1))
      have "holds ?s1 ?m" "tree_ok K (lm_root ?m)"
        using assms(1) a(1) spec(1) fits by (auto simp: holds_def tree_ok_def)
      from alone_threshold [OF this, of _ m' ?p t] m' True ins obtain s' where
        "(world_step K ?cfg)\<^sup>*\<^sup>* (?s1, ?p) (s', ?p(t := Idle))" "holds s' m'" by auto
      then show ?thesis using rtranclp_trans [OF count] by (auto simp: idle)
    qed
  qed
qed

text \<open>The three operations, for a map below the bound.\<close>

lemma alone_operations:
  assumes "map_ok K m" "length (map_pairs m) < max_pairs" "holds s m" "pcs t = Idle"
  shows "lm_insert K m k v = Some (m', b) \<Longrightarrow>
      \<exists>s'. (world_step K (lm_config m))\<^sup>*\<^sup>* (s, pcs) (s', pcs) \<and> holds s' m'"
    and "lm_get_or_insert K m k v = Some (m', x) \<Longrightarrow>
      \<exists>s'. (world_step K (lm_config m))\<^sup>*\<^sup>* (s, pcs) (s', pcs) \<and> holds s' m'"
    and "lm_remove K m k = Some (m', b) \<Longrightarrow>
      \<exists>s'. (world_step K (lm_config m))\<^sup>*\<^sup>* (s, pcs) (s', pcs) \<and> holds s' m'"
proof -
  note ok = map_okD [OF assms(1)]
  have tree: "tree_ok K (lm_root m)" "length (entries (lm_root m)) < max_pairs"
    using ok(2,6) assms(2) by (simp_all add: tree_ok_def map_pairs_def)
  note run = alone_update [where pcs = pcs and t = t, OF assms(3) ok(1,3) tree assms(4)]
  show "\<exists>s'. (world_step K (lm_config m))\<^sup>*\<^sup>* (s, pcs) (s', pcs) \<and> holds s' m'"
    if ins: "lm_insert K m k v = Some (m', b)"
  proof -
    obtain n r where n: "tree_insert K (lm_config m) (lm_root m) k v = Some (n, r)"
      using ins by (auto simp: lm_insert_def bind_eq_Some_conv)
    show ?thesis
      by (rule run [of "Put k v" n "r = Inserted"])
        (use ins n in \<open>auto simp: lm_insert_def tree_op.simps Let_def split: if_splits\<close>)
  qed
  show "\<exists>s'. (world_step K (lm_config m))\<^sup>*\<^sup>* (s, pcs) (s', pcs) \<and> holds s' m'"
    if goi: "lm_get_or_insert K m k v = Some (m', x)"
  proof -
    obtain n val r where n: "get_or_insert K (lm_config m) (lm_root m) k v = Some (n, val, r)"
      using goi by (auto simp: lm_get_or_insert_def bind_eq_Some_conv)
    show ?thesis
      by (rule run [of "GetOrPut k v" n "r = Inserted"])
        (use goi n in \<open>auto simp: lm_get_or_insert_def tree_op.simps Let_def split: if_splits\<close>)
  qed
  show "\<exists>s'. (world_step K (lm_config m))\<^sup>*\<^sup>* (s, pcs) (s', pcs) \<and> holds s' m'"
    if del: "lm_remove K m k = Some (m', b)"
  proof -
    obtain n r where n: "remove K (lm_config m) (lm_root m) k = Some (n, r)"
      using del by (auto simp: lm_remove_def bind_eq_Some_conv)
    show ?thesis
      by (rule run [of "Del k" n r])
        (use del n in \<open>auto simp: lm_remove_def tree_op.simps Let_def split: if_splits\<close>)
  qed
qed

end
