(* ===== verification/Root_Properties.thy ===== *)
theory Root_Properties
  imports Root_Runs
begin

text \<open>
  Properties of the map under concurrent updates, lookups, rebuilds and drains, for any number of
  threads and every interleaving.
\<close>

subsection \<open>One step and the content of the root\<close>

lemma root_content_eq: "root_content s = tree_content s (fst (root_ptr s))"
  by (simp add: root_content_def tree_content_def fun_eq_iff)

text \<open>What the thread that swaps in a new tree makes of the content.\<close>

lemma swap_content:
  assumes "root_inv K (s, pcs)" "pcs t = Swap task a b pairs"
  shows "root_ptr s = (a, True)" "tree_content s b = map_of (case task of Rebuilding \<Rightarrow> pairs | Draining \<Rightarrow> [])"
    "k \<notin> busy pcs \<Longrightarrow> map_of pairs k = root_content s k"
proof -
  show root: "root_ptr s = (a, True)" using root_invD(3) [OF assms(1), of t a] assms(2) by simp
  have "snapshot_ok s (busy pcs) (Swap task a b pairs)" using root_invD(9) [OF assms(1), of t] assms(2) by simp
  then show "tree_content s b = map_of (case task of Rebuilding \<Rightarrow> pairs | Draining \<Rightarrow> [])"
    "k \<notin> busy pcs \<Longrightarrow> map_of pairs k = root_content s k"
    by (auto simp: tree_content_def root_content_def agrees_def root fun_eq_iff)
qed

text \<open>Every other step leaves all keys but the one it works on.\<close>

lemma op_step_content:
  assumes "op_step K cfg (pcs t) s p' s'" "root_inv K (s, pcs)" "key_contract K" "config_total cfg" "k \<notin> busy pcs"
  shows "root_content s' k = root_content s k"
  using assms(1)
proof (cases rule: op_step.cases)
  case (op_tree a op n' changed f)
  have "a \<in> allocated s" using root_invD(8) [OF assms(2), of t a] op_tree(1) by simp
  then have "map_of (entries n') = (map_of (entries (heap s a)))(op_key op := op_effect op (map_of (entries (heap s a))))"
    using tree_op_correct [OF op_tree(4) assms(3,4) root_invD(2) [OF assms(2)]] by blast
  moreover have "op_key op \<in> busy pcs"
    using op_tree(1) by (auto simp: busy_def intro!: exI [of _ t])
  ultimately show ?thesis using assms(5) op_tree(3) by (auto simp: root_content_def)
qed (simp_all add: root_content_def)

lemma freeze_step_content: "freeze_step task p s p' s' \<Longrightarrow> root_content s' = root_content s"
  by (erule freeze_step.cases) (simp_all add: root_content_def fun_eq_iff)

lemma rebuild_step_content:
  assumes "rebuild_step K cfg (pcs t) s p' s'" "root_inv K (s, pcs)" "k \<notin> busy pcs"
  shows "root_content s' k = root_content s k"
  using assms(1)
proof (cases rule: rebuild_step.cases)
  case (rebuild_build pairs new_root b a)
  then show ?thesis using root_invD(1) [OF assms(2)] by (auto simp: root_content_def)
next
  case (rebuild_swap a b pairs)
  note swap = swap_content [OF assms(2) rebuild_swap(1)]
  have "root_content s' k = tree_content s b k" by (simp add: rebuild_swap(3) root_content_def tree_content_def)
  then show ?thesis using swap(2,3) assms(3) by simp
qed (simp_all add: root_content_def)

lemma drain_step_content:
  assumes "drain_step (pcs t) s p' s'" "root_inv K (s, pcs)"
  shows "(case pcs t of
       Swap _ _ _ _ \<Rightarrow> root_content s' = Map.empty
     | _ \<Rightarrow> root_content s' = root_content s)"
  using assms(1)
proof (cases rule: drain_step.cases)
  case (drain_build b a pairs)
  then show ?thesis using root_invD(1) [OF assms(2)] by (auto simp: root_content_def)
next
  case (drain_swap a b pairs)
  have "root_content s' = tree_content s b" by (simp add: drain_swap(3) root_content_def tree_content_def fun_eq_iff)
  then show ?thesis using swap_content(2) [OF assms(2) drain_swap(1)] drain_swap(1) by simp
next
  case (drain_lost a b pairs)
  then show ?thesis using root_invD(3) [OF assms(2), of t a] by simp
qed (simp_all add: root_content_def fun_eq_iff)

subsection \<open>A validated update\<close>

text \<open>A tree that is neither the root nor about to become it stays so.\<close>

definition retired :: "nat \<Rightarrow> ('k, 'v) world \<Rightarrow> bool" where
  "retired a = (\<lambda>(s, pcs). a \<in> allocated s \<and> a \<noteq> fst (root_ptr s) \<and> (\<forall>t. installing (pcs t) \<noteq> Some a))"

lemma retired_thread:
  assumes "thread_step K cfg (pcs t) s p' s'" "root_inv K (s, pcs)" "retired a (s, pcs)"
  shows "retired a (s', pcs(t := p'))"
proof -
  have a: "a \<in> allocated s" "a \<noteq> fst (root_ptr s)" "installing (pcs t') \<noteq> Some a" for t'
    using assms(3) by (auto simp: retired_def)
  have "a \<in> allocated s' \<and> a \<noteq> fst (root_ptr s') \<and> installing p' \<noteq> Some a"
    using assms(1) unfolding thread_step_def
  proof (elim disjE exE)
    assume "op_step K cfg (pcs t) s p' s'"
    then show ?thesis by cases (use a in auto)
  next
    assume "claim_step cfg (pcs t) s p' s'"
    then show ?thesis by cases (use a in auto)
  next
    fix task assume "freeze_step task (pcs t) s p' s'"
    then show ?thesis by cases (use a in auto)
  next
    assume "rebuild_step K cfg (pcs t) s p' s'"
    then show ?thesis
      by cases (use a a(3) [of t] root_invD(3) [OF assms(2), of t] in auto)
  next
    assume "drain_step (pcs t) s p' s'"
    then show ?thesis by cases (use a a(3) [of t] in auto)
  next
    assume "read_step K (pcs t) s p' s'"
    then show ?thesis by cases (use a in auto)
  qed
  then show ?thesis using a(3) by (auto simp: retired_def)
qed

lemma retired_steps:
  "(world_step K cfg)\<^sup>*\<^sup>* w w' \<Longrightarrow> root_inv K w \<Longrightarrow> key_contract K \<Longrightarrow> config_total cfg \<Longrightarrow> retired a w \<Longrightarrow> retired a w'"
proof (induction rule: rtranclp_induct)
  case (step w1 w2)
  have "root_inv K w1"
    using step.hyps(1) step.prems(1-3) by (induction rule: rtranclp_induct) (auto intro: root_inv_world)
  then show ?case using step by (auto elim!: world_step.cases intro: retired_thread)
qed

subsection \<open>Small maps\<close>

lemma singleton_entries:
  assumes "key_contract K" "wf_node K n" "map_of (entries n) = [k \<mapsto> v]"
  shows "entries n = [(k, v)]"
proof -
  have "length (entries n) = 1" using key_contract.length_entries [OF assms(1,2)] assms(3) by simp
  then obtain p where "entries n = [p]" by (cases "entries n") auto
  with assms(3) show ?thesis by (cases p) (auto simp: fun_eq_iff split: if_splits)
qed

lemma put_empty:
  assumes "key_contract K" "config_total cfg"
  shows "\<exists>n. tree_op K cfg empty_root (Put k v) = Some (n, True) \<and> wf_node K n \<and> entries n = [(k, v)]"
proof -
  have ok: "tree_ok K empty_root" by (simp add: tree_ok_def wf_empty_root)
  obtain n c where n: "tree_op K cfg empty_root (Put k v) = Some (n, c)"
    using tree_op_returns [OF assms ok, of "Put k v"] by (auto simp: max_pairs_def)
  have "wf_node K n \<and> map_of (entries n) = [k \<mapsto> v] \<and> c"
    using tree_op_correct [OF n assms ok] by simp
  then show ?thesis using n singleton_entries [OF assms(1), of n k v] by simp
qed

text \<open>A map with one pair and no thread running.\<close>

definition one_pair :: "('k::linorder, 'v) node \<Rightarrow> ('k, 'v) shared" where
  "one_pair n = \<lparr>root_ptr = (0, False), heap = (\<lambda>_. n), allocated = {0}, map_len = 1, rebuild_at = 64\<rparr>"

lemma one_pair_reachable:
  "wf_node K n \<Longrightarrow> entries n = [(k, v)] \<Longrightarrow> world_reachable K cfg (one_pair n, \<lambda>_. Idle)"
  by (rule world_reachable.start) (simp add: world_start_def one_pair_def max_pairs_def)

lemma empty_reachable:
  "world_reachable K cfg (\<lparr>root_ptr = (0, False), heap = (\<lambda>_. empty_root), allocated = {0}, map_len = 0, rebuild_at = 64\<rparr>,
     \<lambda>_. Idle)"
  by (rule world_reachable.start) (simp add: world_start_def wf_empty_root)

subsection \<open>What concurrency keeps\<close>

text \<open>
  C32: The sequential map is one thread of the concurrent one: in a state that holds a map
  nobody has frozen, an idle thread can run an insertion, a get_or_insert, a removal, a rebuild
  or a drain step by step, with the automatic rebuild an insertion triggers, and ends idle in a
  state that holds the map of the sequential operation; a lookup ends with the sequential
  result.
\<close>

theorem root_alone:
  assumes "map_ok K m" "lm_length m < max_pairs" "holds s m" "pcs t = Idle"
  shows "(\<exists>m' b s'. lm_insert K m k v = Some (m', b) \<and> (world_step K (lm_config m))\<^sup>*\<^sup>* (s, pcs) (s', pcs) \<and> holds s' m') \<and>
    (\<exists>m' x s'. lm_get_or_insert K m k v = Some (m', x) \<and> (world_step K (lm_config m))\<^sup>*\<^sup>* (s, pcs) (s', pcs) \<and> holds s' m') \<and>
    (\<exists>m' b s'. lm_remove K m k = Some (m', b) \<and> (world_step K (lm_config m))\<^sup>*\<^sup>* (s, pcs) (s', pcs) \<and> holds s' m') \<and>
    (\<exists>m' s'. lm_rebuild K m = Some m' \<and> (world_step K (lm_config m))\<^sup>*\<^sup>* (s, pcs) (s', pcs) \<and> holds s' m') \<and>
    (\<exists>s'. (world_step K (lm_config m))\<^sup>*\<^sup>* (s, pcs) (s', pcs) \<and> holds s' (fst (lm_drain m))) \<and>
    (world_step K (lm_config m))\<^sup>*\<^sup>* (s, pcs) (s, pcs(t := ReadDone k (lm_get K m k)))"
proof (intro conjI)
  let ?cfg = "lm_config m"
  note ok = map_okD [OF assms(1)]
  have room: "length (map_pairs m) < max_pairs" using assms(2) by (simp add: lm_traversals [OF assms(1)])
  have tree: "tree_ok K (lm_root m)" using ok(2,6) by (simp add: tree_ok_def map_pairs_def)
  note run = alone_operations [where pcs = pcs and t = t, OF assms(1) room assms(3,4)]
  show "\<exists>m' b s'. lm_insert K m k v = Some (m', b) \<and> (world_step K ?cfg)\<^sup>*\<^sup>* (s, pcs) (s', pcs) \<and> holds s' m'"
    using lm_insert_correct [OF assms(1) room, of k v] run(1) [of k v] by blast
  show "\<exists>m' x s'. lm_get_or_insert K m k v = Some (m', x) \<and> (world_step K ?cfg)\<^sup>*\<^sup>* (s, pcs) (s', pcs) \<and> holds s' m'"
    using lm_get_or_insert_correct [OF assms(1) room, of k v] run(2) [of k v] by blast
  show "\<exists>m' b s'. lm_remove K m k = Some (m', b) \<and> (world_step K ?cfg)\<^sup>*\<^sup>* (s, pcs) (s', pcs) \<and> holds s' m'"
    using lm_remove_correct [OF assms(1), of k] run(3) [of k] by blast
  show "(world_step K ?cfg)\<^sup>*\<^sup>* (s, pcs) (s, pcs(t := ReadDone k (lm_get K m k)))"
    using run_read [of pcs t K ?cfg s k] assms(3,4) by (auto simp: holds_def lm_get_def)
  have idle: "pcs(t := Idle) = pcs" using assms(4) by (simp add: fun_upd_idem)
  obtain m' where reb: "lm_rebuild K m = Some m'" using lm_rebuild_correct [OF assms(1)] by blast
  have "(world_step K ?cfg)\<^sup>*\<^sup>* (s, pcs) (s, pcs(t := TaskLoad Rebuilding))"
    by (rule first_step) (simp add: assms(4) thread_stepI(3) [OF task_start])
  with alone_rebuild [OF assms(3) tree reb, of "pcs(t := TaskLoad Rebuilding)" t]
  show "\<exists>m' s'. lm_rebuild K m = Some m' \<and> (world_step K ?cfg)\<^sup>*\<^sup>* (s, pcs) (s', pcs) \<and> holds s' m'"
    using reb rtranclp_trans by (fastforce simp: idle)
  obtain a b where a: "root_ptr s = (a, False)" "heap s a = lm_root m" "b \<notin> allocated s"
    using assms(3) holds_fresh [OF assms(3)] by (auto simp: holds_def)
  have "(world_step K ?cfg)\<^sup>*\<^sup>* (s, pcs) (s\<lparr>root_ptr := (a, True)\<rparr>, pcs(t := Scan Draining a UNIV (map_pairs m)))"
    using run_freeze [of pcs t s a K ?cfg Draining] assms(4) a ok(2) by (simp add: map_pairs_def)
  from rtranclp_trans [OF this run_drain_end [of _ t a "map_pairs m" _ b]] a(3)
  have "\<exists>s'. (world_step K ?cfg)\<^sup>*\<^sup>* (s, pcs) (s', pcs) \<and> root_ptr s' = (b, False) \<and> heap s' b = empty_root \<and>
      map_len s' = map_len s - of_nat (length (map_pairs m)) \<and> rebuild_at s' = INITIAL_ROOT_REBUILD_THRESHOLD \<and>
      allocated s' = insert b (allocated s)"
    by (intro exI conjI) (assumption | simp add: idle)+
  then show "\<exists>s'. (world_step K ?cfg)\<^sup>*\<^sup>* (s, pcs) (s', pcs) \<and> holds s' (fst (lm_drain m))"
    using assms(3) lm_traversals(2) [OF assms(1)] by (fastforce simp: holds_def lm_drain_def lm_iter_sorted_def Let_def)
qed

theorem root_alone_witness:
  "\<exists>(s :: (64 word, nat) shared) m b s'. lm_insert unsigned_key lm_new 3 7 = Some (m, b) \<and> holds s lm_new \<and>
     (world_step unsigned_key (lm_config (lm_new :: (64 word, nat) learned_map)))\<^sup>*\<^sup>* (s, \<lambda>_. Idle) (s', \<lambda>_. Idle) \<and> holds s' m"
proof -
  let ?m = "lm_new :: (64 word, nat) learned_map"
  let ?s = "\<lparr>root_ptr = (0, False), heap = (\<lambda>_. lm_root ?m), allocated = {0}, map_len = lm_len ?m,
    rebuild_at = next_root_rebuild ?m\<rparr>"
  have ok: "map_ok unsigned_key ?m" by (rule map_ok_new [OF u64.key_contract_axioms])
  have "lm_length ?m < max_pairs" by (simp add: lm_length_def lm_new_def lm_with_config_def max_pairs_def)
  moreover have "holds ?s ?m" by (simp add: holds_def)
  ultimately show ?thesis using root_alone [OF ok, of ?s "\<lambda>_. Idle" 0 3 7] by blast
qed


text \<open>
  C33: No update is lost to a concurrent rebuild: in every interleaving, a step changes what
  the current tree holds only at keys whose update has started and not yet returned; only the
  swap of a drain does more, and then the tree is empty and the drained pairs are what it held,
  up to those keys.
\<close>

theorem rebuild_loses_nothing:
  assumes "key_contract K" "config_total cfg" "world_reachable K cfg (s, pcs)" "thread_step K cfg (pcs t) s p' s'"
  shows "(case pcs t of
      Swap Draining a b pairs \<Rightarrow>
        root_content s' = Map.empty \<and> (\<forall>k. k \<notin> busy pcs \<longrightarrow> map_of pairs k = root_content s k)
    | _ \<Rightarrow> \<forall>k. k \<notin> busy pcs \<longrightarrow> root_content s' k = root_content s k)"
proof -
  have inv: "root_inv K (s, pcs)" by (rule root_inv_reachable [OF assms(3,1,2)])
  consider "op_step K cfg (pcs t) s p' s'" | "claim_step cfg (pcs t) s p' s'"
    | task where "freeze_step task (pcs t) s p' s'" | "rebuild_step K cfg (pcs t) s p' s'"
    | "drain_step (pcs t) s p' s'" | "read_step K (pcs t) s p' s'"
    using assms(4) unfolding thread_step_def by blast
  then have same: "root_content s' k = root_content s k"
    if "\<nexists>a b pairs. pcs t = Swap Draining a b pairs" "k \<notin> busy pcs" for k
  proof cases
    case 1 then show ?thesis by (rule op_step_content [OF _ inv assms(1,2) that(2)])
  next
    case 2 then show ?thesis by cases (simp_all add: root_content_def)
  next
    case 3 then show ?thesis by (simp add: freeze_step_content)
  next
    case 4 then show ?thesis by (rule rebuild_step_content [OF _ inv that(2)])
  next
    case 5
    from drain_step_content [OF this inv] 5 that(1) show ?thesis
      by (auto elim!: drain_step.cases split: pc.splits task.splits)
  next
    case 6 then show ?thesis by cases simp_all
  qed
  have drain: "root_content s' = Map.empty" if swap: "pcs t = Swap Draining a b pairs" for a b pairs
  proof -
    have "drain_step (pcs t) s p' s'"
      using assms(4) swap
      by (auto simp: thread_step_def elim: op_step.cases claim_step.cases freeze_step.cases rebuild_step.cases
          read_step.cases)
    from drain_step_content [OF this inv] swap show ?thesis by simp
  qed
  show ?thesis
    using same drain swap_content(3) [OF inv] by (auto split: pc.splits task.splits)
qed

theorem rebuild_loses_nothing_witness:
  "\<exists>(s :: (64 word, nat) shared) pcs s' p'. world_reachable unsigned_key config_default (s, pcs) \<and>
    thread_step unsigned_key config_default (pcs 0) s p' s' \<and> root_ptr s' \<noteq> root_ptr s \<and>
    root_content s 7 = Some 70 \<and> root_content s' 7 = Some 70"
proof -
  let ?K = "unsigned_key :: 64 word key_impl"
  obtain n0 :: "(64 word, nat) node" where n0: "wf_node unsigned_key n0" "entries n0 = [(7, 70)]"
    using put_empty [OF u64.key_contract_axioms config_total_default, of 7 70] by blast
  obtain n2 where n2: "bulk_load unsigned_key (config_default\<lparr>range_headroom := Fin 1\<rparr>) [(7 :: 64 word, 70 :: nat)] = Some (Inr n2)"
    using bulk_load_headroom [OF u64.key_contract_axioms config_total_default, of "[(7, 70)]"] by (auto simp: max_pairs_def)
  let ?p1 = "(\<lambda>_. Idle :: (64 word, nat) pc)(0 := Scan Rebuilding 0 UNIV [(7, 70)])"
  let ?s1 = "(one_pair n0)\<lparr>root_ptr := (0, True)\<rparr>"
  let ?s2 = "?s1\<lparr>heap := (heap ?s1)(1 := n2), allocated := insert 1 (allocated ?s1)\<rparr>"
  let ?p2 = "?p1(0 := Swap Rebuilding 0 1 [(7, 70)])"
  have "(world_step ?K config_default)\<^sup>*\<^sup>* (one_pair n0, \<lambda>_. Idle) (?s1, ?p1)"
    using run_freeze [of "\<lambda>_. Idle" 0 "one_pair n0" 0 ?K config_default Rebuilding] n0 by (simp add: one_pair_def)
  then have "world_reachable ?K config_default (?s1, ?p1)"
    using one_pair_reachable [OF n0] by (rule world_reachable_steps)
  moreover have "world_step ?K config_default (?s1, ?p1) (?s2, ?p2)"
    by (rule world_step.intros, rule thread_stepI(4))
      (use rebuild_build [OF _ _ n2, of 1 ?s1 0] in \<open>simp add: one_pair_def max_pairs_def\<close>)
  ultimately have reach: "world_reachable ?K config_default (?s2, ?p2)" by (rule world_reachable.step)
  have swap: "thread_step ?K config_default (?p2 0) ?s2 (Finish Rebuilding [(7, 70)]) (?s2\<lparr>root_ptr := (1, False)\<rparr>)"
    using rebuild_swap [of ?s2 0 ?K config_default 1] by (simp add: thread_stepI(4))
  have "7 \<notin> busy ?p2" by (auto simp: busy_def split: if_splits)
  moreover have "root_content ?s2 7 = Some 70" by (simp add: root_content_def one_pair_def n0(2))
  ultimately have "root_content (?s2\<lparr>root_ptr := (1, False)\<rparr>) 7 = Some 70"
    using rebuild_loses_nothing [OF u64.key_contract_axioms config_total_default reach swap] by simp
  with reach swap \<open>root_content ?s2 7 = Some 70\<close> show ?thesis
    by (intro exI [of _ ?s2] exI [of _ ?p2] exI [of _ "?s2\<lparr>root_ptr := (1, False)\<rparr>"]
        exI [of _ "Finish Rebuilding [(7, 70)]"]) simp
qed


text \<open>
  C34: A validated update took effect: when the root that an insert or remove finds after its
  operation on a tree is, without a tag, the one it loaded before, the operation changed the
  current tree, at its key only, to what the operation is meant to store there.
\<close>

theorem update_lands:
  assumes "key_contract K" "config_total cfg" "world_reachable K cfg (s, pcs)"
    and "pcs t = OpTree op f a" "thread_step K cfg (pcs t) s (OpCheck op f a changed) s1"
    and "(world_step K cfg)\<^sup>*\<^sup>* (s1, pcs(t := OpCheck op f a changed)) (s2, pcs2)" "root_ptr s2 = (a, False)"
  shows "root_content s1 = (root_content s)(op_key op := op_effect op (root_content s)) \<and>
    changed = op_changes op (root_content s)"
proof -
  have inv: "root_inv K (s, pcs)" by (rule root_inv_reachable [OF assms(3,1,2)])
  have inv1: "root_inv K (s1, pcs(t := OpCheck op f a changed))" by (rule root_inv_thread [OF assms(5) inv assms(1,2)])
  have a: "a \<in> allocated s" using root_invD(8) [OF inv, of t] assms(4) by simp
  obtain n' where n': "tree_op K cfg (heap s a) op = Some (n', changed)" "s1 = s\<lparr>heap := (heap s)(a := n')\<rparr>"
    using assms(4,5)
    by (auto simp: thread_step_def elim: op_step.cases claim_step.cases freeze_step.cases rebuild_step.cases
        drain_step.cases read_step.cases)
  note eff = tree_op_correct [OF n'(1) assms(1,2) root_invD(2) [OF inv a]]
  have "a = fst (root_ptr s)"
  proof (rule ccontr)
    assume "a \<noteq> fst (root_ptr s)"
    moreover have "installing (pcs t') \<noteq> Some a" for t'
      using root_invD(7) [OF inv, of t' a t] assms(4) by auto
    ultimately have "retired a (s1, pcs(t := OpCheck op f a changed))"
      using a by (auto simp: retired_def n'(2))
    then have "retired a (s2, pcs2)" by (rule retired_steps [OF assms(6) inv1 assms(1,2)])
    then show False using assms(7) by (simp add: retired_def)
  qed
  then show ?thesis using eff n'(2) by (simp add: root_content_def)
qed

theorem update_lands_witness:
  "\<exists>(s :: (64 word, nat) shared) pcs s1. world_reachable unsigned_key config_default (s, pcs) \<and>
    thread_step unsigned_key config_default (pcs 0) s (OpCheck (Put 7 71) False 0 False) s1 \<and>
    root_content s 7 = Some 70 \<and> root_content s1 7 = Some 71"
proof -
  let ?K = "unsigned_key :: 64 word key_impl"
  obtain n0 :: "(64 word, nat) node" where n0: "wf_node unsigned_key n0" "entries n0 = [(7, 70)]"
    using put_empty [OF u64.key_contract_axioms config_total_default, of 7 70] by blast
  have ok: "tree_ok ?K n0" by (simp add: tree_ok_def n0 max_pairs_def)
  obtain n1 c where n1: "tree_op ?K config_default n0 (Put 7 71) = Some (n1, c)"
    using tree_op_returns [OF u64.key_contract_axioms config_total_default ok, of "Put 7 71"]
    by (auto simp: n0(2) max_pairs_def)
  have eff: "wf_node ?K n1" "map_of (entries n1) = [7 \<mapsto> 71]" "\<not> c"
    using tree_op_correct [OF n1 u64.key_contract_axioms config_total_default ok] by (simp_all add: n0(2))
  let ?p1 = "(\<lambda>_. Idle :: (64 word, nat) pc)(0 := OpTree (Put 7 71) False 0)"
  let ?s1 = "(one_pair n0)\<lparr>heap := (heap (one_pair n0))(0 := n1)\<rparr>"
  have "(world_step ?K config_default)\<^sup>*\<^sup>* (one_pair n0, \<lambda>_. Idle) (one_pair n0, ?p1)"
    by (rule run_start) (simp_all add: one_pair_def)
  then have reach: "world_reachable ?K config_default (one_pair n0, ?p1)"
    using one_pair_reachable [OF n0] by (rule world_reachable_steps)
  have step: "thread_step ?K config_default (?p1 0) (one_pair n0) (OpCheck (Put 7 71) False 0 False) ?s1"
    using op_tree [of ?K config_default "one_pair n0" 0 "Put 7 71" n1 c False] n1 eff(3)
      singleton_entries [OF u64.key_contract_axioms eff(1,2)]
    by (simp add: thread_stepI(1) one_pair_def max_pairs_def)
  have "root_content ?s1 = (root_content (one_pair n0))(7 := Some 71)"
    using update_lands [OF u64.key_contract_axioms config_total_default reach _ step rtranclp.rtrancl_refl]
    by (simp add: one_pair_def)
  moreover have "root_content (one_pair n0) 7 = Some 70" by (simp add: root_content_def one_pair_def n0(2))
  ultimately show ?thesis using reach step
    by (intro exI [of _ "one_pair n0"] exI [of _ ?p1] exI [of _ ?s1]) simp
qed


subsection \<open>What concurrency breaks\<close>

text \<open>
  C35: The number of entries can be wrong for good: when a drain runs between the tree
  operation of an insert and its validation, the pair is drained, inserted again and counted in
  once but counted out as well: no operation is running, the map holds a pair, and its length
  is 0.
\<close>

theorem drain_miscounts:
  assumes "key_contract K" "config_total cfg"
  shows "\<exists>s pcs. world_reachable K cfg (s, pcs) \<and> (\<forall>t. pcs t = Idle) \<and> root_content s = [k \<mapsto> v] \<and> map_len s = 0"
proof -
  obtain n where n: "tree_op K cfg empty_root (Put k v) = Some (n, True)" "wf_node K n" "entries n = [(k, v)]"
    using put_empty [OF assms, of k v] by blast
  let ?s0 = "\<lparr>root_ptr = (0, False), heap = (\<lambda>_. empty_root), allocated = {0}, map_len = 0, rebuild_at = 64\<rparr>
    :: ('a, 'b) shared"
  let ?s1 = "?s0\<lparr>heap := (heap ?s0)(0 := n)\<rparr>"
  let ?s2 = "?s1\<lparr>root_ptr := (0, True)\<rparr>"
  let ?s3 = "?s2\<lparr>heap := (heap ?s2)(1 := empty_root), allocated := insert 1 (allocated ?s2), root_ptr := (1, False),
    map_len := map_len ?s2 - of_nat (length [(k, v)]), rebuild_at := INITIAL_ROOT_REBUILD_THRESHOLD\<rparr>"
  let ?s4 = "?s3\<lparr>heap := (heap ?s3)(1 := n)\<rparr>"
  let ?p0 = "\<lambda>_. Idle :: ('a, 'b) pc"
  let ?p1 = "?p0(0 := OpTree (Put k v) False 0)"
  let ?p2 = "?p1(0 := OpCheck (Put k v) False 0 True)"
  let ?p3 = "?p2(1 := Scan Draining 0 UNIV [(k, v)])"
  let ?p4 = "?p3(1 := Idle)"
  let ?p5 = "?p4(0 := OpTree (Put k v) (True \<or> False) 1)"
  let ?p6 = "?p5(0 := OpCheck (Put k v) (True \<or> False) 1 True)"
  have r1: "(world_step K cfg)\<^sup>*\<^sup>* (?s0, ?p0) (?s0, ?p1)" by (rule run_start) simp_all
  have r2: "(world_step K cfg)\<^sup>*\<^sup>* (?s0, ?p1) (?s1, ?p2)" by (rule run_tree) (simp_all add: n max_pairs_def)
  have r3: "(world_step K cfg)\<^sup>*\<^sup>* (?s1, ?p2) (?s2, ?p3)"
    using run_freeze [of ?p2 1 ?s1 0 K cfg Draining] n(2,3) by simp
  have r4: "(world_step K cfg)\<^sup>*\<^sup>* (?s2, ?p3) (?s3, ?p4)" by (rule run_drain_end [where a = 0]) simp_all
  have r5: "(world_step K cfg)\<^sup>*\<^sup>* (?s3, ?p4) (?s3, ?p5)" by (rule run_retry [where a = 0]) simp_all
  have r6: "(world_step K cfg)\<^sup>*\<^sup>* (?s3, ?p5) (?s4, ?p6)" by (rule run_tree) (simp_all add: n max_pairs_def)
  have r7: "(world_step K cfg)\<^sup>*\<^sup>* (?s4, ?p6) (?s4\<lparr>map_len := map_len ?s4 + 1\<rparr>, ?p6(0 := Idle))"
    by (rule run_insert_end [where a = 1 and changed = True and f = "True \<or> False"]) (simp_all add: INITIAL_ROOT_REBUILD_THRESHOLD_def)
  note reach = world_reachable_steps [OF r7 world_reachable_steps [OF r6 world_reachable_steps [OF r5
        world_reachable_steps [OF r4 world_reachable_steps [OF r3 world_reachable_steps [OF r2
              world_reachable_steps [OF r1 empty_reachable]]]]]]]
  have "root_content (?s4\<lparr>map_len := map_len ?s4 + 1\<rparr>) = [k \<mapsto> v]" by (simp add: root_content_def n(3))
  moreover have "map_len (?s4\<lparr>map_len := map_len ?s4 + 1\<rparr>) = 0" "\<forall>t. (?p6(0 := Idle)) t = Idle" by simp_all
  ultimately show ?thesis using reach by blast
qed

theorem drain_miscounts_witness:
  "\<exists>s pcs. world_reachable unsigned_key config_default (s, pcs) \<and> (\<forall>t. pcs t = Idle) \<and>
     root_content s = [5 :: 64 word \<mapsto> ''x''] \<and> map_len s = 0"
  by (rule drain_miscounts [OF u64.key_contract_axioms config_total_default])


text \<open>
  C36: Lookups are not linearizable with a rebuild of the root: while an insert is in progress,
  one lookup of its key finds the new value and a later one finds nothing, because the rebuild
  had passed the key when the insert changed the tree that is then replaced.
\<close>

theorem read_undone:
  assumes "key_contract K" "config_total cfg" "k0 \<noteq> k"
  shows "\<exists>s1 pcs1 s2 pcs2. world_reachable K cfg (s1, pcs1) \<and> (world_step K cfg)\<^sup>*\<^sup>* (s1, pcs1) (s2, pcs2) \<and>
    pcs1 2 = ReadDone k (Some v) \<and> pcs2 2 = ReadDone k None \<and>
    pcs1 0 = OpCheck (Put k v) False 0 True \<and> pcs2 0 = pcs1 0 \<and>
    pcs1 1 = Scan Rebuilding 0 UNIV [(k0, v0)] \<and> pcs2 1 = Finish Rebuilding [(k0, v0)] \<and>
    (\<forall>t > 2. pcs1 t = Idle \<and> pcs2 t = Idle)"
proof -
  obtain n0 where n0: "wf_node K n0" "entries n0 = [(k0, v0)]" using put_empty [OF assms(1,2), of k0 v0] by blast
  have ok: "tree_ok K n0" by (simp add: tree_ok_def n0 max_pairs_def)
  obtain n1 c where n1: "tree_op K cfg n0 (Put k v) = Some (n1, c)"
    using tree_op_returns [OF assms(1,2) ok, of "Put k v"] by (auto simp: n0(2) max_pairs_def)
  have eff: "wf_node K n1" "map_of (entries n1) = [k0 \<mapsto> v0, k \<mapsto> v]" c
    using tree_op_correct [OF n1 assms(1,2) ok] assms(3) by (simp_all add: n0(2))
  have len: "length (entries n1) \<le> max_pairs"
    using key_contract.length_entries [OF assms(1) eff(1)] by (simp add: eff(2) max_pairs_def card_insert_if)
  obtain n2 where n2: "bulk_load K (cfg\<lparr>range_headroom := Fin 1\<rparr>) [(k0, v0)] = Some (Inr n2)" "wf_node K n2"
    "entries n2 = [(k0, v0)]"
    using bulk_load_headroom [OF assms(1,2), of "[(k0, v0)]"] by (auto simp: max_pairs_def)
  let ?s0 = "one_pair n0"
  let ?s1 = "?s0\<lparr>root_ptr := (0, True)\<rparr>"
  let ?s2 = "?s1\<lparr>heap := (heap ?s1)(0 := n1)\<rparr>"
  let ?s3 = "?s2\<lparr>heap := (heap ?s2)(1 := n2), allocated := insert 1 (allocated ?s2), root_ptr := (1, False)\<rparr>"
  let ?p0 = "\<lambda>_. Idle :: ('a, 'b) pc"
  let ?p1 = "?p0(0 := OpTree (Put k v) False 0)"
  let ?p2 = "?p1(1 := Scan Rebuilding 0 UNIV [(k0, v0)])"
  let ?p3 = "?p2(0 := OpCheck (Put k v) False 0 True)"
  let ?p4 = "?p3(2 := ReadDone k (Some v))"
  let ?p5 = "?p4(2 := Idle)"
  let ?p6 = "?p5(1 := Finish Rebuilding [(k0, v0)])"
  let ?p7 = "?p6(2 := ReadDone k None)"
  have r1: "(world_step K cfg)\<^sup>*\<^sup>* (?s0, ?p0) (?s0, ?p1)" by (rule run_start) (simp_all add: one_pair_def)
  have r2: "(world_step K cfg)\<^sup>*\<^sup>* (?s0, ?p1) (?s1, ?p2)"
    using run_freeze [of ?p1 1 ?s0 0 K cfg Rebuilding] n0 by (simp add: one_pair_def)
  have r3: "(world_step K cfg)\<^sup>*\<^sup>* (?s1, ?p2) (?s2, ?p3)"
    by (rule run_tree) (use n1 eff(3) len in \<open>simp_all add: one_pair_def\<close>)
  have r4: "(world_step K cfg)\<^sup>*\<^sup>* (?s2, ?p3) (?s2, ?p4)"
    using run_read [of ?p3 2 K cfg ?s2 k] get_eq_map_of [OF eff(1), of k] by (simp add: eff(2))
  have 1: "world_reachable K cfg (?s2, ?p4)"
    by (rule world_reachable_steps [OF r4 world_reachable_steps [OF r3 world_reachable_steps [OF r2
          world_reachable_steps [OF r1 one_pair_reachable [OF n0]]]]])
  have r5: "(world_step K cfg)\<^sup>*\<^sup>* (?s2, ?p4) (?s2, ?p5)" by (rule run_again) simp
  have r6: "(world_step K cfg)\<^sup>*\<^sup>* (?s2, ?p5) (?s3, ?p6)"
    by (rule run_rebuild_swap [where a = 0]) (use n2 in \<open>simp_all add: one_pair_def max_pairs_def\<close>)
  have r7: "(world_step K cfg)\<^sup>*\<^sup>* (?s3, ?p6) (?s3, ?p7)"
    using run_read [of ?p6 2 K cfg ?s3 k] get_eq_map_of [OF n2(2), of k] assms(3) by (simp add: n2(3))
  have 2: "(world_step K cfg)\<^sup>*\<^sup>* (?s2, ?p4) (?s3, ?p7)"
    by (rule rtranclp_trans [OF r5 rtranclp_trans [OF r6 r7]])
  show ?thesis
    by (rule exI [of _ ?s2], rule exI [of _ ?p4], rule exI [of _ ?s3], rule exI [of _ ?p7])
      (use 1 2 in simp)
qed

theorem read_undone_witness:
  "\<exists>s1 pcs1 s2 pcs2. world_reachable unsigned_key config_default (s1, pcs1) \<and>
    (world_step unsigned_key config_default)\<^sup>*\<^sup>* (s1, pcs1) (s2, pcs2) \<and>
    pcs1 2 = ReadDone (5 :: 64 word) (Some ''x'') \<and> pcs2 2 = ReadDone 5 None"
  using read_undone [OF u64.key_contract_axioms config_total_default, of 3 5 "''x''" "''y''"] by fastforce

end
