(* ===== verification/Engine_Threads.thy ===== *)
theory Engine_Threads
  imports Engine_Crash
begin

text \<open>
  \<^verbatim>\<open>src/engine.rs\<close> with many threads. The log and the manifest are behind mutexes, the memtable is
  not behind any: what a thread does under a lock, and each call of the memtable, is one step, and the
  steps of the threads interleave in every order. A thread that drains the memtable holds its entries
  until it gets the lock of the manifest. The lock of the log is also taken inside that of the manifest,
  to truncate it; appends that come while the table is written commute with it. Errors end an
  operation and are those of the sequential engine.
\<close>

datatype engine_pc =
    Ready
  | PutLogged bytes bytes
  | DeleteLogged bytes
  | FlushCheck
  | FlushStart
  | FlushWrite "(bytes \<times> bytes) list"
  | GetStart bytes
  | GetTables bytes
  | GetDone bytes "bytes option"

inductive engine_step ::
    "'m memtable_ops \<Rightarrow> engine_pc \<Rightarrow> 'm lsm \<times> disk \<Rightarrow> engine_pc \<Rightarrow> 'm lsm \<times> disk \<Rightarrow> bool" for ops where
  put_log: "append_put key val (e_wal e, d) = (wl, d') \<Longrightarrow>
    engine_step ops Ready (e, d) (PutLogged key val) (e\<lparr>e_wal := wl\<rparr>, d')"
| put_memtable: "mt_insert ops (e_memtable e) key val = Some m \<Longrightarrow>
    engine_step ops (PutLogged key val) (e, d) FlushCheck (e\<lparr>e_memtable := m\<rparr>, d)"
| delete_log: "append_delete key (e_wal e, d) = (wl, d') \<Longrightarrow>
    engine_step ops Ready (e, d) (DeleteLogged key) (e\<lparr>e_wal := wl\<rparr>, d')"
| delete_memtable: "mt_delete ops (e_memtable e) key = Some m \<Longrightarrow>
    engine_step ops (DeleteLogged key) (e, d) Ready (e\<lparr>e_memtable := m\<rparr>, d)"
| flush_check: "engine_step ops FlushCheck (e, d)
    (if unat (mt_bytes ops (e_memtable e)) \<ge> e_flush_threshold e then FlushStart else Ready) (e, d)"
| flush_call: "engine_step ops Ready (e, d) FlushStart (e, d)"
| flush_drain: "mt_drain ops (e_memtable e) = (es, mt) \<Longrightarrow>
    engine_step ops FlushStart (e, d) (if es = [] then Ready else FlushWrite es) (e\<lparr>e_memtable := mt\<rparr>, d)"
| flush_write: "flush_entries es (e, d) = Some (s', Inr ()) \<Longrightarrow>
    engine_step ops (FlushWrite es) (e, d) Ready s'"
| get_start: "engine_step ops Ready (e, d) (GetStart key) (e, d)"
| get_memtable: "engine_step ops (GetStart key) (e, d)
    (case mt_get ops (e_memtable e) key of Some v \<Rightarrow> GetDone key (hide_tombstone v) | None \<Rightarrow> GetTables key) (e, d)"
| get_tables: "search_levels d (manifest_levels (e_manifest e)) key = Inr found \<Longrightarrow>
    engine_step ops (GetTables key) (e, d) (GetDone key (Option.bind found hide_tombstone)) (e, d)"
| get_done: "engine_step ops (GetDone key r) (e, d) Ready (e, d)"
| ingest: "ingest_sorted (e, d) kvs = Some (s', Inr n) \<Longrightarrow> engine_step ops Ready (e, d) Ready s'"

type_synonym 'm engine_world = "('m lsm \<times> disk) \<times> (nat \<Rightarrow> engine_pc)"

inductive engine_world_step :: "'m memtable_ops \<Rightarrow> 'm engine_world \<Rightarrow> 'm engine_world \<Rightarrow> bool" for ops where
  "engine_step ops (pcs t) s p' s' \<Longrightarrow> engine_world_step ops (s, pcs) (s', pcs(t := p'))"

subsection \<open>One thread alone\<close>

lemma engine_then:
  assumes "(engine_world_step ops)\<^sup>*\<^sup>* w (s, pcs)" "engine_step ops (pcs t) s p' s'"
  shows "(engine_world_step ops)\<^sup>*\<^sup>* w (s', pcs(t := p'))"
  using rtranclp.rtrancl_into_rtrancl [OF assms(1) engine_world_step.intros [of ops pcs t s p' s']] assms(2) by simp

lemmas engine_first = engine_then [OF rtranclp.rtrancl_refl]

lemma flush_run:
  assumes "flush_memtable ops s = Some (s', Inr ())" "pcs t = FlushStart"
  shows "(engine_world_step ops)\<^sup>*\<^sup>* (s, pcs) (s', pcs(t := Ready))"
proof -
  obtain e d where s: "s = (e, d)" by fastforce
  obtain es mt where drain: "mt_drain ops (e_memtable e) = (es, mt)" by fastforce
  from flush_drain [of ops e es mt d, OF drain]
  have step: "(engine_world_step ops)\<^sup>*\<^sup>* (s, pcs)
      ((e\<lparr>e_memtable := mt\<rparr>, d), pcs(t := if es = [] then Ready else FlushWrite es))"
    unfolding s by (intro engine_first) (simp only: assms(2))
  show ?thesis
  proof (cases "es = []")
    case True
    then show ?thesis using step assms(1) by (simp add: s flush_memtable_def drain)
  next
    case False
    then have "flush_entries es (e\<lparr>e_memtable := mt\<rparr>, d) = Some (s', Inr ())"
      using assms(1) by (simp add: s flush_memtable_def drain)
    from flush_write [OF this, of ops] show ?thesis
      using engine_then [OF step, of t Ready s'] False by simp
  qed
qed

lemma put_run:
  assumes "lsm_put ops s k v = Some (s', Inr ())" "pcs t = Ready"
  shows "(engine_world_step ops)\<^sup>*\<^sup>* (s, pcs) (s', pcs)"
proof -
  obtain e d where s: "s = (e, d)" by fastforce
  obtain wl d1 where wl: "append_put k v (e_wal e, d) = (wl, d1)" by fastforce
  obtain m where m: "mt_insert ops (e_memtable e) k v = Some m"
    and flush: "maybe_flush ops (e\<lparr>e_wal := wl, e_memtable := m\<rparr>, d1) = Some (s', Inr ())"
    using assms(1) by (auto simp: lsm_put_def s wl bind_eq_Some_conv)
  let ?s = "(e\<lparr>e_wal := wl, e_memtable := m\<rparr>, d1)"
  have "(engine_world_step ops)\<^sup>*\<^sup>* (s, pcs) ((e\<lparr>e_wal := wl\<rparr>, d1), pcs(t := PutLogged k v))"
    unfolding s by (intro engine_first) (simp add: assms(2) put_log wl)
  from engine_then [OF this, of t FlushCheck ?s]
  have "(engine_world_step ops)\<^sup>*\<^sup>* (s, pcs) (?s, pcs(t := FlushCheck))"
    using put_memtable [of ops "e\<lparr>e_wal := wl\<rparr>" k v m d1] m by simp
  from engine_then [OF this, of t _ ?s]
  have check: "(engine_world_step ops)\<^sup>*\<^sup>* (s, pcs)
      (?s, pcs(t := if unat (mt_bytes ops m) \<ge> e_flush_threshold e then FlushStart else Ready))"
    using flush_check [of ops "e\<lparr>e_wal := wl, e_memtable := m\<rparr>" d1] by simp
  show ?thesis
  proof (cases "unat (mt_bytes ops m) \<ge> e_flush_threshold e")
    case True
    then have "(engine_world_step ops)\<^sup>*\<^sup>* (?s, pcs(t := FlushStart)) (s', pcs(t := FlushStart, t := Ready))"
      using flush by (intro flush_run) (simp_all add: maybe_flush_def)
    then show ?thesis using rtranclp_trans [OF check] True assms(2) by (simp add: fun_upd_idem)
  next
    case False
    then show ?thesis using check flush assms(2) by (simp add: maybe_flush_def fun_upd_idem)
  qed
qed

lemma delete_run:
  assumes "lsm_delete ops s k = Some (s', Inr ())" "pcs t = Ready"
  shows "(engine_world_step ops)\<^sup>*\<^sup>* (s, pcs) (s', pcs)"
proof -
  obtain e d where s: "s = (e, d)" by fastforce
  obtain wl d1 where wl: "append_delete k (e_wal e, d) = (wl, d1)" by fastforce
  obtain m where m: "mt_delete ops (e_memtable e) k = Some m" "s' = (e\<lparr>e_wal := wl, e_memtable := m\<rparr>, d1)"
    using assms(1) by (auto simp: lsm_delete_def s wl)
  have "(engine_world_step ops)\<^sup>*\<^sup>* (s, pcs) ((e\<lparr>e_wal := wl\<rparr>, d1), pcs(t := DeleteLogged k))"
    unfolding s by (intro engine_first) (simp add: assms(2) delete_log wl)
  from engine_then [OF this, of t Ready s'] show ?thesis
    using delete_memtable [of ops "e\<lparr>e_wal := wl\<rparr>" k m d1] m assms(2) by (simp add: fun_upd_idem)
qed

lemma get_run:
  assumes "lsm_get ops s k = Inr r" "pcs t = Ready"
  shows "(engine_world_step ops)\<^sup>*\<^sup>* (s, pcs) (s, pcs(t := GetDone k r))"
proof -
  obtain e d where s: "s = (e, d)" by fastforce
  have "(engine_world_step ops)\<^sup>*\<^sup>* (s, pcs) (s, pcs(t := GetStart k))"
    unfolding s by (intro engine_first) (simp add: assms(2) get_start)
  from engine_then [OF this, of t _ s] get_memtable [of ops k e d]
  have mem: "(engine_world_step ops)\<^sup>*\<^sup>* (s, pcs) (s, pcs(t :=
      case mt_get ops (e_memtable e) k of Some v \<Rightarrow> GetDone k (hide_tombstone v) | None \<Rightarrow> GetTables k))"
    by (simp add: s)
  show ?thesis
  proof (cases "mt_get ops (e_memtable e) k")
    case None
    then obtain found where found: "search_levels d (manifest_levels (e_manifest e)) k = Inr found"
      "r = Option.bind found hide_tombstone"
      using assms(1) by (cases "search_levels d (manifest_levels (e_manifest e)) k")
        (auto simp: lsm_get_def s split: option.splits)
    from engine_then [OF mem, of t "GetDone k r" s] show ?thesis
      using get_tables [OF found(1), of ops] None by (simp add: s found(2))
  next
    case (Some v)
    then show ?thesis using mem assms(1) by (simp add: lsm_get_def s)
  qed
qed

subsection \<open>A flush that is interrupted\<close>

text \<open>
  The thread that drains holds the entries, and for everyone else the engine is one with an empty
  memtable until they are written.
\<close>

abbreviation others_ready :: "engine_pc \<Rightarrow> nat \<Rightarrow> engine_pc" where
  "others_ready p \<equiv> (\<lambda>_. Ready)(0 := p)"

lemma drain_pause:
  assumes "engine_ok lmt_ok (e, d) lss" "lmt_content (e_memtable e) \<noteq> Map.empty"
  obtains es mt where "sorted_keys es" "es \<noteq> []" "map_of es = lmt_content (e_memtable e)"
    "engine_ok lmt_ok (e\<lparr>e_memtable := mt\<rparr>, d) lss" "lmt_content mt = Map.empty" "lmt_byte_count mt = 0"
    "lsm_flush learned_ops (e, d) = flush_entries es (e\<lparr>e_memtable := mt\<rparr>, d)"
    "(engine_world_step learned_ops)\<^sup>*\<^sup>* ((e, d), \<lambda>_. Ready) ((e\<lparr>e_memtable := mt\<rparr>, d), others_ready (FlushWrite es))"
proof -
  have "lmt_ok (e_memtable e)" using assms(1) by (simp add: engine_ok_def)
  then obtain es mt where drain: "mt_drain learned_ops (e_memtable e) = (es, mt)" "lmt_ok mt"
    "lmt_content mt = Map.empty" "sorted_keys es" "map_of es = lmt_content (e_memtable e)"
    "mt_bytes learned_ops mt = 0"
    using learned.drain_law by blast
  have ne: "es \<noteq> []" using drain(5) assms(2) by (metis map_of.simps(1))
  have "(engine_world_step learned_ops)\<^sup>*\<^sup>* ((e, d), \<lambda>_. Ready) ((e, d), others_ready FlushStart)"
    by (intro engine_first) (simp add: flush_call)
  from engine_then [OF this, of 0 "FlushWrite es" "(e\<lparr>e_memtable := mt\<rparr>, d)"]
  have "(engine_world_step learned_ops)\<^sup>*\<^sup>* ((e, d), \<lambda>_. Ready)
      ((e\<lparr>e_memtable := mt\<rparr>, d), others_ready (FlushWrite es))"
    using flush_drain [OF drain(1), of d] ne by simp
  moreover have "lsm_flush learned_ops (e, d) = flush_entries es (e\<lparr>e_memtable := mt\<rparr>, d)"
    using drain(1) ne by (simp add: lsm_flush_def flush_memtable_def)
  ultimately show thesis using that drain ne assms(1) by (simp add: engine_ok_def learned_ops_def)
qed

text \<open>With room on level 0, the held entries become its newest table, and the log is emptied.\<close>

lemma write_drained:
  assumes "engine_ok lmt_ok (e, d) lss" "sorted_keys es" "es \<noteq> []" "flushable (e_manifest e) es"
  obtains e' d' t where "flush_entries es (e, d) = Some ((e', d'), Inr ())"
    "engine_ok lmt_ok (e', d') (add_run 0 es lss)" "e_memtable e' = e_memtable e"
    "store_view (add_run 0 es lss) = store_view lss ++ map_of es"
    "levels (e_manifest e') = (levels (e_manifest e))[0 := levels (e_manifest e) ! 0 @ [t]]"
    "next_id (e_manifest e') = next_id (e_manifest e) + 1"
    "wal_written (e_wal e', d') = []" "e_flush_threshold e' = e_flush_threshold e"
    "(engine_world_step learned_ops)\<^sup>*\<^sup>* ((e, d), others_ready (FlushWrite es)) ((e', d'), \<lambda>_. Ready)"
proof -
  obtain e' d' t where step: "flush_entries es (e, d) = finish_with_compaction (e', d') ()"
    "engine_ok lmt_ok (e', d') (add_run 0 es lss)" "e_memtable e' = e_memtable e"
    "store_view (add_run 0 es lss) = store_view lss ++ map_of es"
    "levels (e_manifest e') = (levels (e_manifest e))[0 := levels (e_manifest e) ! 0 @ [t]]"
    "next_id (e_manifest e') = next_id (e_manifest e) + 1"
    "wal_written (e_wal e', d') = []" "e_flush_threshold e' = e_flush_threshold e"
    using learned.flush_entries_step [OF assms(1,3,2)] assms(4) unfolding flushable_def by blast
  have "levels_short (e_manifest e')"
    using assms(4) levels_short_push [of "levels (e_manifest e)" _ t]
    by (auto simp: flushable_def step(5) levels_short_def)
  then have fl: "flush_entries es (e, d) = Some ((e', d'), Inr ())"
    using maybe_compact_short [of "(e_manifest e', d')"] by (simp add: step(1) finish_with_compaction_def)
  have "(engine_world_step learned_ops)\<^sup>*\<^sup>* ((e, d), others_ready (FlushWrite es))
      ((e', d'), (others_ready (FlushWrite es))(0 := Ready))"
    by (intro engine_first) (simp add: flush_write [OF fl])
  moreover have "(others_ready (FlushWrite es))(0 := Ready) = (\<lambda>_. Ready)" by (simp add: fun_eq_iff)
  ultimately show thesis using that fl step(2-) by simp
qed

text \<open>A put to an engine that holds nothing in memory, far below the threshold.\<close>

lemma put_empty_memtable:
  assumes "engine_ok lmt_ok (e, d) lss" "lmt_content (e_memtable e) = Map.empty" "lmt_byte_count (e_memtable e) = 0"
    and "length k + length v < e_flush_threshold e" "length k < 2 ^ 32" "length v < 2 ^ 32"
  obtains e' d' where "lsm_put learned_ops (e, d) k v = Some ((e', d'), Inr ())"
    "engine_ok lmt_ok (e', d') lss" "lmt_content (e_memtable e') = [k \<mapsto> v]"
    "wal_written (e_wal e', d') = wal_written (e_wal e, d) @ encode_record (WalPut k v)"
    "unat (lmt_byte_count (e_memtable e')) \<le> length k + length v"
    "e_flush_threshold e' = e_flush_threshold e" "e_manifest e' = e_manifest e"
  by (rule apply_step [OF assms(1), of "WalPut k v"])
    (use assms(2-) in \<open>simp_all add: record_bytes_def max_pairs_def\<close>)

end
