(* ===== verification/Engine_Linear.thy ===== *)
theory Engine_Linear
  imports Engine_Threads
begin

text \<open>
  The engine with many threads is a map whose updates take effect when they reach the memtable, as
  long as flushes do not overlap and trigger no compaction: the tables, the entries that a flush
  holds and the memtable together are the initial contents with the updates of the run, in order.
  Ingestion, which puts its pairs below the memtable, is left out of these runs.
\<close>

text \<open>What a thread holds between draining the memtable and writing the table, and what its next step applies.\<close>

fun drained :: "engine_pc \<Rightarrow> (bytes \<times> bytes) list" where
  "drained (FlushWrite es) = es"
| "drained _ = []"

fun applied :: "engine_pc \<Rightarrow> (bytes \<times> bytes) list" where
  "applied (PutLogged key val) = [(key, val)]"
| "applied (DeleteLogged key) = [(key, [])]"
| "applied _ = []"

definition no_flush :: "(nat \<Rightarrow> engine_pc) \<Rightarrow> bool" where
  "no_flush pcs \<longleftrightarrow> (\<forall>t es. pcs t \<noteq> FlushWrite es)"

text \<open>At most one flush is under way, it fits, and the memtable has room.\<close>

definition calm :: "('m \<Rightarrow> bytes \<Rightarrow> bytes option) \<Rightarrow> nat \<Rightarrow> 'm engine_world \<Rightarrow> bool" where
  "calm content room = (\<lambda>((e, d), pcs).
     card (dom (content (e_memtable e))) < room \<and>
     (\<forall>t t'. drained (pcs t) \<noteq> [] \<longrightarrow> drained (pcs t') \<noteq> [] \<longrightarrow> t = t') \<and>
     (\<forall>t. drained (pcs t) \<noteq> [] \<longrightarrow> flushable (e_manifest e) (drained (pcs t))))"

text \<open>Runs through calm worlds, with the updates that reached the memtable.\<close>

inductive engine_run ::
    "'m memtable_ops \<Rightarrow> ('m \<Rightarrow> bytes \<Rightarrow> bytes option) \<Rightarrow> nat \<Rightarrow> 'm engine_world \<Rightarrow>
       (bytes \<times> bytes) list \<Rightarrow> 'm engine_world \<Rightarrow> bool" for ops content room w where
  run_nil: "calm content room w \<Longrightarrow> engine_run ops content room w [] w"
| run_step: "engine_run ops content room w us (s, pcs) \<Longrightarrow> engine_step ops (pcs t) s p s' \<Longrightarrow>
    pcs t \<noteq> Ready \<or> p \<noteq> Ready \<Longrightarrow> calm content room (s', pcs(t := p)) \<Longrightarrow>
    engine_run ops content room w (us @ applied (pcs t)) (s', pcs(t := p))"

text \<open>
  One step either applies its update to the memtable, or moves the memtable into the hands of the
  thread, or moves what the thread holds into the tables.
\<close>

definition step_moves ::
    "('m \<Rightarrow> bytes \<Rightarrow> bytes option) \<Rightarrow> engine_pc \<Rightarrow> 'm \<Rightarrow> run list list \<Rightarrow> engine_pc \<Rightarrow> 'm \<Rightarrow> run list list \<Rightarrow> bool" where
  "step_moves content p m lss p' m' lss' \<longleftrightarrow>
     store_view lss' = store_view lss \<and> content m' = content m ++ map_of (applied p) \<and>
       drained p' = drained p
   \<or> store_view lss' = store_view lss \<and> content m' = Map.empty \<and> applied p = [] \<and>
       drained p = [] \<and> drained p' \<noteq> [] \<and> map_of (drained p') = content m
   \<or> store_view lss' = store_view lss ++ map_of (drained p) \<and> content m' = content m \<and> applied p = [] \<and>
       drained p \<noteq> [] \<and> drained p' = []"

text \<open>
  The parts of a world in a run: tables that are as after the first \<open>n\<close> updates at the key, entries held
  by thread \<open>t0\<close> that bring them up to the first \<open>m\<close> updates, and the memtable with the rest.
\<close>

definition run_parts ::
    "('m \<Rightarrow> bool) \<Rightarrow> ('m \<Rightarrow> bytes \<Rightarrow> bytes option) \<Rightarrow> (bytes \<Rightarrow> bytes option) \<Rightarrow> (bytes \<times> bytes) list \<Rightarrow> bytes \<Rightarrow> 'm engine_world \<Rightarrow>
    run list list \<Rightarrow> nat \<Rightarrow> nat \<Rightarrow> nat \<Rightarrow> bool" where
  "run_parts ok content base us k = (\<lambda>((e, d), pcs) lss t0 n m.
     engine_ok ok (e, d) lss \<and> sorted_keys (drained (pcs t0)) \<and>
     (\<forall>t. pcs t \<noteq> FlushWrite [] \<and> (t \<noteq> t0 \<longrightarrow> drained (pcs t) = [])) \<and>
     store_view lss ++ map_of (drained (pcs t0)) ++ content (e_memtable e) = base ++ map_of (rev us) \<and>
     n \<le> length us \<and> store_view lss k = (base ++ map_of (rev (take n us))) k \<and>
     m \<le> length us \<and> (store_view lss ++ map_of (drained (pcs t0))) k = (base ++ map_of (rev (take m us))) k)"

context write_buffer
begin

text \<open>A write of drained entries with room on level 0.\<close>

lemma flush_entries_short:
  assumes "engine_ok ok (e, d) lss" "es \<noteq> []" "sorted_keys es" "flushable (e_manifest e) es"
  shows "\<exists>s'. flush_entries es (e, d) = Some (s', Inr ()) \<and> engine_ok ok s' (add_run 0 es lss) \<and>
    e_memtable (fst s') = e_memtable e \<and> store_view (add_run 0 es lss) = store_view lss ++ map_of es"
proof -
  obtain e' d' t where step: "flush_entries es (e, d) = finish_with_compaction (e', d') ()"
    "engine_ok ok (e', d') (add_run 0 es lss)" "e_memtable e' = e_memtable e"
    "store_view (add_run 0 es lss) = store_view lss ++ map_of es"
    "levels (e_manifest e') = (levels (e_manifest e))[0 := levels (e_manifest e) ! 0 @ [t]]"
    using flush_entries_step [OF assms(1-3)] assms(4) unfolding flushable_def by blast
  have "levels_short (e_manifest e')"
    using assms(4) levels_short_push [of "levels (e_manifest e)" _ t]
    by (auto simp: flushable_def step(5) levels_short_def)
  then have "flush_entries es (e, d) = Some ((e', d'), Inr ())"
    using maybe_compact_short [of "(e_manifest e', d')"] by (simp add: step(1) finish_with_compaction_def)
  then show ?thesis using step by auto
qed

lemma engine_step_moves:
  assumes "engine_step ops p (e, d) p' (e', d')" "p \<noteq> Ready \<or> p' \<noteq> Ready"
    and "engine_ok ok (e, d) lss" "card (dom (content (e_memtable e))) < room"
    and "p \<noteq> FlushWrite []" "sorted_keys (drained p)" "drained p \<noteq> [] \<Longrightarrow> flushable (e_manifest e) (drained p)"
  shows "\<exists>lss'. engine_ok ok (e', d') lss' \<and> p' \<noteq> FlushWrite [] \<and> sorted_keys (drained p') \<and>
    step_moves content p (e_memtable e) lss p' (e_memtable e') lss'"
proof -
  have logged: "engine_ok ok (e\<lparr>e_wal := wl\<rparr>, d1) lss" if "append_record r (e_wal e, d) = (wl, d1)" for r wl d1
    using write_step [OF assms(3,4), of r] that assms(3) by (auto simp: engine_ok_def)
  show ?thesis
    using assms(1)
  proof (cases rule: engine_step.cases)
    case (put_log key val wl)
    then show ?thesis using logged [of "WalPut key val"] by (auto simp: step_moves_def)
  next
    case (delete_log key wl)
    then show ?thesis using logged [of "WalDelete key"] by (auto simp: step_moves_def)
  next
    case (put_memtable key val m)
    then show ?thesis using insert_law [OF _ assms(4), of key val] assms(3)
      by (auto simp: step_moves_def engine_ok_def)
  next
    case (delete_memtable key m)
    then show ?thesis using insert_law [OF _ assms(4), of key "[]"] assms(3)
      by (auto simp: step_moves_def engine_ok_def delete_law)
  next
    case (flush_drain es mt)
    then show ?thesis using drain_law [of "e_memtable e"] assms(3)
      by (auto simp: step_moves_def engine_ok_def)
  next
    case (flush_write es)
    then show ?thesis using flush_entries_short [OF assms(3), of es] assms(5-7)
      by (auto simp: step_moves_def)
  next
    case (ingest kvs n)
    then show ?thesis using assms(2) by simp
  qed (use assms(3) in \<open>auto simp: step_moves_def split: option.splits if_splits\<close>)
qed

lemma run_parts_step:
  assumes parts: "run_parts ok content base us k ((e, d), pcs) lss t0 n m" and calm: "calm content room ((e, d), pcs)"
    and step: "engine_step ops (pcs t) (e, d) p (e', d')" "pcs t \<noteq> Ready \<or> p \<noteq> Ready"
    and calm': "calm content room ((e', d'), pcs(t := p))"
  shows "\<exists>lss t0 n m. run_parts ok content base (us @ applied (pcs t)) k ((e', d'), pcs(t := p)) lss t0 n m"
proof -
  have part: "engine_ok ok (e, d) lss" "sorted_keys (drained (pcs t0))" "\<And>t. pcs t \<noteq> FlushWrite []"
    "\<And>t. t \<noteq> t0 \<Longrightarrow> drained (pcs t) = []"
    "store_view lss ++ map_of (drained (pcs t0)) ++ content (e_memtable e) = base ++ map_of (rev us)"
    "n \<le> length us" "store_view lss k = (base ++ map_of (rev (take n us))) k"
    "m \<le> length us" "(store_view lss ++ map_of (drained (pcs t0))) k = (base ++ map_of (rev (take m us))) k"
    using parts by (auto simp: run_parts_def)
  have sorted: "sorted_keys (drained (pcs t))" using part(2,4) by (cases "t = t0") simp_all
  have "card (dom (content (e_memtable e))) < room"
    "drained (pcs t) \<noteq> [] \<Longrightarrow> flushable (e_manifest e) (drained (pcs t))"
    using calm by (simp_all add: calm_def)
  from engine_step_moves [OF step part(1) this(1) part(3) sorted this(2)] obtain lss'
    where ok: "engine_ok ok (e', d') lss'" "p \<noteq> FlushWrite []" "sorted_keys (drained p)"
      and moves: "step_moves content (pcs t) (e_memtable e) lss p (e_memtable e') lss'" by blast
  from moves consider
    (update) "store_view lss' = store_view lss" "drained p = drained (pcs t)"
      "content (e_memtable e') = content (e_memtable e) ++ map_of (applied (pcs t))"
  | (drain) "store_view lss' = store_view lss" "content (e_memtable e') = Map.empty" "applied (pcs t) = []"
      "drained (pcs t) = []" "drained p \<noteq> []" "map_of (drained p) = content (e_memtable e)"
  | (saved) "store_view lss' = store_view lss ++ map_of (drained (pcs t))" "applied (pcs t) = []"
      "content (e_memtable e') = content (e_memtable e)" "drained (pcs t) \<noteq> []" "drained p = []"
    unfolding step_moves_def by blast
  then show ?thesis
  proof cases
    case update
    have "map_of (rev (us @ applied (pcs t))) = map_of (rev us) ++ map_of (applied (pcs t))"
      by (cases "pcs t") simp_all
    then have "store_view lss ++ map_of (drained (pcs t0)) ++ content (e_memtable e') =
        base ++ map_of (rev (us @ applied (pcs t)))"
      unfolding update(3) map_add_assoc part(5) by simp
    then have "run_parts ok content base (us @ applied (pcs t)) k ((e', d'), pcs(t := p)) lss' t0 n m"
      using ok part(1-4,6-9) update(1,2) by (auto simp: run_parts_def)
    then show ?thesis by blast
  next
    case drain
    have "t1 = t2" if "drained ((pcs(t := p)) t1) \<noteq> []" "drained ((pcs(t := p)) t2) \<noteq> []" for t1 t2
      using calm' that unfolding calm_def prod.case by blast
    from this [of t] have none: "drained (pcs t') = []" if "t' \<noteq> t" for t'
      using drain(5) that by (metis fun_upd_other fun_upd_same)
    have "drained (pcs t0) = []" using drain(4) none by (cases "t0 = t") simp_all
    then have "run_parts ok content base (us @ applied (pcs t)) k ((e', d'), pcs(t := p)) lss' t n (length us)"
      using ok part drain none by (simp add: run_parts_def)
    then show ?thesis by blast
  next
    case saved
    then have "t = t0" using part(4) by blast
    then have "run_parts ok content base (us @ applied (pcs t)) k ((e', d'), pcs(t := p)) lss' t0 m m"
      using ok part saved by (simp add: run_parts_def)
    then show ?thesis by blast
  qed
qed

lemma engine_run_parts:
  assumes "engine_run ops content room ((e0, d0), pcs0) us w" "engine_ok ok (e0, d0) lss0" "no_flush pcs0"
    and "content (e_memtable e0) k = None"
  shows "calm content room w \<and> (\<exists>lss t0 n m.
    run_parts ok content (store_view lss0 ++ content (e_memtable e0)) us k w lss t0 n m)"
  using assms(1)
proof induction
  case run_nil
  have none: "drained (pcs0 t) = []" for t using assms(3) by (cases "pcs0 t") (simp_all add: no_flush_def)
  have "(store_view lss0 ++ content (e_memtable e0)) k = store_view lss0 k"
    using assms(4) by (simp add: map_add_def)
  then have "run_parts ok content (store_view lss0 ++ content (e_memtable e0)) [] k ((e0, d0), pcs0) lss0 0 0 0"
    using assms(2,3) by (simp add: run_parts_def no_flush_def none)
  then show ?case using run_nil by blast
next
  case (run_step us s pcs t p s')
  obtain e d e' d' where s: "s = (e, d)" "s' = (e', d')" by fastforce
  show ?case using run_step run_parts_step [of _ us k e d pcs] unfolding s by blast
qed

text \<open>What lookups return when nobody holds entries at the end, and what a lookup finds in the tables.\<close>

lemma engine_run_get:
  assumes "engine_run ops content room (s0, pcs0) us (s, pcs)" "engine_ok ok s0 lss0" "no_flush pcs0" "no_flush pcs"
  shows "lsm_get ops s k = (case map_of (rev us) k of Some v \<Rightarrow> Inr (hide_tombstone v) | None \<Rightarrow> lsm_get ops s0 k)"
proof -
  obtain e0 d0 e d where s: "s0 = (e0, d0)" "s = (e, d)" by fastforce
  have "ok (e_memtable e0)" using assms(2) by (simp add: s engine_ok_def)
  then have "finite (dom (content (e_memtable e0)))" by (rule finite_content)
  then obtain k0 where "content (e_memtable e0) k0 = None"
    using ex_new_if_finite [OF infinite_UNIV_listI] by (auto simp: domIff)
  with engine_run_parts [OF assms(1) [unfolded s] assms(2) [unfolded s] assms(3)] obtain lss t0 n m where
    "run_parts ok content (store_view lss0 ++ content (e_memtable e0)) us k0 ((e, d), pcs) lss t0 n m" by blast
  moreover have "drained (pcs t0) = []" using assms(4) by (cases "pcs t0") (simp_all add: no_flush_def)
  ultimately have ok: "engine_ok ok s lss"
    and parts: "store_view lss ++ content (e_memtable e) = store_view lss0 ++ content (e_memtable e0) ++ map_of (rev us)"
    by (simp_all add: run_parts_def s)
  show ?thesis unfolding lsm_get_correct [OF ok] lsm_get_correct [OF assms(2)]
    unfolding engine_view_def s fst_conv parts
    by (simp add: map_add_def split: option.split)
qed

lemma engine_run_tables:
  assumes "engine_run ops content room (s0, pcs0) us (s, pcs)" "engine_ok ok s0 lss0" "no_flush pcs0"
    and "mt_get ops (e_memtable (fst s0)) k = None" "engine_step ops (GetTables k) s (GetDone k r) s'"
  shows "\<exists>n\<le>length us. Inr r =
    (case map_of (rev (take n us)) k of Some v \<Rightarrow> Inr (hide_tombstone v) | None \<Rightarrow> lsm_get ops s0 k)"
proof -
  obtain e0 d0 e d where s: "s0 = (e0, d0)" "s = (e, d)" by fastforce
  have miss: "content (e_memtable e0) k = None" using assms(2,4) by (simp add: s engine_ok_def get_law)
  with engine_run_parts [OF assms(1) [unfolded s] assms(2) [unfolded s] assms(3)] obtain lss t0 n m where
    parts: "run_parts ok content (store_view lss0 ++ content (e_memtable e0)) us k ((e, d), pcs) lss t0 n m" by blast
  have "search_levels d (manifest_levels (e_manifest e)) k = Inr (store_view lss k)"
    using parts search_levels_correct [of d "levels (e_manifest e)" lss 0 k]
    by (simp add: run_parts_def engine_ok_def store_ok_def manifest_levels_def)
  then have "r = Option.bind (store_view lss k) hide_tombstone"
    using assms(5) by (auto simp: s elim: engine_step.cases)
  moreover have "n \<le> length us"
    "store_view lss k = (store_view lss0 ++ content (e_memtable e0) ++ map_of (rev (take n us))) k"
    using parts by (simp_all add: run_parts_def)
  ultimately show ?thesis using lsm_get_correct [OF assms(2), of k] miss
    by (intro exI [of _ n]) (simp add: engine_view_def s map_add_def split: option.split)
qed

text \<open>Steps that begin a run: a put reaches the log, then the memtable.\<close>

lemma run_logged:
  assumes "engine_run ops content room w us ((e, d), pcs)" "pcs t = Ready" "no_flush pcs"
    and "engine_ok ok (e, d) lss" "card (dom (content (e_memtable e))) < room"
  shows "\<exists>wl d'. engine_run ops content room w us ((e\<lparr>e_wal := wl\<rparr>, d'), pcs(t := PutLogged k v)) \<and>
    engine_ok ok (e\<lparr>e_wal := wl\<rparr>, d') lss \<and> no_flush (pcs(t := PutLogged k v)) \<and>
    wal_written (wl, d') = wal_written (e_wal e, d) @ encode_record (WalPut k v)"
proof -
  obtain wl d' where wl: "append_put k v (e_wal e, d) = (wl, d')" by fastforce
  have none: "drained (pcs t) = []" for t using assms(3) by (cases "pcs t") (simp_all add: no_flush_def)
  have "engine_run ops content room w (us @ applied (pcs t)) ((e\<lparr>e_wal := wl\<rparr>, d'), pcs(t := PutLogged k v))"
    by (rule run_step [OF assms(1)]) (use wl assms(2,5) in \<open>simp_all add: put_log calm_def none\<close>)
  then show ?thesis using assms(2,3,4) write_step [OF assms(4,5), of "WalPut k v"] wl
    by (intro exI [of _ wl] exI [of _ d']) (auto simp: no_flush_def engine_ok_def)
qed

lemma run_applied:
  assumes "engine_run ops content room w us ((e, d), pcs)" "pcs t = PutLogged k v" "no_flush pcs"
    and "engine_ok ok (e, d) lss" "Suc (card (dom (content (e_memtable e)))) < room"
  shows "\<exists>mt. engine_run ops content room w (us @ [(k, v)]) ((e\<lparr>e_memtable := mt\<rparr>, d), pcs(t := FlushCheck)) \<and>
    engine_ok ok (e\<lparr>e_memtable := mt\<rparr>, d) lss \<and> no_flush (pcs(t := FlushCheck)) \<and>
    content mt = (content (e_memtable e))(k \<mapsto> v)"
proof -
  have ok: "ok (e_memtable e)" using assms(4) by (simp add: engine_ok_def)
  obtain mt where mt: "mt_insert ops (e_memtable e) k v = Some mt" "ok mt"
    "content mt = (content (e_memtable e))(k \<mapsto> v)"
    using insert_law [OF ok, of k v] assms(5) by auto
  have none: "drained (pcs t) = []" for t using assms(3) by (cases "pcs t") (simp_all add: no_flush_def)
  have "card (dom (content mt)) < room"
    using insert_card [OF ok, of k v] assms(5) unfolding mt(3) by linarith
  then have "engine_run ops content room w (us @ applied (pcs t)) ((e\<lparr>e_memtable := mt\<rparr>, d), pcs(t := FlushCheck))"
    by (intro run_step [OF assms(1)]) (use mt(1) assms(2) in \<open>simp_all add: put_memtable calm_def none\<close>)
  then show ?thesis using assms(2-4) mt(2,3)
    by (intro exI [of _ mt]) (auto simp: no_flush_def engine_ok_def)
qed

text \<open>An engine on an empty directory.\<close>

lemma open_empty:
  assumes "ok mt" "content mt = Map.empty"
  shows "\<exists>e d. lsm_open ops Map.empty mt cfg = Some (d, Inr e) \<and> engine_ok ok (e, d) (replicate num_lsm_levels []) \<and>
    e_memtable e = mt \<and> e_manifest e = manifest_new num_lsm_levels \<and> wal_written (e_wal e, d) = [] \<and> (\<forall>k. lsm_get ops (e, d) k = Inr None)"
proof -
  obtain e d where e: "lsm_open ops Map.empty mt cfg = Some (d, Inr e)" "engine_ok ok (e, d) (replicate num_lsm_levels [])"
    "\<forall>k. engine_view content (e, d) (replicate num_lsm_levels []) k = None"
    using lsm_open_correct [OF assms, of Map.empty "[]" cfg] by (auto simp: wal_recover_def)
  then show ?thesis using lsm_get_correct [OF e(2)]
    by (auto simp: lsm_open_def wal_recover_def wal_open_def wal_written_def written_def)
qed

text \<open>Two threads put to one key; the first to reach the log is the last to reach the memtable.\<close>

lemma crossing_puts:
  assumes pcs: "pcs 0 = Ready" "pcs 1 = Ready" "no_flush pcs"
    and e: "engine_ok ok (e, d) lss" "content (e_memtable e) = Map.empty" "2 < room"
  obtains s where "engine_run ops content room ((e, d), pcs) [(k, v2), (k, v1)] (s, pcs(0 := FlushCheck, 1 := FlushCheck))"
    "engine_ok ok s lss" "no_flush (pcs(0 := FlushCheck, 1 := FlushCheck))"
    "wal_written (e_wal (fst s), snd s) = wal_written (e_wal e, d) @ encode_records [WalPut k v1, WalPut k v2]"
    "content (e_memtable (fst s)) = [k \<mapsto> v1]" "e_manifest (fst s) = e_manifest e"
proof -
  let ?run = "engine_run ops content room ((e, d), pcs)"
  have none: "drained (pcs t) = []" for t using pcs(3) by (cases "pcs t") (simp_all add: no_flush_def)
  have start: "?run [] ((e, d), pcs)" by (rule run_nil) (use e(2,3) in \<open>simp add: calm_def none\<close>)
  obtain wl1 d1 where log1: "?run [] ((e\<lparr>e_wal := wl1\<rparr>, d1), pcs(0 := PutLogged k v1))"
    "engine_ok ok (e\<lparr>e_wal := wl1\<rparr>, d1) lss" "no_flush (pcs(0 := PutLogged k v1))"
    "wal_written (wl1, d1) = wal_written (e_wal e, d) @ encode_record (WalPut k v1)"
    using run_logged [OF start pcs(1,3) e(1), of k v1] e(2,3) by auto
  obtain wl2 d2 where log2: "?run [] ((e\<lparr>e_wal := wl1, e_wal := wl2\<rparr>, d2), pcs(0 := PutLogged k v1, 1 := PutLogged k v2))"
    "engine_ok ok (e\<lparr>e_wal := wl1, e_wal := wl2\<rparr>, d2) lss" "no_flush (pcs(0 := PutLogged k v1, 1 := PutLogged k v2))"
    "wal_written (wl2, d2) = wal_written (wl1, d1) @ encode_record (WalPut k v2)"
    using run_logged [OF log1(1) _ log1(3,2), of 1 k v2] pcs(2) e(2,3) by auto
  let ?e2 = "e\<lparr>e_wal := wl1, e_wal := wl2\<rparr>"
  obtain m1 where put2: "?run [(k, v2)] ((?e2\<lparr>e_memtable := m1\<rparr>, d2), pcs(0 := PutLogged k v1, 1 := PutLogged k v2, 1 := FlushCheck))"
    "engine_ok ok (?e2\<lparr>e_memtable := m1\<rparr>, d2) lss"
    "no_flush (pcs(0 := PutLogged k v1, 1 := PutLogged k v2, 1 := FlushCheck))" "content m1 = [k \<mapsto> v2]"
    using run_applied [OF log2(1) _ log2(3,2), of 1 k v2] e(2,3) by auto
  obtain m2 where put1: "?run [(k, v2), (k, v1)] ((?e2\<lparr>e_memtable := m1, e_memtable := m2\<rparr>, d2),
      pcs(0 := PutLogged k v1, 1 := PutLogged k v2, 1 := FlushCheck, 0 := FlushCheck))"
    "engine_ok ok (?e2\<lparr>e_memtable := m1, e_memtable := m2\<rparr>, d2) lss"
    "no_flush (pcs(0 := PutLogged k v1, 1 := PutLogged k v2, 1 := FlushCheck, 0 := FlushCheck))" "content m2 = [k \<mapsto> v1]"
    using run_applied [OF put2(1) _ put2(3,2), of 0 k v1] e(3) by (auto simp: put2(4))
  have pcs': "pcs(0 := PutLogged k v1, 1 := PutLogged k v2, 1 := FlushCheck, 0 := FlushCheck) =
      pcs(0 := FlushCheck, 1 := FlushCheck)" by (simp add: fun_upd_twist)
  have "wal_written (wl2, d2) = wal_written (e_wal e, d) @ encode_records [WalPut k v1, WalPut k v2]"
    by (simp add: log1(4) log2(4) encode_records_def)
  then show thesis using put1 unfolding pcs' by (intro that) (assumption | simp)+
qed

text \<open>An idle thread flushes a memtable with one entry.\<close>

lemma run_flushed:
  assumes "engine_run ops content room w us ((e, d), pcs)" "pcs t = Ready" "no_flush pcs"
    and "engine_ok ok (e, d) lss" "content (e_memtable e) = [k \<mapsto> v]" "flushable (e_manifest e) [(k, v)]" "1 < room"
  obtains s' where "engine_run ops content room w us (s', pcs)" "engine_ok ok s' (add_run 0 [(k, v)] lss)"
    "store_view (add_run 0 [(k, v)] lss) = store_view lss ++ [k \<mapsto> v]"
proof -
  have none: "drained (pcs t) = []" for t using assms(3) by (cases "pcs t") (simp_all add: no_flush_def)
  have ok: "ok (e_memtable e)" using assms(4) by (simp add: engine_ok_def)
  obtain es mt where drain: "mt_drain ops (e_memtable e) = (es, mt)" "ok mt" "content mt = Map.empty"
    "sorted_keys es" "map_of es = [k \<mapsto> v]" using drain_law [OF ok] assms(5) by auto
  have es: "es = [(k, v)]" by (rule sorted_keys_unique) (simp_all add: drain(4,5))
  let ?e = "e\<lparr>e_memtable := mt\<rparr>"
  have "engine_ok ok (?e, d) lss" using assms(4) drain(2) by (simp add: engine_ok_def)
  from flush_entries_short [OF this, of "[(k, v)]"] obtain s' where s':
    "flush_entries [(k, v)] (?e, d) = Some (s', Inr ())" "engine_ok ok s' (add_run 0 [(k, v)] lss)"
    "e_memtable (fst s') = mt" "store_view (add_run 0 [(k, v)] lss) = store_view lss ++ [k \<mapsto> v]"
    using assms(6) by auto
  have "engine_run ops content room w (us @ applied (pcs t)) ((e, d), pcs(t := FlushStart))"
    by (rule run_step [OF assms(1)]) (use assms(2,5,7) in \<open>simp_all add: flush_call calm_def none\<close>)
  then have start: "engine_run ops content room w us ((e, d), pcs(t := FlushStart))" by (simp add: assms(2))
  have "engine_run ops content room w (us @ applied ((pcs(t := FlushStart)) t))
      ((?e, d), pcs(t := FlushStart, t := FlushWrite [(k, v)]))"
    by (rule run_step [OF start])
      (use flush_drain [OF drain(1), of d] assms(6,7) in \<open>simp_all add: es calm_def none drain(3)\<close>)
  then have held: "engine_run ops content room w us ((?e, d), pcs(t := FlushWrite [(k, v)]))" by simp
  obtain e' d' where s: "s' = (e', d')" by fastforce
  have "calm content room (s', pcs(t := FlushWrite [(k, v)], t := Ready))"
    using s'(3) assms(7) by (simp add: s calm_def none drain(3))
  then have "engine_run ops content room w (us @ applied ((pcs(t := FlushWrite [(k, v)])) t))
      (s', pcs(t := FlushWrite [(k, v)], t := Ready))"
    by (intro run_step [OF held]) (use flush_write [OF s'(1), of ops] in simp_all)
  then show thesis using s'(2,4) by (intro that) (simp_all add: fun_upd_idem assms(2))
qed

text \<open>A crash right after a sync loses nothing of the log: an engine opened then has replayed all of it.\<close>

lemma synced_reopen:
  assumes "engine_ok ok s lss" "wal_written (e_wal (fst s), snd s) = encode_records rs"
    and "list_all record_fits rs" "length rs \<le> room" "ok mt" "content mt = Map.empty"
  shows "\<exists>e' d'. lsm_open ops (snd (wal_sync (e_wal (fst s), snd s))) mt cfg = Some (d', Inr e') \<and>
    (\<forall>k. lsm_get ops (e', d') k = Inr (Option.bind (map_of (rev (map record_pair rs)) k) hide_tombstone))"
proof -
  let ?d = "snd (wal_sync (e_wal (fst s), snd s))"
  have "wal_ok (e_wal (fst s), snd s)" "wal_path (e_wal (fst s)) = wal_name"
    using assms(1) by (auto simp: engine_ok_def)
  then have "?d wal_name = Some (encode_records rs)" using wal_sync_correct(4) assms(2) by fastforce
  then have "wal_recover wal_name ?d = Inr rs"
    using replay_records [OF assms(3), of "[]" "[]"]
    by (simp add: wal_recover_def wal_replay.simps [of "[]"] read_exact_def)
  from lsm_open_correct [OF assms(5,6) this assms(4), of cfg] show ?thesis
    using lsm_get_correct by fastforce
qed

end

text \<open>
  The memtable whose calls are atomic is the one behind a lock; that its byte count is changed outside
  of the lock only affects when a flush starts, which the runs leave open.
\<close>

abbreviation btree_ok :: "btree_memtable lsm \<times> disk \<Rightarrow> run list list \<Rightarrow> bool" where
  "btree_ok \<equiv> engine_ok (\<lambda>t. sorted_keys (bt_map t))"

abbreviation btree_run ::
    "btree_memtable engine_world \<Rightarrow> (bytes \<times> bytes) list \<Rightarrow> btree_memtable engine_world \<Rightarrow> bool" where
  "btree_run \<equiv> engine_run btree_ops (\<lambda>t. map_of (bt_map t)) max_pairs"

lemma bt_new_ok: "sorted_keys (bt_map bt_new)" "map_of (bt_map bt_new) = Map.empty"
  by (simp_all add: bt_new_def)

lemmas btree_open = btree.open_empty [OF bt_new_ok]

text \<open>
  An overwrite of the learned memtable is three operations of its map; a lookup that comes between the
  last two finds nothing in it and goes on to the tables.
\<close>

lemma overwrite_gap:
  assumes "lmt_ok t" "lmt_content t k = Some v" "card (dom (lmt_content t)) < max_pairs"
  shows "\<exists>m m'. lm_insert vec_u8_key (lmt_map t) k v' = Some (m, False) \<and>
    lm_remove vec_u8_key m k = Some (m', True) \<and> lm_get vec_u8_key m' k = None"
proof -
  have ok: "map_ok vec_u8_key (lmt_map t)" using assms(1) by (simp add: lmt_ok_def)
  have room: "length (map_pairs (lmt_map t)) < max_pairs"
    using assms(3) map_content_length [OF ok] by (simp add: lmt_content_def)
  obtain m where m: "lm_insert vec_u8_key (lmt_map t) k v' = Some (m, False)" "map_ok vec_u8_key m"
    "map_content m = (lmt_content t)(k \<mapsto> v')"
    using lm.put_law [OF ok room, of k v'] assms(2) by (auto simp: lmt_content_def)
  obtain m' where "lm_remove vec_u8_key m k = Some (m', True)" "map_ok vec_u8_key m'" "map_content m' = (lmt_content t)(k := None)"
    using lm.del_law [OF m(2), of k] m(3) by auto
  then show ?thesis using m(1) lm_get_content [of vec_u8_key m' k] by auto
qed

end
