(* ===== verification/Thread_Properties.thy ===== *)
theory Thread_Properties
  imports Engine_Linear
begin

text \<open>
  Properties of the engine with many threads: one thread alone runs the operations of the sequential
  engine, and what the threads do to each other around a flush.
\<close>

subsection \<open>Preliminaries\<close>

lemma get_memtable_key:
  assumes "engine_ok lmt_ok (e, d) lss" "lmt_content (e_memtable e) k = Some v" "v \<noteq> []"
  shows "lsm_get learned_ops (e, d) k = Inr (Some v)"
  using assms(2,3) by (simp add: learned.lsm_get_correct [OF assms(1)] engine_view_def hide_tombstone_def)

lemma get_store_key:
  assumes "engine_ok lmt_ok (e, d) lss" "lmt_content (e_memtable e) = Map.empty"
  shows "lsm_get learned_ops (e, d) k = Inr (Option.bind (store_view lss k) hide_tombstone)"
  by (simp add: learned.lsm_get_correct [OF assms(1)] engine_view_def assms(2))

lemma store_view_fresh: "store_view (replicate num_lsm_levels []) = Map.empty"
  by (simp add: store_view_def num_lsm_levels_def numeral_eq_Suc)

text \<open>A fresh engine whose level 0 has at most one table has room for another.\<close>

lemma flushable_second:
  assumes "levels m = (replicate num_lsm_levels [])[0 := ts]" "length ts \<le> 1" "unat (next_id m) \<le> 1"
    and "length k < 2 ^ 32" "length v < 2 ^ 32"
  shows "flushable m [(k, v)]"
  using assms by (auto simp: flushable_def writable_def levels_short_def num_lsm_levels_def
      max_tables_per_level_def weight_def entry_weight_def entry_fits_def nth_list_update)

text \<open>Both races begin with a put to a fresh engine and a flush that stops behind the drain.\<close>

lemma one_entry: "sorted_keys [(k, v)]" "[(k, v)] \<noteq> []"
  by simp_all

lemma fresh_engine_fields:
  "lmt_byte_count (e_memtable (fresh_engine cfg)) = 0" "e_flush_threshold (fresh_engine cfg) = cfg_flush_threshold cfg"
  "levels (e_manifest (fresh_engine cfg)) = (replicate num_lsm_levels [])[0 := []]"
  "next_id (e_manifest (fresh_engine cfg)) = 0"
  by (simp_all add: fresh_engine_def lmt_new_def manifest_new_def num_lsm_levels_def numeral_eq_Suc)

lemma put_and_pause:
  assumes "length k < 2 ^ 32" "length v < 2 ^ 32" "length k + length v < cfg_flush_threshold cfg"
  obtains s1 e d where "lsm_put learned_ops (fresh_engine cfg, [wal_name \<mapsto> []]) k v = Some (s1, Inr ())"
    "(engine_world_step learned_ops)\<^sup>*\<^sup>* (s1, \<lambda>_. Ready) ((e, d), others_ready (FlushWrite [(k, v)]))"
    "engine_ok lmt_ok (e, d) (replicate num_lsm_levels [])" "lmt_content (e_memtable e) = Map.empty"
    "lmt_byte_count (e_memtable e) = 0" "e_flush_threshold e = cfg_flush_threshold cfg"
    "e_manifest e = e_manifest (fresh_engine cfg)"
proof -
  obtain e d where put: "lsm_put learned_ops (fresh_engine cfg, [wal_name \<mapsto> []]) k v = Some ((e, d), Inr ())"
    and e: "engine_ok lmt_ok (e, d) (replicate num_lsm_levels [])" "lmt_content (e_memtable e) = [k \<mapsto> v]"
      "e_flush_threshold e = cfg_flush_threshold cfg" "e_manifest e = e_manifest (fresh_engine cfg)"
    by (rule put_empty_memtable [OF fresh_engine_ok(1,2) fresh_engine_fields(1), of k v])
      (use assms in \<open>simp_all add: fresh_engine_fields(2)\<close>)
  obtain es mt where held: "sorted_keys es" "map_of es = [k \<mapsto> v]"
    "engine_ok lmt_ok (e\<lparr>e_memtable := mt\<rparr>, d) (replicate num_lsm_levels [])"
    "lmt_content mt = Map.empty" "lmt_byte_count mt = 0"
    "(engine_world_step learned_ops)\<^sup>*\<^sup>* ((e, d), \<lambda>_. Ready)
       ((e\<lparr>e_memtable := mt\<rparr>, d), others_ready (FlushWrite es))"
    by (rule drain_pause [OF e(1)]) (simp_all add: e(2))
  have "es = [(k, v)]" by (rule sorted_keys_unique) (simp_all add: held(1,2))
  then show thesis using held e(3,4) by (intro that [OF put, of "e\<lparr>e_memtable := mt\<rparr>" d]) simp_all
qed

text \<open>Two puts that cross and a flush by another thread.\<close>

lemma crossing_puts_flushed:
  assumes pcs: "pcs 0 = Ready" "pcs 1 = Ready" "pcs 3 = Ready" "no_flush pcs"
    and e: "btree_ok (e, d) (replicate num_lsm_levels [])" "e_memtable e = bt_new"
      "e_manifest e = manifest_new num_lsm_levels"
  obtains s lss where "btree_run ((e, d), pcs) [([7], [2]), ([7], [1])] (s, pcs(0 := FlushCheck, 1 := FlushCheck))"
    "btree_ok s lss" "store_view lss [7] = Some [1]"
proof -
  obtain e1 d1 where run: "btree_run ((e, d), pcs) [([7], [2]), ([7], [1])] ((e1, d1), pcs(0 := FlushCheck, 1 := FlushCheck))"
    "no_flush (pcs(0 := FlushCheck, 1 := FlushCheck))" "btree_ok (e1, d1) (replicate num_lsm_levels [])"
    "map_of (bt_map (e_memtable e1)) = [[7] \<mapsto> [1]]" "e_manifest e1 = manifest_new num_lsm_levels"
    by (rule btree.crossing_puts [OF pcs(1,2,4) e(1)]) (auto simp: e(2,3) bt_new_def max_pairs_def)
  have "flushable (e_manifest e1) [([7], [1])]"
    using flushable_second [where ts = "[]", OF fresh_engine_fields(3)] fresh_engine_fields(4)
    by (simp add: run(5) fresh_engine_def)
  moreover have "(pcs(0 := FlushCheck, 1 := FlushCheck)) 3 = Ready" "1 < max_pairs"
    using pcs(3) by (simp_all add: max_pairs_def)
  ultimately obtain s where
    "btree_run ((e, d), pcs) [([7], [2]), ([7], [1])] (s, pcs(0 := FlushCheck, 1 := FlushCheck))"
    "btree_ok s (add_run 0 [([7], [1])] (replicate num_lsm_levels []))"
    "store_view (add_run 0 [([7], [1])] (replicate num_lsm_levels [])) =
      store_view (replicate num_lsm_levels []) ++ [[7] \<mapsto> [1]]"
    using btree.run_flushed [OF run(1) _ run(2,3,4)] by blast
  then show thesis using that by simp
qed

lemma get_tables_found:
  assumes "btree_ok s lss" "store_view lss k = Some v" "v \<noteq> []"
  shows "engine_step btree_ops (GetTables k) s (GetDone k (Some v)) s"
proof -
  obtain e d where s: "s = (e, d)" by fastforce
  have "search_levels d (manifest_levels (e_manifest e)) k = Inr (store_view lss k)"
    using assms(1) by (auto simp: s engine_ok_def store_ok_def manifest_levels_def intro: search_levels_correct)
  from get_tables [OF this, of btree_ops] show ?thesis using assms(2,3) by (simp add: s hide_tombstone_def)
qed

section \<open>Threads\<close>

text \<open>
  The sequential operations are runs of one thread among any others: a put, a delete or a flush
  that succeeds is a sequence of atomic steps of the thread that calls it and ends in the same
  engine and directory, and a lookup's steps change neither and end with its result.
\<close>

lemma engine_alone:
  assumes "pcs t = Ready"
  shows "(lsm_put ops s k v = Some (s', Inr ()) \<longrightarrow> (engine_world_step ops)\<^sup>*\<^sup>* (s, pcs) (s', pcs)) \<and>
    (lsm_delete ops s k = Some (s', Inr ()) \<longrightarrow> (engine_world_step ops)\<^sup>*\<^sup>* (s, pcs) (s', pcs)) \<and>
    (lsm_flush ops s = Some (s', Inr ()) \<longrightarrow> (engine_world_step ops)\<^sup>*\<^sup>* (s, pcs) (s', pcs)) \<and>
    (\<forall>r. lsm_get ops s k = Inr r \<longrightarrow> (engine_world_step ops)\<^sup>*\<^sup>* (s, pcs) (s, pcs(t := GetDone k r)))"
proof -
  have "(engine_world_step ops)\<^sup>*\<^sup>* (s, pcs) (s', pcs)" if "lsm_flush ops s = Some (s', Inr ())"
  proof -
    have "(engine_world_step ops)\<^sup>*\<^sup>* (s, pcs) (s, pcs(t := FlushStart))"
      using flush_call [of ops "fst s" "snd s"] by (intro engine_first) (simp add: assms)
    moreover have "(engine_world_step ops)\<^sup>*\<^sup>* (s, pcs(t := FlushStart)) (s', pcs(t := FlushStart, t := Ready))"
      using that by (intro flush_run) (simp_all add: lsm_flush_def)
    ultimately show ?thesis using assms by (simp add: fun_upd_idem)
  qed
  then show ?thesis using put_run delete_run get_run assms by blast
qed

lemma engine_alone_witness:
  "\<exists>s1 s2 s3. (engine_world_step learned_ops)\<^sup>*\<^sup>*
      ((fresh_engine engine_config_default, [wal_name \<mapsto> []]), \<lambda>_. Ready) (s1, \<lambda>_. Ready) \<and>
    (engine_world_step learned_ops)\<^sup>*\<^sup>* (s1, \<lambda>_. Ready) (s1, (\<lambda>_. Ready)(5 := GetDone [1] (Some [9]))) \<and>
    (engine_world_step learned_ops)\<^sup>*\<^sup>* (s1, \<lambda>_. Ready) (s2, \<lambda>_. Ready) \<and>
    lsm_flush learned_ops s1 = Some (s2, Inr ()) \<and>
    (engine_world_step learned_ops)\<^sup>*\<^sup>* (s2, \<lambda>_. Ready) (s3, \<lambda>_. Ready) \<and>
    lsm_delete learned_ops s2 [1] = Some (s3, Inr ())"
proof -
  let ?E = "fresh_engine engine_config_default" and ?lss = "replicate num_lsm_levels []"
  obtain e d where put: "lsm_put learned_ops (?E, [wal_name \<mapsto> []]) [1] [9] = Some ((e, d), Inr ())"
    and e: "engine_ok lmt_ok (e, d) ?lss" "lmt_content (e_memtable e) = [[1] \<mapsto> [9]]"
      "e_manifest e = e_manifest ?E"
    by (rule put_empty_memtable [OF fresh_engine_ok(1,2), of engine_config_default "[1]" "[9]"])
      (simp_all add: fresh_engine_def lmt_new_def engine_config_default_def default_flush_threshold_def)
  have get: "lsm_get learned_ops (e, d) [1] = Inr (Some [9])"
    using e(2) by (intro get_memtable_key [OF e(1)]) simp_all
  have "flushable (e_manifest e) es" if "sorted_keys es" "map_of es = lmt_content (e_memtable e)" for es
    using fresh_flushable [of es engine_config_default "[1]" "[9]"] that e(2,3) by (simp add: fresh_engine_ok(2))
  then obtain e2 d2 lss2 where flush: "lsm_flush learned_ops (e, d) = Some ((e2, d2), Inr ())"
    "engine_ok lmt_ok (e2, d2) lss2" "lmt_content (e_memtable e2) = Map.empty"
    using learned.flush_memtable_correct [OF e(1)] unfolding lsm_flush_def by fastforce
  obtain s3 where del: "lsm_delete learned_ops (e2, d2) [1] = Some (s3, Inr ())"
    using learned.lsm_delete_correct [OF flush(2), of "[1]"] flush(3) by (auto simp: max_pairs_def)
  have idle: "(\<lambda>_. Ready) (0::nat) = Ready" "(\<lambda>_. Ready) (5::nat) = Ready" by simp_all
  show ?thesis
    using engine_alone [OF idle(1), of learned_ops "(?E, [wal_name \<mapsto> []])" "[1]" "[9]" "(e, d)"] put
      engine_alone [OF idle(2), of learned_ops "(e, d)" "[1]" "[9]" "(e2, d2)"] get flush(1)
      engine_alone [OF idle(1), of learned_ops "(e2, d2)" "[1]" "[9]" s3] del
    by (intro exI [of _ "(e, d)"] exI [of _ "(e2, d2)"] exI [of _ s3]) blast
qed

text \<open>
  C37: A flush truncates the log although it may hold writes that came after the memtable was
  drained: a write that another thread makes between the drain of a flush and its truncation is
  read from the memtable, but it is in no table and no longer in the log, so that a restart
  forgets it and still recovers a later one, even when the log is synced before the crash.
\<close>

theorem flush_erases_log:
  assumes "v2 \<noteq> []" "v3 \<noteq> []" "k2 \<noteq> k3"
    and "length k1 < 2 ^ 32" "length v1 < 2 ^ 32" "length k2 < 2 ^ 32" "length v2 < 2 ^ 32"
    and "length k3 < 2 ^ 32" "length v3 < 2 ^ 32" "length k1 + length v1 < cfg_flush_threshold cfg"
    and "length k2 + length v2 + length k3 + length v3 < cfg_flush_threshold cfg"
  shows "\<exists>s1 s2 s3 s4 s5 e' d'.
    lsm_put learned_ops (fresh_engine cfg, [wal_name \<mapsto> []]) k1 v1 = Some (s1, Inr ()) \<and>
    (engine_world_step learned_ops)\<^sup>*\<^sup>* (s1, \<lambda>_. Ready) (s2, others_ready (FlushWrite [(k1, v1)])) \<and>
    lsm_put learned_ops s2 k2 v2 = Some (s3, Inr ()) \<and>
    (engine_world_step learned_ops)\<^sup>*\<^sup>* (s2, others_ready (FlushWrite [(k1, v1)])) (s3, others_ready (FlushWrite [(k1, v1)])) \<and>
    (engine_world_step learned_ops)\<^sup>*\<^sup>* (s3, others_ready (FlushWrite [(k1, v1)])) (s4, \<lambda>_. Ready) \<and>
    lsm_get learned_ops s4 k2 = Inr (Some v2) \<and>
    search_levels (snd s4) (manifest_levels (e_manifest (fst s4))) k2 = Inr ([k1 \<mapsto> v1] k2) \<and>
    wal_recover wal_name (snd (wal_sync (e_wal (fst s4), snd s4))) = Inr [] \<and>
    lsm_put learned_ops s4 k3 v3 = Some (s5, Inr ()) \<and>
    lsm_open learned_ops (snd (wal_sync (e_wal (fst s5), snd s5))) lmt_new cfg = Some (d', Inr e') \<and>
    lsm_get learned_ops (e', d') k2 = Inr None \<and> lsm_get learned_ops (e', d') k3 = Inr (Some v3)"
proof -
  let ?e = "fresh_engine cfg" and ?lss = "replicate num_lsm_levels []"
  obtain s1 e2 d2 where pause: "lsm_put learned_ops (?e, [wal_name \<mapsto> []]) k1 v1 = Some (s1, Inr ())"
    "(engine_world_step learned_ops)\<^sup>*\<^sup>* (s1, \<lambda>_. Ready) ((e2, d2), others_ready (FlushWrite [(k1, v1)]))"
    and e2: "engine_ok lmt_ok (e2, d2) ?lss" "lmt_content (e_memtable e2) = Map.empty"
      "lmt_byte_count (e_memtable e2) = 0" "e_flush_threshold e2 = cfg_flush_threshold cfg"
      "e_manifest e2 = e_manifest ?e"
    by (rule put_and_pause [OF assms(4,5,10)])
  obtain e3 d3 where put2: "lsm_put learned_ops (e2, d2) k2 v2 = Some ((e3, d3), Inr ())"
    and e3: "engine_ok lmt_ok (e3, d3) ?lss" "lmt_content (e_memtable e3) = [k2 \<mapsto> v2]"
      "unat (lmt_byte_count (e_memtable e3)) \<le> length k2 + length v2"
      "e_flush_threshold e3 = cfg_flush_threshold cfg" "e_manifest e3 = e_manifest ?e"
    by (rule put_empty_memtable [OF e2(1-3), of k2 v2]) (use assms e2(4,5) in simp_all)
  have "flushable (e_manifest e3) [(k1, v1)]"
    by (rule flushable_second [where ts = "[]"])
      (use fresh_engine_fields(3,4) [of cfg] assms(4,5) in \<open>simp_all add: e3(5)\<close>)
  then obtain e4 d4 where e4: "engine_ok lmt_ok (e4, d4) (add_run 0 [(k1, v1)] ?lss)" "e_memtable e4 = e_memtable e3"
    "wal_written (e_wal e4, d4) = []" "e_flush_threshold e4 = e_flush_threshold e3"
    "(engine_world_step learned_ops)\<^sup>*\<^sup>* ((e3, d3), others_ready (FlushWrite [(k1, v1)])) ((e4, d4), \<lambda>_. Ready)"
    by (rule write_drained [OF e3(1) one_entry])
  have small: "unat (lmt_byte_count (e_memtable e4)) + record_bytes (WalPut k3 v3) < e_flush_threshold e4"
    "unat (lmt_byte_count (e_memtable e4)) + record_bytes (WalPut k3 v3) < 2 ^ 64"
    using e3(3,4) assms(6-9,11) by (simp_all add: e4(2,4) record_bytes_def)
  obtain e5 d5 where put3: "lsm_put learned_ops (e4, d4) k3 v3 = Some ((e5, d5), Inr ())"
    and e5: "engine_ok lmt_ok (e5, d5) (add_run 0 [(k1, v1)] ?lss)"
      "wal_written (e_wal e5, d5) = encode_record (WalPut k3 v3)"
    by (rule apply_step [OF e4(1) _ small]) (simp_all add: e4(2,3) e3(2) max_pairs_def)
  have "wal_written (e_wal (fst (e5, d5)), snd (e5, d5)) = encode_records [WalPut k3 v3]"
    using e5(2) by (simp add: encode_records_def)
  from learned.synced_reopen [OF e5(1) this _ _ lmt_new_ok, of cfg] obtain e' d' where
    reopen: "lsm_open learned_ops (snd (wal_sync (e_wal e5, d5))) lmt_new cfg = Some (d', Inr e')"
      "\<forall>k. lsm_get learned_ops (e', d') k = Inr (Option.bind ([k3 \<mapsto> v3] k) hide_tombstone)"
    using assms(8,9) by (auto simp: max_pairs_def)
  have others: "others_ready (FlushWrite [(k1, v1)]) 1 = Ready" by simp
  have "store_ok d4 (e_manifest e4) (add_run 0 [(k1, v1)] ?lss)" "wal_ok (e_wal e4, d4)" "wal_path (e_wal e4) = wal_name"
    using e4(1) by (simp_all add: engine_ok_def)
  moreover have "store_view (add_run 0 [(k1, v1)] ?lss) = [k1 \<mapsto> v1]"
    by (simp add: store_view_add_run num_lsm_levels_def store_view_fresh [unfolded num_lsm_levels_def])
  ultimately have tables: "search_levels d4 (manifest_levels (e_manifest e4)) k2 = Inr ([k1 \<mapsto> v1] k2)"
    and log: "wal_recover wal_name (snd (wal_sync (e_wal e4, d4))) = Inr []"
    using search_levels_correct [of d4 "levels (e_manifest e4)" "add_run 0 [(k1, v1)] ?lss" 0 k2]
      wal_sync_correct(4) [of "(e_wal e4, d4)"] e4(3)
    by (simp_all add: store_ok_def manifest_levels_def wal_recover_def wal_replay.simps [of "[]"] read_exact_def)
  have "lsm_get learned_ops (e4, d4) k2 = Inr (Some v2)"
    using assms(1) by (intro get_memtable_key [OF e4(1)]) (simp_all add: e4(2) e3(2))
  moreover have "lsm_get learned_ops (e', d') k2 = Inr None" "lsm_get learned_ops (e', d') k3 = Inr (Some v3)"
    using reopen(2) assms(2,3) by (simp_all add: hide_tombstone_def)
  ultimately show ?thesis using pause put2 put_run [where pcs = "others_ready (FlushWrite [(k1, v1)])" and t = 1, OF put2 others] e4(5) put3 reopen(1) tables log
    by (intro exI [of _ s1] exI [of _ "(e2, d2)"] exI [of _ "(e3, d3)"]
        exI [of _ "(e4, d4)"] exI [of _ "(e5, d5)"] exI [of _ e'] exI [of _ d']) simp
qed

theorem flush_erases_log_witness:
  "\<exists>s1 s2 s3 s4 s5 e' d'.
    lsm_put learned_ops (fresh_engine engine_config_default, [wal_name \<mapsto> []]) [1] [1] = Some (s1, Inr ()) \<and>
    (engine_world_step learned_ops)\<^sup>*\<^sup>* (s1, \<lambda>_. Ready) (s2, others_ready (FlushWrite [([1], [1])])) \<and>
    lsm_put learned_ops s2 [2] [2] = Some (s3, Inr ()) \<and>
    (engine_world_step learned_ops)\<^sup>*\<^sup>* (s2, others_ready (FlushWrite [([1], [1])])) (s3, others_ready (FlushWrite [([1], [1])])) \<and>
    (engine_world_step learned_ops)\<^sup>*\<^sup>* (s3, others_ready (FlushWrite [([1], [1])])) (s4, \<lambda>_. Ready) \<and>
    lsm_get learned_ops s4 [2] = Inr (Some [2]) \<and>
    search_levels (snd s4) (manifest_levels (e_manifest (fst s4))) [2] = Inr ([[1] \<mapsto> [1]] ([2] :: bytes)) \<and>
    wal_recover wal_name (snd (wal_sync (e_wal (fst s4), snd s4))) = Inr [] \<and>
    lsm_put learned_ops s4 [3] [3] = Some (s5, Inr ()) \<and>
    lsm_open learned_ops (snd (wal_sync (e_wal (fst s5), snd s5))) lmt_new engine_config_default = Some (d', Inr e') \<and>
    lsm_get learned_ops (e', d') [2] = Inr None \<and> lsm_get learned_ops (e', d') [3] = Inr (Some [3])"
  by (rule flush_erases_log) (simp_all add: engine_config_default_def default_flush_threshold_def)


text \<open>
  C38: With the memtable behind a lock, updates of many threads take effect one after the
  other, in the order in which they reach the memtable: after any interleaving of puts,
  deletes, lookups and flushes that do not overlap and trigger no compaction, once no flush
  holds entries, a key reads as the last of these updates, and as before the run when there was
  none.
\<close>

theorem updates_serialize:
  assumes "btree_ok s lss" "no_flush pcs" "no_flush pcs'" "btree_run (s, pcs) us (s', pcs')"
  shows "lsm_get btree_ops s' k =
    (case map_of (rev us) k of Some v \<Rightarrow> Inr (hide_tombstone v) | None \<Rightarrow> lsm_get btree_ops s k)"
  by (rule btree.engine_run_get [OF assms(4,1,2,3)])

theorem updates_serialize_witness:
  "\<exists>e d s pcs. lsm_open btree_ops Map.empty bt_new engine_config_default = Some (d, Inr e) \<and>
    btree_run ((e, d), \<lambda>_. Ready) [([7], [2]), ([7], [1])] (s, pcs) \<and>
    (\<exists>lss. btree_ok s lss \<and> store_view lss [7] = Some [1]) \<and>
    lsm_get btree_ops s [7] = Inr (Some [1]) \<and> lsm_get btree_ops s [8] = Inr None"
proof -
  have none: "no_flush (\<lambda>_. Ready)" by (simp add: no_flush_def)
  obtain e d where e: "lsm_open btree_ops Map.empty bt_new engine_config_default = Some (d, Inr e)"
    "btree_ok (e, d) (replicate num_lsm_levels [])" "e_memtable e = bt_new"
    "e_manifest e = manifest_new num_lsm_levels" "\<forall>k. lsm_get btree_ops (e, d) k = Inr None"
    using btree_open by metis
  let ?pcs = "(\<lambda>_. Ready)(0 := FlushCheck, 1 := FlushCheck)"
  obtain s lss where run: "btree_run ((e, d), \<lambda>_. Ready) [([7], [2]), ([7], [1])] (s, ?pcs)"
    and lss: "btree_ok s lss" "store_view lss [7] = Some [1]"
    by (rule crossing_puts_flushed [OF refl refl refl none e(2-4)])
  have none': "no_flush ?pcs" by (simp add: no_flush_def)
  have "lsm_get btree_ops s [7] = Inr (Some [1])" "lsm_get btree_ops s [8] = Inr None"
    using updates_serialize [OF e(2) none none' run] e(5) by (simp_all add: hide_tombstone_def)
  then show ?thesis using e(1) run lss by blast
qed


text \<open>
  C39: With the memtable behind a lock, lookups of many threads are linearizable in runs in
  which flushes do not overlap and leave level 0 below the number of tables that triggers a
  compaction, and nothing is bulk-ingested: when no flush is under way at the moment the lookup
  misses the memtable, it returns the value of its key after some prefix of the puts and
  deletes that reach the memtable between this access and the search of the tables.
\<close>

theorem lookup_linearizable:
  assumes "btree_ok s lss" "no_flush pcs" "mt_get btree_ops (e_memtable (fst s)) k = None"
    and "btree_run (s, pcs) us (s', pcs')" "engine_step btree_ops (GetTables k) s' (GetDone k r) s''"
  shows "\<exists>n\<le>length us. Inr r =
    (case map_of (rev (take n us)) k of Some v \<Rightarrow> Inr (hide_tombstone v) | None \<Rightarrow> lsm_get btree_ops s k)"
  by (rule btree.engine_run_tables [OF assms(4,1,2,3,5)])

theorem lookup_linearizable_witness:
  "\<exists>e d s pcs. lsm_open btree_ops Map.empty bt_new engine_config_default = Some (d, Inr e) \<and>
    btree_run ((e, d), (\<lambda>_. Ready)(2 := GetTables [7])) [([7], [2]), ([7], [1])] (s, pcs) \<and>
    engine_step btree_ops (GetTables [7]) s (GetDone [7] (Some [1])) s \<and>
    (\<exists>n\<le>2. map_of (rev (take n [([7], [2]), ([7], [1])])) [7 :: u8] = Some [1 :: u8])"
proof -
  let ?us = "[([7], [2]), ([7], [1])] :: (bytes \<times> bytes) list" and ?pcs = "(\<lambda>_. Ready)(2 := GetTables [7])"
  have none: "no_flush ?pcs" by (simp add: no_flush_def)
  obtain e d where e: "lsm_open btree_ops Map.empty bt_new engine_config_default = Some (d, Inr e)"
    "btree_ok (e, d) (replicate num_lsm_levels [])" "e_memtable e = bt_new"
    "e_manifest e = manifest_new num_lsm_levels" "\<forall>k. lsm_get btree_ops (e, d) k = Inr None"
    using btree_open by metis
  obtain s lss where run: "btree_run ((e, d), ?pcs) ?us (s, ?pcs(0 := FlushCheck, 1 := FlushCheck))"
    and s: "btree_ok s lss" "store_view lss [7] = Some [1]"
    by (rule crossing_puts_flushed [OF _ _ _ none e(2-4)]) (auto simp: store_view_fresh)
  from s have step: "engine_step btree_ops (GetTables [7]) s (GetDone [7] (Some [1])) s"
    by (rule get_tables_found) simp
  have miss: "mt_get btree_ops (e_memtable (fst (e, d))) [7] = None" by (simp add: e(3) btree_ops_def bt_get_def bt_new_def)
  from lookup_linearizable [OF e(2) none miss run step] obtain n where
    n: "n \<le> length ?us" "Inr (Some [1]) = (case map_of (rev (take n ?us)) [7] of Some v \<Rightarrow> Inr (hide_tombstone v)
      | None \<Rightarrow> lsm_get btree_ops (e, d) [7])" by blast
  then have "map_of (rev (take n ?us)) [7] = Some [1]"
    using e(5) by (auto simp: hide_tombstone_def split: option.splits if_splits)
  moreover have "n \<le> 2" using n(1) by simp
  ultimately show ?thesis using e(1) run step by blast
qed


text \<open>
  C40: A flush drains the memtable before it takes the lock of the manifest: a thread that
  stops in between makes the value that was just put unreadable, and when another thread writes
  the key again and flushes in the meantime, the first thread installs its older value above
  the newer one, so that the key reads as the old value for good.
\<close>

theorem flush_races:
  assumes "v1 \<noteq> []" "v2 \<noteq> []" "length k < 2 ^ 32" "length v1 < 2 ^ 32" "length v2 < 2 ^ 32"
    and "length k + length v1 < cfg_flush_threshold cfg" "length k + length v2 < cfg_flush_threshold cfg"
  shows "\<exists>s1 s2 s3 s4 s5.
    lsm_put learned_ops (fresh_engine cfg, [wal_name \<mapsto> []]) k v1 = Some (s1, Inr ()) \<and>
    (engine_world_step learned_ops)\<^sup>*\<^sup>* (s1, \<lambda>_. Ready) (s2, others_ready (FlushWrite [(k, v1)])) \<and>
    lsm_get learned_ops s2 k = Inr None \<and>
    lsm_put learned_ops s2 k v2 = Some (s3, Inr ()) \<and>
    lsm_flush learned_ops s3 = Some (s4, Inr ()) \<and> lsm_get learned_ops s4 k = Inr (Some v2) \<and>
    (engine_world_step learned_ops)\<^sup>*\<^sup>* (s4, others_ready (FlushWrite [(k, v1)])) (s5, \<lambda>_. Ready) \<and>
    lsm_get learned_ops s5 k = Inr (Some v1)"
proof -
  let ?e = "fresh_engine cfg" and ?lss = "replicate num_lsm_levels []"
  note fresh = fresh_engine_fields [of cfg]
  obtain s1 e2 d2 where pause: "lsm_put learned_ops (?e, [wal_name \<mapsto> []]) k v1 = Some (s1, Inr ())"
    "(engine_world_step learned_ops)\<^sup>*\<^sup>* (s1, \<lambda>_. Ready) ((e2, d2), others_ready (FlushWrite [(k, v1)]))"
    and e2: "engine_ok lmt_ok (e2, d2) ?lss" "lmt_content (e_memtable e2) = Map.empty"
      "lmt_byte_count (e_memtable e2) = 0" "e_flush_threshold e2 = cfg_flush_threshold cfg"
      "e_manifest e2 = e_manifest ?e"
    by (rule put_and_pause [OF assms(3,4,6)])
  obtain e3 d3 where put2: "lsm_put learned_ops (e2, d2) k v2 = Some ((e3, d3), Inr ())"
    and e3: "engine_ok lmt_ok (e3, d3) ?lss" "lmt_content (e_memtable e3) = [k \<mapsto> v2]"
      "e_manifest e3 = e_manifest ?e"
    by (rule put_empty_memtable [OF e2(1-3), of k v2]) (use assms e2(4,5) in simp_all)
  obtain es' mt' where other: "sorted_keys es'" "es' \<noteq> []" "map_of es' = [k \<mapsto> v2]"
    "engine_ok lmt_ok (e3\<lparr>e_memtable := mt'\<rparr>, d3) ?lss" "lmt_content mt' = Map.empty"
    "lsm_flush learned_ops (e3, d3) = flush_entries es' (e3\<lparr>e_memtable := mt'\<rparr>, d3)"
    by (rule drain_pause [OF e3(1)]) (simp_all add: e3(2))
  have es': "es' = [(k, v2)]" by (rule sorted_keys_unique) (simp_all add: other(1,3))
  have "flushable (e_manifest (e3\<lparr>e_memtable := mt'\<rparr>)) es'"
    unfolding es' by (rule flushable_second [where ts = "[]"])
      (use fresh(3,4) assms(3,5) in \<open>simp_all add: e3(3)\<close>)
  then obtain e4 d4 t where e4:
    "flush_entries es' (e3\<lparr>e_memtable := mt'\<rparr>, d3) = Some ((e4, d4), Inr ())"
    "engine_ok lmt_ok (e4, d4) (add_run 0 es' ?lss)" "e_memtable e4 = mt'"
    "store_view (add_run 0 es' ?lss) = store_view ?lss ++ map_of es'"
    "levels (e_manifest e4) = (levels (e_manifest ?e))[0 := levels (e_manifest ?e) ! 0 @ [t]]"
    "next_id (e_manifest e4) = next_id (e_manifest ?e) + 1"
    by (rule write_drained [OF other(4,1,2)]) (simp_all add: e3(3))
  have "flushable (e_manifest e4) [(k, v1)]"
    by (rule flushable_second [where ts = "[t]"])
      (use fresh(3,4) assms(3,4) in \<open>simp_all add: e4(5,6) num_lsm_levels_def\<close>)
  then obtain e5 d5 where e5: "engine_ok lmt_ok (e5, d5) (add_run 0 [(k, v1)] (add_run 0 es' ?lss))"
    "e_memtable e5 = mt'"
    "store_view (add_run 0 [(k, v1)] (add_run 0 es' ?lss)) = store_view (add_run 0 es' ?lss) ++ map_of [(k, v1)]"
    "(engine_world_step learned_ops)\<^sup>*\<^sup>* ((e4, d4), others_ready (FlushWrite [(k, v1)])) ((e5, d5), \<lambda>_. Ready)"
    by (rule write_drained [OF e4(2) one_entry]) (simp_all add: e4(3))
  have "lsm_get learned_ops (e2, d2) k = Inr None"
    using get_store_key [OF e2(1,2)] by (simp add: store_view_fresh)
  moreover have "lsm_get learned_ops (e4, d4) k = Inr (Some v2)"
    using get_store_key [OF e4(2)] assms(2) by (simp add: e4(3,4) other(3,5) hide_tombstone_def)
  moreover have "lsm_get learned_ops (e5, d5) k = Inr (Some v1)"
    using get_store_key [OF e5(1)] assms(1) by (simp add: e5(2,3) other(5) hide_tombstone_def)
  ultimately show ?thesis using pause put2 other(6) e4(1) e5(4)
    by (intro exI [of _ s1] exI [of _ "(e2, d2)"] exI [of _ "(e3, d3)"] exI [of _ "(e4, d4)"]
        exI [of _ "(e5, d5)"]) simp
qed

theorem flush_races_witness:
  "\<exists>s1 s2 s3 s4 s5.
    lsm_put learned_ops (fresh_engine engine_config_default, [wal_name \<mapsto> []]) [7] [1] = Some (s1, Inr ()) \<and>
    (engine_world_step learned_ops)\<^sup>*\<^sup>* (s1, \<lambda>_. Ready) (s2, others_ready (FlushWrite [([7], [1])])) \<and>
    lsm_get learned_ops s2 [7] = Inr None \<and>
    lsm_put learned_ops s2 [7] [2] = Some (s3, Inr ()) \<and>
    lsm_flush learned_ops s3 = Some (s4, Inr ()) \<and> lsm_get learned_ops s4 [7] = Inr (Some [2]) \<and>
    (engine_world_step learned_ops)\<^sup>*\<^sup>* (s4, others_ready (FlushWrite [([7], [1])])) (s5, \<lambda>_. Ready) \<and>
    lsm_get learned_ops s5 [7] = Inr (Some [1])"
  by (rule flush_races) (simp_all add: engine_config_default_def default_flush_threshold_def)


text \<open>
  The log and the memtable can disagree on the order of two puts: the value that every lookup
  returns is not the one an engine reads after a crash, even when the log is synced before it.
\<close>

lemma log_order_differs:
  assumes "v1 \<noteq> []" "v2 \<noteq> []" "length k < 2 ^ 32" "length v1 < 2 ^ 32" "length v2 < 2 ^ 32"
  shows "\<exists>e d s pcs e' d'. lsm_open btree_ops Map.empty bt_new cfg = Some (d, Inr e) \<and>
    btree_run ((e, d), \<lambda>_. Ready) [(k, v2), (k, v1)] (s, pcs) \<and> lsm_get btree_ops s k = Inr (Some v1) \<and>
    lsm_open btree_ops (snd (wal_sync (e_wal (fst s), snd s))) bt_new cfg = Some (d', Inr e') \<and>
    lsm_get btree_ops (e', d') k = Inr (Some v2)"
proof -
  have none: "no_flush (\<lambda>_. Ready)" by (simp add: no_flush_def)
  obtain e d where e: "lsm_open btree_ops Map.empty bt_new cfg = Some (d, Inr e)"
    "btree_ok (e, d) (replicate num_lsm_levels [])" "e_memtable e = bt_new" "wal_written (e_wal e, d) = []"
    using btree_open by metis
  obtain s pcs where run: "btree_run ((e, d), \<lambda>_. Ready) [(k, v2), (k, v1)] (s, pcs)" "no_flush pcs"
    "btree_ok s (replicate num_lsm_levels [])"
    "wal_written (e_wal (fst s), snd s) = encode_records [WalPut k v1, WalPut k v2]"
    by (rule btree.crossing_puts [OF refl refl none e(2)]) (auto simp: e(3,4) bt_new_def max_pairs_def)
  have "lsm_get btree_ops s k = Inr (Some v1)"
    using btree.engine_run_get [OF run(1) e(2) none run(2), of k] assms(1) by (simp add: hide_tombstone_def)
  moreover obtain e' d' where
    "lsm_open btree_ops (snd (wal_sync (e_wal (fst s), snd s))) bt_new cfg = Some (d', Inr e')"
    "\<forall>k'. lsm_get btree_ops (e', d') k' = Inr (Option.bind (map_of (rev [(k, v1), (k, v2)]) k') hide_tombstone)"
    using btree.synced_reopen [OF run(3,4) _ _ bt_new_ok, of cfg] assms(3-5) by (auto simp: max_pairs_def)
  ultimately show ?thesis using e(1) run(1) assms(2) by (fastforce simp: hide_tombstone_def)
qed

end
