(* ===== verification/Spec2Isabelle.thy ===== *)
theory Spec2Isabelle
  imports LearnedSet_Facts Handles Engine_Compaction Engine_Ingest Tree_Properties Store_Properties Slot_Properties Root_Properties Thread_Properties
begin

text \<open>
  Verification of \<^verbatim>\<open>scry-index\<close>: a concurrent sorted map that predicts the position of a key with
  linear models (\<^verbatim>\<open>src/\<close>), and \<^verbatim>\<open>scry-lsm\<close>, a log-structured store with such a map as its memtable.

  The program. A map is a tree of nodes; a node is a line and an array of slots, a slot is empty, holds a
  pair, a tombstone or a child. The line predicts the one slot in which a key can be: lookups descend along
  predictions (\<^verbatim>\<open>lookup.rs\<close>), inserts claim an empty slot or put a small conflict node into an occupied one
  (\<^verbatim>\<open>insert.rs\<close>), removals leave tombstones (\<^verbatim>\<open>remove.rs\<close>). Lines come from FMCD fitting (\<^verbatim>\<open>model.rs\<close>) over
  model inputs of keys (\<^verbatim>\<open>key.rs\<close>) during bulk construction (\<^verbatim>\<open>build.rs\<close>); subtrees (\<^verbatim>\<open>rebuild.rs\<close>) and
  the root (\<^verbatim>\<open>map.rs\<close>) are rebuilt when they degrade, with the pointer to them tagged meanwhile. The store
  logs a write, applies it to the memtable, flushes a full memtable to a table of level 0, truncates the
  log, and merges a level of four tables into the next one.

  Theories and sources. \<^theory_text>\<open>Prelude\<close> holds machine integers and list lemmas, \<^theory_text>\<open>F64\<close> binary64 as rationals with
  rounding, infinities and NaN, written out for the operations the sources use.
  \<^item> \<^theory_text>\<open>Keys\<close>: the trait as a record \<open>key_impl\<close>, the locale \<open>key_contract\<close> of what the tree relies on, and
    its interpretation for all thirteen key types. \<^theory_text>\<open>Config\<close>: parameters, setters, errors.
  \<^item> \<^theory_text>\<open>LinearModel\<close>, \<^theory_text>\<open>Node\<close>, \<^theory_text>\<open>Lookup\<close>, \<^theory_text>\<open>Build\<close>, \<^theory_text>\<open>Iter\<close>, \<^theory_text>\<open>Rebuild\<close>, \<^theory_text>\<open>Insert\<close>, \<^theory_text>\<open>Remove\<close>: the files
    of these names, one definition per function, for a single thread; an operation that may not return is
    an option, and \<^theory_text>\<open>Total\<close> proves that it returns, from the separation of keys by fitted lines in
    \<^theory_text>\<open>Separation\<close>. \<open>wf_node\<close> is the invariant of a tree, \<open>entries\<close> its sorted pairs.
  \<^item> \<^theory_text>\<open>LearnedMap\<close>, \<^theory_text>\<open>LearnedSet\<close>: \<^verbatim>\<open>map.rs\<close> and \<^verbatim>\<open>set.rs\<close>. \<open>map_ok\<close> is the invariant, \<open>map_content\<close> the
    partial function a map stands for. \<^theory_text>\<open>Map_Interface\<close> is the locale of a keyed map, which the map interprets
    and the set and the memtable use. \<^theory_text>\<open>Handles\<close>: \<^verbatim>\<open>MapRef\<close> and \<^verbatim>\<open>SetRef\<close> over a store of maps, which several
    handles can share.
  \<^item> \<^theory_text>\<open>Slot_Protocol\<close>: the writes of \<^verbatim>\<open>node.rs\<close> and the freeze of \<^verbatim>\<open>rebuild.rs\<close> with many threads, one atomic
    access at a time. \<^theory_text>\<open>Root_Protocol\<close>: the operations of \<^verbatim>\<open>map.rs\<close> with many threads, one access to the root
    pointer, a counter or a tree at a time; \<^theory_text>\<open>Root_Facts\<close> has its invariant, \<^theory_text>\<open>Root_Runs\<close> the
    sequential operations as runs of one thread.
  \<^item> \<^theory_text>\<open>Storage\<close>: files as a map from names to bytes, byte encodings, errors of \<^verbatim>\<open>error.rs\<close>. \<^theory_text>\<open>Wal\<close>, \<^theory_text>\<open>Sstable\<close>,
    \<^theory_text>\<open>Manifest\<close>, \<^theory_text>\<open>Compaction\<close>, \<^theory_text>\<open>Memtable\<close>, \<^theory_text>\<open>Engine\<close>: the files of these names. The three memtables
    interpret the locale \<open>write_buffer\<close>, over which the engine is proved; the skip list of
    \<^verbatim>\<open>crossbeam\<close> is a parameter with its laws (\<open>skip_laws\<close>). \<open>engine_ok\<close> is the invariant of an engine over its
    directory, \<open>engine_view\<close> the map it stands for. \<^theory_text>\<open>Engine_Threads\<close> is the engine with many threads: what is done
    under a lock, and a call of the memtable, is one step; \<^theory_text>\<open>Engine_Linear\<close> has its runs in which flushes do not
    overlap, for the memtable behind a lock, whose calls are atomic.

  What is shown. In this theory, for the map: every operation returns, keeps the invariant and acts on the
  partial function as it should, errors included; traversals are the sorted entries, restricted to a range of
  keys by the order alone (\<open>in_range\<close>); serialization, bulk loading and collecting give the entries back; a set
  refines a finite set. For the engine: writes, flushes and sorted ingestion refine a map as long as what they
  flush or ingest fits a table and triggers no compaction (\<open>flushable\<close>), and new tables hold what went into
  them; a crash loses at most a suffix of the unsynced writes. With a compaction behind it a flush is no
  refinement (\<open>flush_loses_update\<close>), so these conditions are not an artefact of the proofs. \<^theory_text>\<open>Tree_Properties\<close> has construction,
  fitting, conflict nodes and the key types; \<^theory_text>\<open>Store_Properties\<close> the log, the tables, compaction and
  the memtables; \<^theory_text>\<open>Slot_Properties\<close> and \<^theory_text>\<open>Root_Properties\<close> what concurrency keeps: initialisation, exclusive
  and write-once slots, progress, no lost updates, sound validation; the
  sequential map is one thread of the concurrent one (\<open>root_alone\<close>). \<^theory_text>\<open>Thread_Properties\<close>: as long as flushes do
  not overlap and trigger no compaction, and nothing is ingested, updates of the engine take effect in the
  order in which they reach the memtable, and lookups are linearizable. Some theorems describe what
  the code does although it does not mean to: the merge keeps the oldest value of a key
  (\<open>flush_loses_update\<close>) and drops tombstones too early (\<open>compaction_resurrects\<close>), reopening forgets the tables
  (\<open>reopen_forgets\<close>), a torn log swallows later records (\<open>wal_torn_tail_append\<close>), lookups miss present keys
  (\<open>reader_gap\<close>) and see an insert come and go (\<open>read_undone\<close>), the length drifts (\<open>drain_miscounts\<close>),
  a flush races with other flushes (\<open>flush_races\<close>) and erases the log of writes behind its drain (\<open>flush_erases_log\<close>), and
  the log and the memtable can order two puts differently (\<open>log_order_differs\<close>).

  Bounds. Maps have at most \<open>max_pairs\<close> = \<open>2 ^ 32\<close> entries: the separation proof needs rounding errors below
  half a slot. \<open>config_total\<close> asks for an expansion factor from 1 to 1024 and a range headroom from 0 to 255;
  for other configurations construction is not proved to end. Byte lengths are below \<open>2 ^ 32\<close>
  where the formats truncate them (\<open>writable\<close>). No fuel is used outside \<open>scan_entries\<close>, which reads a given
  number of entries.

  Not modelled: epoch-based reclamation (addresses are never reused, memory is never freed while in
  use), panics and poisoned locks, weak memory (atomic accesses interleave; the orderings in the
  code are acquire and release on the locations that publish data), failing file operations other than
  missing files, allocation limits and overflow checks (\<open>reader_open\<close> lets the length of the index of a
  corrupt file wrap, and reports the end of the file), \<^verbatim>\<open>Debug\<close> and the drop of whole maps, and the examples, benchmarks and fuzz targets, which
  only call the map.
\<close>

section \<open>The sorted map\<close>

text \<open>
  C1: Inserting returns, reports whether the key was new, makes the key look up to the value,
  leaves every other lookup as it was, and counts a new key once.
\<close>

theorem insert_spec:
  assumes "map_ok K m" "lm_length m < max_pairs"
  shows "\<exists>m'. lm_insert K m k v = Some (m', lm_get K m k = None) \<and> map_ok K m' \<and>
    (\<forall>k'. lm_get K m' k' = (if k' = k then Some v else lm_get K m k')) \<and>
    lm_length m' = lm_length m + (if lm_get K m k = None then 1 else 0)"
proof -
  note room = assms(2) [unfolded lm_traversals(6) [OF assms(1)]]
  obtain m' where m': "lm_insert K m k v = Some (m', map_content m k = None)" "map_ok K m'"
    "map_content m' = (map_content m)(k \<mapsto> v)"
    using lm_insert_correct [OF assms(1) room] by blast
  have "length (map_pairs m') = length (map_pairs m) + (if map_content m k = None then 1 else 0)"
    using m'(3) lm.length_update [OF assms(1) m'(2), of k "Some v"] by simp
  then show ?thesis using m'
    by (simp add: lm_get_content [OF assms(1)] lm_get_content [OF m'(2)] lm_traversals(6) [OF assms(1)]
        lm_traversals(6) [OF m'(2)])
qed

theorem insert_spec_witness:
  "\<exists>(m :: (64 word, nat) learned_map) m'. lm_get unsigned_key m 3 = None \<and>
    lm_insert unsigned_key m 3 30 = Some (m', True) \<and> lm_get unsigned_key m' 3 = Some 30 \<and>
    lm_get unsigned_key m' 5 = Some 50 \<and> lm_length m' = 4"
proof -
  obtain m :: "(64 word, nat) learned_map" where m: "map_ok unsigned_key m"
    "map_pairs m = [(1, 10), (2, 20), (5, 50)]" using sample_map by blast
  have get: "lm_get unsigned_key m k = map_of [(1, 10), (2, 20), (5, 50)] k" for k
    by (simp add: lm_get_content m map_content_def)
  have "lm_length m = 3" by (simp add: lm_traversals(6) [OF m(1)] m(2))
  moreover from this obtain m' where "lm_insert unsigned_key m 3 30 = Some (m', True)"
    "\<forall>k'. lm_get unsigned_key m' k' = (if k' = 3 then Some 30 else lm_get unsigned_key m k')"
    "lm_length m' = lm_length m + 1"
    using insert_spec [OF m(1), of 3 30] by (auto simp: get max_pairs_def)
  ultimately show ?thesis by (intro exI [of _ m] exI [of _ m']) (simp add: get)
qed


text \<open>
  C2: Removing returns, reports whether the key was present, makes the key absent, leaves every
  other lookup as it was, and counts a present key out.
\<close>

theorem remove_spec:
  assumes "map_ok K m"
  shows "\<exists>m'. lm_remove K m k = Some (m', lm_get K m k \<noteq> None) \<and> map_ok K m' \<and>
    (\<forall>k'. lm_get K m' k' = (if k' = k then None else lm_get K m k')) \<and>
    lm_length m' = lm_length m - (if lm_get K m k = None then 0 else 1)"
proof -
  obtain m' where m': "lm_remove K m k = Some (m', map_content m k \<noteq> None)" "map_ok K m'"
    "map_content m' = (map_content m)(k := None)"
    using lm.del_law [OF assms] by blast
  then show ?thesis using lm.length_update [OF assms m'(2,3)]
    by (simp add: lm_get_content [OF assms] lm_get_content [OF m'(2)] lm_traversals(6) [OF assms]
        lm_traversals(6) [OF m'(2)])
qed

theorem remove_spec_witness:
  "\<exists>(m :: (64 word, nat) learned_map) m'. lm_get unsigned_key m 2 = Some 20 \<and>
    lm_remove unsigned_key m 2 = Some (m', True) \<and> lm_get unsigned_key m' 2 = None \<and>
    lm_get unsigned_key m' 5 = Some 50 \<and> lm_length m' = 2"
proof -
  obtain m :: "(64 word, nat) learned_map" where m: "map_ok unsigned_key m"
    "map_pairs m = [(1, 10), (2, 20), (5, 50)]" using sample_map by blast
  have get: "lm_get unsigned_key m k = map_of [(1, 10), (2, 20), (5, 50)] k" for k
    by (simp add: lm_get_content m map_content_def)
  have "lm_length m = 3" by (simp add: lm_traversals(6) [OF m(1)] m(2))
  moreover from this obtain m' where "lm_remove unsigned_key m 2 = Some (m', True)"
    "\<forall>k'. lm_get unsigned_key m' k' = (if k' = 2 then None else lm_get unsigned_key m k')"
    "lm_length m' = 2"
    using remove_spec [OF m(1), of 2] by (auto simp: get)
  ultimately show ?thesis by (intro exI [of _ m] exI [of _ m']) (simp add: get)
qed


text \<open>
  C3: get_or_insert returns the value that is stored under the key, inserting the given one
  only when the key was absent; the lazy variant agrees with it and leaves the map alone for a
  present key.
\<close>

theorem get_or_insert_spec:
  assumes "map_ok K m" "lm_length m < max_pairs"
  shows "\<exists>m' val. lm_get_or_insert K m k v = Some (m', val) \<and> map_ok K m' \<and>
    val = (case lm_get K m k of None \<Rightarrow> v | Some old \<Rightarrow> old) \<and>
    (\<forall>k'. lm_get K m' k' = (if k' = k then Some val else lm_get K m k')) \<and>
    lm_get_or_insert_with K m k (\<lambda>_. v) = (if lm_get K m k = None then Some (m', val) else Some (m, val))"
proof -
  obtain m' val where m': "lm_get_or_insert K m k v = Some (m', val)" "map_ok K m'"
    "val = (case map_content m k of None \<Rightarrow> v | Some old \<Rightarrow> old)" "map_content m' = (map_content m)(k \<mapsto> val)"
    using lm_get_or_insert_correct [OF assms(1) assms(2) [unfolded lm_traversals(6) [OF assms(1)]]] by blast
  then show ?thesis
    by (auto simp: lm_get_content [OF assms(1)] lm_get_content [OF m'(2)] lm_get_or_insert_with_def
        split: option.splits)
qed

theorem get_or_insert_spec_witness:
  "\<exists>(m :: (64 word, nat) learned_map) m'. lm_get_or_insert unsigned_key m 5 7 = Some (m', 50)"
proof -
  obtain m :: "(64 word, nat) learned_map" where m: "map_ok unsigned_key m"
    "map_pairs m = [(1, 10), (2, 20), (5, 50)]" using sample_map by blast
  have get: "lm_get unsigned_key m k = map_of [(1, 10), (2, 20), (5, 50)] k" for k
    by (simp add: lm_get_content m map_content_def)
  show ?thesis using get_or_insert_spec [OF m(1), of 5 7]
    by (auto simp: get lm_traversals(6) [OF m(1)] m(2) max_pairs_def)
qed


text \<open>
  C4: Bulk loading rejects an empty input and an input whose keys do not ascend strictly, each
  with its error; every other input is loaded, and iteration gives it back.
\<close>

theorem bulk_load_spec:
  assumes "key_contract K" "config_total cfg" "length ps \<le> max_pairs"
  shows "if ps = [] then lm_bulk_load_with_config K ps cfg = Some (Inl EmptyData)
    else if \<not> sorted_keys ps then lm_bulk_load_with_config K ps cfg = Some (Inl NotSorted)
    else \<exists>m. lm_bulk_load_with_config K ps cfg = Some (Inr m) \<and> map_ok K m \<and> lm_iter_sorted m = ps"
proof (cases "ps = [] \<or> sorted_keys ps")
  case True
  show ?thesis
  proof (cases "ps = []")
    case False
    then obtain m where "lm_bulk_load_with_config K ps cfg = Some (Inr m)" "map_ok K m" "map_pairs m = ps"
      using lm_bulk_load_sorted [OF assms] True by blast
    then show ?thesis using True False by (simp add: lm_traversals)
  qed (simp add: lm_bulk_load_with_config_def bulk_load_def)
next
  case False
  have "\<exists>i < length ps - 1. fst (ps ! (i + 1)) \<le> fst (ps ! i)"
  proof (rule ccontr)
    assume "\<not> ?thesis"
    then have "sorted_keys ps"
      by (intro sorted_wrt_iff_nth_Suc_transp [THEN iffD2])
        (auto simp: transp_on_def not_le less_diff_conv)
    then show False using False by simp
  qed
  then show ?thesis using False by (simp add: lm_bulk_load_with_config_def bulk_load_def)
qed

theorem bulk_load_spec_witness:
  "lm_bulk_load_with_config unsigned_key [(2 :: 64 word, ''b''), (1, ''a'')] config_default = Some (Inl NotSorted) \<and>
   (\<exists>m. lm_bulk_load_with_config unsigned_key [(1 :: 64 word, ''a''), (2, ''b'')] config_default = Some (Inr m) \<and>
      lm_iter_sorted m = [(1, ''a''), (2, ''b'')])"
  using bulk_load_spec [OF u64.key_contract_axioms config_total_default, of "[(2, ''b''), (1, ''a'')]"]
    bulk_load_spec [OF u64.key_contract_axioms config_total_default, of "[(1, ''a''), (2, ''b'')]"]
  by (auto simp: max_pairs_def)


text \<open>
  C5: Bulk loading with duplicates rejects empty and unsorted inputs; of the pairs with one key
  it keeps the last.
\<close>

theorem bulk_load_dedup_spec:
  assumes "key_contract K" "config_total cfg" "length ps \<le> max_pairs"
  shows "if ps = [] then lm_bulk_load_dedup_with_config K ps cfg = Some (Inl EmptyData)
    else if \<not> sorted (map fst ps) then lm_bulk_load_dedup_with_config K ps cfg = Some (Inl NotSorted)
    else \<exists>m. lm_bulk_load_dedup_with_config K ps cfg = Some (Inr m) \<and> map_ok K m \<and>
      (\<forall>k. lm_get K m k = map_of (rev ps) k)"
proof (cases "ps = [] \<or> sorted (map fst ps)")
  case True
  show ?thesis
  proof (cases "ps = []")
    case False
    then obtain m where "lm_bulk_load_dedup_with_config K ps cfg = Some (Inr m)" "map_ok K m"
      "map_content m = map_of (rev ps)"
      using lm_bulk_load_dedup_correct [OF assms] True by blast
    then show ?thesis using True False by (simp add: lm_get_content)
  qed (simp add: lm_bulk_load_dedup_with_config_def)
next
  case False
  then have "list_ex (\<lambda>(a, b). fst b < fst a) (windows2 ps)" using windows2_sorted by blast
  then show ?thesis using False by (simp add: lm_bulk_load_dedup_with_config_def)
qed

theorem bulk_load_dedup_spec_witness:
  "\<exists>m. lm_bulk_load_dedup_with_config unsigned_key [(1 :: 64 word, ''a''), (1, ''b''), (2, ''c'')] config_default
     = Some (Inr m) \<and> lm_get unsigned_key m 1 = Some ''b''"
  using bulk_load_dedup_spec [OF u64.key_contract_axioms config_total_default,
      of "[(1, ''a''), (1, ''b''), (2, ''c'')]"]
  by (auto simp: max_pairs_def)


text \<open>
  C6: Every traversal is the sorted list of entries, restricted to its range: the full
  iterator, a range with any bounds, the first and the last entry, and the count of a range;
  lookups agree with the list.
\<close>

theorem traversal_spec:
  assumes "map_ok K m"
  shows "iter_collect (lm_iter m) = lm_iter_sorted m \<and> sorted_keys (lm_iter_sorted m) \<and>
    lm_get K m k = map_of (lm_iter_sorted m) k \<and> iter_size_hint (lm_iter m) = (length (lm_iter_sorted m), Some (length (lm_iter_sorted m))) \<and>
    range_collect (lm_range K m lo hi) = filter (\<lambda>p. in_range lo hi (fst p)) (lm_iter_sorted m) \<and>
    lm_range_count K m lo hi = length (filter (\<lambda>p. in_range lo hi (fst p)) (lm_iter_sorted m)) \<and>
    lm_first_key_value m = (case lm_iter_sorted m of [] \<Rightarrow> None | p # _ \<Rightarrow> Some p) \<and>
    lm_last_key_value m = (if lm_iter_sorted m = [] then None else Some (last (lm_iter_sorted m)))"
proof -
  have "iter_size_hint (lm_iter m) = (lm_length m, Some (lm_length m))"
    by (simp add: lm_iter_def iter_with_hint_def iter_size_hint_def)
  then show ?thesis
    by (simp add: lm_traversals [OF assms] map_pairs_sorted [OF assms] lm_get_content [OF assms]
        map_content_def lm_range_count_def)
qed

theorem traversal_spec_witness:
  "\<exists>m :: (64 word, nat) learned_map.
     range_collect (lm_range unsigned_key m (Excluded 1) (Included 5)) = [(2, 20), (5, 50)]"
proof -
  obtain m :: "(64 word, nat) learned_map" where m: "map_ok unsigned_key m"
    "map_pairs m = [(1, 10), (2, 20), (5, 50)]" using sample_map by blast
  have "lm_iter_sorted m = [(1, 10), (2, 20), (5, 50)]" by (simp add: lm_traversals [OF m(1)] m(2))
  then show ?thesis using traversal_spec [OF m(1), of 0 "Excluded 1" "Included 5"]
    by (intro exI [of _ m]) (simp add: in_range_def word_le_nat_alt word_less_nat_alt)
qed


text \<open>
  C7: Rebuilding the root returns, keeps the invariant, the entries, their number and the
  configuration; a rebuild of a nonempty map sets the next threshold to twice the number of
  entries.
\<close>

theorem rebuild_spec:
  assumes "map_ok K m"
  shows "\<exists>m'. lm_rebuild K m = Some m' \<and> map_ok K m' \<and> lm_iter_sorted m' = lm_iter_sorted m \<and>
    lm_length m' = lm_length m \<and> lm_config m' = lm_config m \<and>
    (lm_length m \<noteq> 0 \<longrightarrow> next_root_rebuild m' = 2 * lm_length m)"
proof -
  obtain m' where m': "lm_rebuild K m = Some m'" "map_ok K m'" "map_pairs m' = map_pairs m"
    "lm_len m' = lm_len m" "lm_config m' = lm_config m" using lm_rebuild_correct [OF assms] by blast
  have "next_root_rebuild m' = 2 * length (map_pairs m)" if ne: "map_pairs m \<noteq> []"
  proof -
    obtain n where "bulk_load K ((lm_config m)\<lparr>range_headroom := Fin 1\<rparr>) (map_pairs m) = Some (Inr n)"
      using bulk_load_headroom [OF map_okD(1,3,6) [OF assms] ne map_pairs_sorted [OF assms]] by blast
    then have "next_root_rebuild m' = saturating_mul (length (map_pairs m)) ROOT_REBUILD_GROWTH_FACTOR"
      using m'(1) ne by (auto simp: lm_rebuild_def iter_collect_entries(3) [OF map_okD(2) [OF assms]] map_pairs_def)
    then show ?thesis using map_okD(6) [OF assms]
      by (simp add: saturating_mul_def ROOT_REBUILD_GROWTH_FACTOR_def max_pairs_def usize_max_def)
  qed
  then show ?thesis using m'
    by (auto simp: lm_traversals [OF assms] lm_traversals [OF m'(2)])
qed

theorem rebuild_spec_witness:
  "\<exists>(m :: (64 word, nat) learned_map) m'. lm_rebuild unsigned_key m = Some m' \<and>
     lm_iter_sorted m' = [(1, 10), (2, 20), (5, 50)] \<and> next_root_rebuild m' = 6"
proof -
  obtain m :: "(64 word, nat) learned_map" where m: "map_ok unsigned_key m"
    "map_pairs m = [(1, 10), (2, 20), (5, 50)]" using sample_map by blast
  show ?thesis using rebuild_spec [OF m(1)] by (auto simp: lm_traversals [OF m(1)] m(2))
qed


text \<open>
  C8: Draining gives back all entries in order and leaves an empty map that satisfies the
  invariant; clearing leaves the same state.
\<close>

theorem drain_clear_spec:
  assumes "map_ok K m"
  shows "snd (lm_drain m) = lm_iter_sorted m \<and> map_ok K (fst (lm_drain m)) \<and>
    lm_length (fst (lm_drain m)) = 0 \<and> (\<forall>k. lm_get K (fst (lm_drain m)) k = None) \<and>
    next_root_rebuild (fst (lm_drain m)) = 64 \<and> lm_clear m = fst (lm_drain m)"
proof -
  note d = lm_drain_correct [OF assms]
  have "next_root_rebuild (fst (lm_drain m)) = 64"
    by (simp add: lm_drain_def INITIAL_ROOT_REBUILD_THRESHOLD_def Let_def)
  then show ?thesis
    by (simp add: d(1,2) lm_traversals [OF assms] lm_traversals [OF d(2)] lm_get_content [OF d(2)]
        map_content_def d(3) lm_clear_drain [OF assms])
qed

theorem drain_clear_spec_witness:
  "\<exists>m :: (64 word, nat) learned_map. snd (lm_drain m) = [(1, 10), (2, 20), (5, 50)] \<and>
     lm_length (lm_clear m) = 0"
proof -
  obtain m :: "(64 word, nat) learned_map" where m: "map_ok unsigned_key m"
    "map_pairs m = [(1, 10), (2, 20), (5, 50)]" using sample_map by blast
  show ?thesis using drain_clear_spec [OF m(1)]
    by (intro exI [of _ m]) (simp add: lm_traversals [OF m(1)] m(2))
qed


text \<open>
  C9: Deserializing what a map serializes gives a map with the same entries, and the announced
  length is the number of items.
\<close>

theorem serialize_roundtrip:
  assumes "map_ok K m"
  shows "fst (lm_serialize m) = length (snd (lm_serialize m)) \<and>
    (\<exists>m'. lm_deserialize K (snd (lm_serialize m)) = Some (Inr m') \<and> map_ok K m' \<and>
       lm_iter_sorted m' = lm_iter_sorted m)"
proof -
  obtain m' where "lm_deserialize K (snd (lm_serialize m)) = Some (Inr m')" "map_ok K m'"
    "map_pairs m' = map_pairs m" using lm_deserialize_serialize [OF assms] by blast
  then show ?thesis using lm_traversals(2) [of K m'] by (simp add: lm_serialize_def lm_traversals [OF assms])
qed

theorem serialize_roundtrip_witness:
  "\<exists>(m :: (64 word, nat) learned_map) m'. lm_deserialize unsigned_key (snd (lm_serialize m)) = Some (Inr m') \<and>
     lm_iter_sorted m' = [(1, 10), (2, 20), (5, 50)]"
proof -
  obtain m :: "(64 word, nat) learned_map" where m: "map_ok unsigned_key m"
    "map_pairs m = [(1, 10), (2, 20), (5, 50)]" using sample_map by blast
  show ?thesis using serialize_roundtrip [OF m(1)] by (auto simp: lm_traversals [OF m(1)] m(2))
qed





text \<open>
  C11: Collecting pairs in any order returns a map in which the last pair of each key counts,
  with one entry per key; pairs with distinct keys come back in the order of the keys;
  extending a map adds the new pairs, which override the old ones in the same way.
\<close>

theorem from_iter_spec:
  assumes "key_contract K" "length ps \<le> max_pairs" "length ps + length qs \<le> max_pairs"
  shows "\<exists>m m'. lm_from_iter K ps = Some m \<and> map_ok K m \<and> (\<forall>k. lm_get K m k = map_of (rev ps) k) \<and>
    lm_extend K m qs = Some m' \<and> (\<forall>k. lm_get K m' k = (map_of (rev ps) ++ map_of (rev qs)) k) \<and>
    lm_length m = card (fst ` set ps) \<and> map_ok K m' \<and>
    (distinct (map fst ps) \<longrightarrow> lm_iter_sorted m = sort_key fst ps)"
proof -
  obtain m where m: "lm_from_iter K ps = Some m" "map_ok K m" "map_content m = map_of (rev ps)"
    using lm.put_all [OF map_ok_new [OF assms(1)], of ps] assms(2)
    by (auto simp: lm_from_iter_def map_content_def)
  have len: "length (map_pairs m) = card (fst ` set ps)"
    using lm.length_pairs [OF m(2)] by (simp add: m(3) dom_map_of_conv_image_fst)
  also have "\<dots> \<le> length ps" by (metis card_length length_map set_map)
  finally obtain m' where m': "lm_extend K m qs = Some m'" "map_ok K m'"
    "map_content m' = map_content m ++ map_of (rev qs)"
    using lm.put_all [OF m(2), of qs] assms(3) by (auto simp: lm_extend_def)
  have "map_pairs m = sort_key fst ps" if dist: "distinct (map fst ps)"
  proof (rule sorted_keys_unique [OF map_pairs_sorted [OF m(2)]])
    have "sorted (map fst (sort_key fst ps))" by simp
    moreover have "mset (map fst (sort_key fst ps)) = mset (map fst ps)" by simp
    then have d: "distinct (map fst (sort_key fst ps))" using dist mset_eq_imp_distinct_iff by blast
    ultimately show "sorted_keys (sort_key fst ps)" by (simp only: strict_sorted_iff)
    have "map_of (rev ps) = map_of (sort_key fst ps)"
      using dist d
      by (intro map_of_inject_set [THEN iffD2]) (simp_all add: rev_map [symmetric])
    then show "map_of (map_pairs m) = map_of (sort_key fst ps)"
      using m(3) by (simp add: map_content_def)
  qed
  then show ?thesis using m m' len
    by (auto simp: lm_get_content [OF m(2)] lm_get_content [OF m'(2)] lm_traversals [OF m(2)])
qed

theorem from_iter_spec_witness:
  "\<exists>m. lm_from_iter unsigned_key [(9 :: 64 word, ''x''), (4, ''y'')] = Some m \<and>
     lm_iter_sorted m = [(4, ''y''), (9, ''x'')]"
proof -
  have s: "sort_key fst [(9 :: 64 word, ''x''), (4, ''y'')] = [(4, ''y''), (9, ''x'')]"
    by (simp add: word_le_nat_alt)
  obtain m where "lm_from_iter unsigned_key [(9 :: 64 word, ''x''), (4, ''y'')] = Some m"
    "lm_iter_sorted m = sort_key fst [(9 :: 64 word, ''x''), (4, ''y'')]"
    using from_iter_spec [OF u64.key_contract_axioms, of "[(9, ''x''), (4, ''y'')]" "[]"]
    by (auto simp: max_pairs_def simp del: sort_key_simps)
  then show ?thesis by (simp only: s) blast
qed


text \<open>
  Handles pinned on the same map share it: what one inserts or removes the other sees in its
  lookups, what one inserts it counts, what one drains is gone from its traversal, and no
  handle of another map is affected.
\<close>

lemma handles_share:
  assumes "map_ok K (st (ref_map r))" "ref_length r st < max_pairs"
  shows "\<exists>st1 st2 st3.
    ref_insert K r st k v = Some (st1, \<not> ref_contains_key K r st k) \<and>
      (\<forall>q k'. ref_get K q st1 k' = (if ref_map q = ref_map r \<and> k' = k then Some v else ref_get K q st k')) \<and>
      (\<forall>q. ref_length q st1 = ref_length q st +
         (if ref_map q = ref_map r \<and> \<not> ref_contains_key K r st k then 1 else 0)) \<and>
    ref_remove K r st k = Some (st2, ref_contains_key K r st k) \<and>
      (\<forall>q k'. ref_get K q st2 k' = (if ref_map q = ref_map r \<and> k' = k then None else ref_get K q st k')) \<and>
    ref_drain r st = Some (st3, ref_iter_sorted r st) \<and>
      (\<forall>q. ref_iter_sorted q st3 = (if ref_map q = ref_map r then [] else ref_iter_sorted q st))"
proof -
  let ?a = "ref_map r"
  have room: "length (map_pairs (st ?a)) < max_pairs" using assms(2) by (simp add: ref_reads(3) [of K st r, OF assms(1)])
  obtain st1 where ins: "ref_insert K r st k v = Some (st1, map_content (st ?a) k = None)"
    "map_ok K (st1 ?a)" "map_content (st1 ?a) = (map_content (st ?a))(k \<mapsto> v)"
    using handle.put_law [of K st r k v, OF assms(1) room] by blast
  obtain st2 where del: "ref_remove K r st k = Some (st2, map_content (st ?a) k \<noteq> None)"
    "map_ok K (st2 ?a)" "map_content (st2 ?a) = (map_content (st ?a))(k := None)"
    using handle.del_law [of K st r k, OF assms(1)] by blast
  let ?st3 = "st(?a := fst (lm_drain (st ?a)))"
  note d = lm_drain_correct [OF assms(1)]
  have drain: "ref_drain r st = Some (?st3, ref_iter_sorted r st)"
    using d(1) lm_traversals(2) [OF assms(1)] by (simp add: ref_drain_def on_map_def ref_iter_sorted_def split_beta)
  have frame: "st1 b = st b" "st2 b = st b" if "b \<noteq> ?a" for b
    using on_map_frame [of r st _ st1 _ b] on_map_frame [of r st _ st2 _ b] ins(1) del(1) that
    by (simp_all add: ref_insert_def ref_remove_def)
  have reads: "ref_get K q st' k' = map_content (st' ?a) k'" "ref_length q st' = length (map_pairs (st' ?a))"
    "ref_iter_sorted q st' = map_pairs (st' ?a)" if "map_ok K (st' ?a)" "ref_map q = ?a" for q st' k'
    using ref_reads(1,3,6) [of K st' q] that by simp_all
  have "ref_get K q st1 k' = (if ref_map q = ?a \<and> k' = k then Some v else ref_get K q st k')" for q k'
    using ins(2,3) frame(1) assms(1) by (cases "ref_map q = ?a") (simp_all add: reads, simp add: ref_get_def)
  moreover have "ref_get K q st2 k' = (if ref_map q = ?a \<and> k' = k then None else ref_get K q st k')" for q k'
    using del(2,3) frame(2) assms(1) by (cases "ref_map q = ?a") (simp_all add: reads, simp add: ref_get_def)
  moreover have "ref_length q st1 = ref_length q st + (if ref_map q = ?a \<and> map_content (st ?a) k = None then 1 else 0)" for q
    using handle.length_update [of K st r st1, OF assms(1) ins(2,3)] ins(2) frame(1) assms(1)
    by (cases "ref_map q = ?a") (simp_all add: reads, simp add: ref_length_def)
  moreover have "ref_iter_sorted q ?st3 = (if ref_map q = ?a then [] else ref_iter_sorted q st)" for q
    using d(2,3) by (cases "ref_map q = ?a") (simp_all add: reads, simp add: ref_iter_sorted_def)
  ultimately show ?thesis using ins(1) del(1) drain by (simp add: ref_reads(2) [of K st r, OF assms(1)])
qed

lemma handles_share_witness:
  "\<exists>st1 :: (64 word, nat) maps. ref_insert unsigned_key (lm_pin 0) (\<lambda>_. lm_new) 3 7 = Some (st1, True) \<and>
     ref_get unsigned_key (lm_pin 0) st1 3 = Some 7 \<and> ref_get unsigned_key (lm_pin 1) st1 3 = None"
proof -
  let ?st = "(\<lambda>_. lm_new) :: (64 word, nat) maps"
  have ok: "map_ok unsigned_key (?st a)" for a by (rule map_ok_new [OF u64.key_contract_axioms])
  have none: "ref_get unsigned_key q ?st 3 = None" "\<not> ref_contains_key unsigned_key q ?st 3" "ref_length q ?st = 0" for q
    using ref_reads(1-3) [of unsigned_key ?st q] ok
    by (simp_all add: map_content_def map_pairs_def lm_new_def lm_with_config_def)
  have addr: "ref_map (lm_pin 1) \<noteq> ref_map (lm_pin 0)" "ref_length (lm_pin 0) ?st < max_pairs"
    by (simp_all add: lm_pin_def none(3) max_pairs_def)
  obtain st1 where st1: "ref_insert unsigned_key (lm_pin 0) ?st 3 7 = Some (st1, \<not> ref_contains_key unsigned_key (lm_pin 0) ?st 3)"
    "\<forall>q k'. ref_get unsigned_key q st1 k' =
      (if ref_map q = ref_map (lm_pin 0) \<and> k' = 3 then Some 7 else ref_get unsigned_key q ?st k')"
    using handles_share [OF ok addr(2), of 3 7] by blast
  show ?thesis using st1 addr(1) none by (intro exI [of _ st1]) simp
qed

section \<open>The storage engine\<close>

lemma lmt_drained:
  assumes "lmt_ok t" "sorted_keys es" "map_of es = lmt_content t"
  shows "fst (lmt_drain_sorted t) = es"
  by (rule sorted_keys_unique [OF _ assms(2)])
    (use learned.drain_law [OF assms(1)] assms(3) in \<open>auto simp: learned_ops_def\<close>)


lemma lmt_len_zero: "lmt_ok t \<Longrightarrow> lmt_len t = 0 \<longleftrightarrow> lmt_content t = Map.empty"
  using learned.len_law [of t] by (auto simp: learned_ops_def)

lemma one_put:
  obtains e d where "lsm_put learned_ops (fresh_engine engine_config_default, [wal_name \<mapsto> []]) [1] [9] = Some ((e, d), Inr ())"
    "engine_ok lmt_ok (e, d) (replicate num_lsm_levels [])" "lmt_content (e_memtable e) = [[1] \<mapsto> [9]]"
    "e_manifest e = e_manifest (fresh_engine engine_config_default)"
  by (rule put_empty_memtable [OF fresh_engine_ok(1,2), of engine_config_default "[1]" "[9]"])
    (simp_all add: fresh_engine_def lmt_new_def engine_config_default_def default_flush_threshold_def)

lemma recover_empty_log: "d p = Some [] \<Longrightarrow> wal_recover p d = Inr []"
  by (simp add: wal_recover_def wal_replay.simps [of "[]"] read_exact_def)




text \<open>
  C13: A flush whose entries fit a table and which leaves level 0 below the number of tables
  that triggers a compaction changes no lookup and empties the memtable. If there was anything
  to flush, level 0 has one more table at its end, whose file holds exactly the entries of the
  memtable in order, and the log is empty.
\<close>

theorem engine_flush_spec:
  assumes "engine_ok lmt_ok (e, d) lss" "flushable (e_manifest e) (fst (lmt_drain_sorted (e_memtable e)))"
  shows "\<exists>s' lss'. lsm_flush learned_ops (e, d) = Some (s', Inr ()) \<and> engine_ok lmt_ok s' lss' \<and>
    lsm_get learned_ops s' = lsm_get learned_ops (e, d) \<and> lmt_len (e_memtable (fst s')) = 0 \<and>
    (lmt_len (e_memtable e) \<noteq> 0 \<longrightarrow> wal_recover wal_name (snd s') = Inr [] \<and>
      (\<exists>t. levels (e_manifest (fst s')) = (levels (e_manifest e))[0 := levels (e_manifest e) ! 0 @ [t]] \<and>
         and_then (reader_open (meta_path t) (snd s')) read_all = Inr (fst (lmt_drain_sorted (e_memtable e)))))"
proof -
  let ?c = "lmt_content (e_memtable e)" and ?ls = "levels (e_manifest e)"
  have ok: "lmt_ok (e_memtable e)" using assms(1) by (simp add: engine_ok_def)
  have fl: "flushable (e_manifest e) es" if "sorted_keys es" "map_of es = ?c" for es
    using assms(2) that by (simp add: lmt_drained [OF ok])
  obtain s' lss' where f: "flush_memtable learned_ops (e, d) = Some (s', Inr ())" "engine_ok lmt_ok s' lss'"
    "engine_view lmt_content s' lss' = engine_view lmt_content (e, d) lss"
    "lmt_content (e_memtable (fst s')) = Map.empty"
    and new: "?c \<noteq> Map.empty \<Longrightarrow> snd s' wal_name = Some []"
      "?c \<noteq> Map.empty \<Longrightarrow> \<exists>es t. sorted_keys es \<and> map_of es = ?c \<and>
         levels (e_manifest (fst s')) = ?ls[0 := ?ls ! 0 @ [t]] \<and> table_ok (snd s') t es"
    using learned.flush_memtable_correct [OF assms(1) fl] by blast
  have "lmt_ok (e_memtable (fst s'))" using f(2) by (auto simp: engine_ok_def split: prod.splits)
  then have "lmt_len (e_memtable (fst s')) = 0" using f(4) by (simp add: lmt_len_zero)
  moreover have "lsm_get learned_ops s' = lsm_get learned_ops (e, d)"
    by (rule ext) (simp add: learned.lsm_get_correct [OF f(2)] learned.lsm_get_correct [OF assms(1)] f(3))
  moreover have "\<exists>t. levels (e_manifest (fst s')) = ?ls[0 := ?ls ! 0 @ [t]] \<and>
      and_then (reader_open (meta_path t) (snd s')) read_all = Inr (fst (lmt_drain_sorted (e_memtable e)))"
    if "?c \<noteq> Map.empty"
    using new(2) [OF that] lmt_drained [OF ok] by (auto dest: table_ok_read)
  ultimately show ?thesis using f(1,2) new(1)
    by (auto simp: lsm_flush_def lmt_len_zero [OF ok] recover_empty_log)
qed

theorem engine_flush_spec_witness:
  "\<exists>e d s t. lsm_put learned_ops (fresh_engine engine_config_default, [wal_name \<mapsto> []]) [1] [9] = Some ((e, d), Inr ()) \<and>
     lsm_flush learned_ops (e, d) = Some (s, Inr ()) \<and> lmt_len (e_memtable (fst s)) = 0 \<and>
     levels (e_manifest (fst s)) ! 0 = [t] \<and>
     and_then (reader_open (meta_path t) (snd s)) read_all = Inr [([1], [9])]"
proof -
  obtain e d where put: "lsm_put learned_ops (fresh_engine engine_config_default, [wal_name \<mapsto> []]) [1] [9] = Some ((e, d), Inr ())"
    and e: "engine_ok lmt_ok (e, d) (replicate num_lsm_levels [])" "lmt_content (e_memtable e) = [[1] \<mapsto> [9]]"
      "e_manifest e = e_manifest (fresh_engine engine_config_default)"
    by (rule one_put)
  have ok: "lmt_ok (e_memtable e)" using e(1) by (simp add: engine_ok_def)
  have es: "fst (lmt_drain_sorted (e_memtable e)) = [([1], [9])]" by (rule lmt_drained [OF ok]) (simp_all add: e(2))
  then have "flushable (e_manifest e) (fst (lmt_drain_sorted (e_memtable e)))"
    using fresh_flushable [of "[([1], [9])]" engine_config_default "[1]" "[9]"] e(3) by (simp add: fresh_engine_ok(2))
  from engine_flush_spec [OF e(1) this] obtain s t where "lsm_flush learned_ops (e, d) = Some (s, Inr ())"
    "lmt_len (e_memtable (fst s)) = 0" "levels (e_manifest (fst s)) = (levels (e_manifest e))[0 := levels (e_manifest e) ! 0 @ [t]]"
    "and_then (reader_open (meta_path t) (snd s)) read_all = Inr [([1], [9])]"
    by (auto simp: lmt_len_zero [OF ok] e(2) es)
  moreover have "levels (e_manifest e) = [[], [], [], []]"
    by (simp add: e(3) fresh_engine_def manifest_new_def num_lsm_levels_def numeral_eq_Suc)
  ultimately show ?thesis using put by (intro exI [of _ e] exI [of _ d] exI [of _ s] exI [of _ t]) simp
qed


text \<open>
  C14: Crash recovery of a run of writes that stays below the flush threshold: while the engine
  is up, it reads as the last write of each key; a restart after a crash at this point reads as
  some prefix of the run, and after the log was synced as the whole run.
\<close>

theorem crash_consistency:
  assumes "list_all record_fits rs" "length rs \<le> max_pairs" "run_bytes rs < cfg_flush_threshold cfg" "run_bytes rs < 2 ^ 64"
  shows "\<exists>e d. lsm_run learned_ops rs (fresh_engine cfg, [wal_name \<mapsto> []]) = Some ((e, d), Inr ()) \<and>
    (\<forall>k. lsm_get learned_ops (e, d) k = Inr (Option.bind (map_of (rev (map record_pair rs)) k) hide_tombstone)) \<and>
    (\<exists>n e' d'. lsm_open learned_ops d lmt_new cfg = Some (d', Inr e') \<and>
       (\<forall>k. lsm_get learned_ops (e', d') k =
          Inr (Option.bind (map_of (rev (map record_pair (take n rs))) k) hide_tombstone))) \<and>
    (\<exists>e' d'. lsm_open learned_ops (snd (wal_sync (e_wal e, d))) lmt_new cfg = Some (d', Inr e') \<and>
       (\<forall>k. lsm_get learned_ops (e', d') k = lsm_get learned_ops (e, d) k))"
proof -
  have zero: "lmt_byte_count (e_memtable (fresh_engine cfg)) = 0" "e_flush_threshold (fresh_engine cfg) = cfg_flush_threshold cfg"
    "store_view (replicate num_lsm_levels []) = Map.empty" "wal_written (e_wal (fresh_engine cfg), [wal_name \<mapsto> []]) = []"
    by (simp_all add: fresh_engine_def lmt_new_def store_view_def num_lsm_levels_def numeral_eq_Suc
        wal_written_def written_def)
  obtain e d where run: "lsm_run learned_ops rs (fresh_engine cfg, [wal_name \<mapsto> []]) = Some ((e, d), Inr ())"
    "engine_ok lmt_ok (e, d) (replicate num_lsm_levels [])"
    "lmt_content (e_memtable e) = map_of (rev (map record_pair rs))"
    "wal_written (e_wal e, d) = encode_records rs"
    using run_correct [OF fresh_engine_ok(1), of cfg rs] assms by (auto simp: fresh_engine_ok(2) zero)
  have get: "lsm_get learned_ops (e, d) k = Inr (Option.bind (map_of (rev (map record_pair rs)) k) hide_tombstone)" for k
    by (simp add: learned.lsm_get_correct [OF run(2)] engine_view_def zero(3) run(3))
  have wal: "wal_ok (e_wal e, d)" "wal_path (e_wal e) = wal_name"
    using run(2) by (simp_all add: engine_ok_def)
  have "snd (wal_sync (e_wal e, d)) wal_name = Some (encode_records rs)"
    using wal_sync_correct(4) [OF wal(1)] wal(2) run(4) by simp
  then have "wal_recover wal_name (snd (wal_sync (e_wal e, d))) = Inr rs"
    using replay_records [OF assms(1), of "[]" "[]"]
    by (simp add: wal_recover_def wal_replay.simps [of "[]"] read_exact_def)
  then obtain e' d' where sync: "lsm_open learned_ops (snd (wal_sync (e_wal e, d))) lmt_new cfg = Some (d', Inr e')"
    "engine_ok lmt_ok (e', d') (replicate num_lsm_levels [])"
    "\<forall>k. engine_view lmt_content (e', d') (replicate num_lsm_levels []) k =
       Option.bind (map_of (rev (map record_pair rs)) k) hide_tombstone"
    using learned.lsm_open_correct [OF lmt_new_ok, of _ rs cfg] assms(2) by blast
  obtain n e'' d'' where crash: "lsm_open learned_ops d lmt_new cfg = Some (d'', Inr e'')"
    "engine_ok lmt_ok (e'', d'') (replicate num_lsm_levels [])"
    "\<forall>k. engine_view lmt_content (e'', d'') (replicate num_lsm_levels []) k =
       Option.bind (map_of (rev (map record_pair (take n rs))) k) hide_tombstone"
    using crash_recovers [OF run(2,4) assms(1,2), of cfg] by blast
  show ?thesis
    by (intro exI [of _ e] exI [of _ d] conjI exI [of _ n] exI [of _ e''] exI [of _ d'']
        exI [of _ e'] exI [of _ d'] allI run(1) get crash(1) sync(1))
      (simp_all add: learned.lsm_get_correct [OF crash(2)] learned.lsm_get_correct [OF sync(2)] crash(3) sync(3) get)
qed

theorem crash_consistency_witness:
  "\<exists>e d e' d'. lsm_run learned_ops [WalPut [1] [5], WalPut [2] [6], WalDelete [1]]
       (fresh_engine engine_config_default, [wal_name \<mapsto> []]) = Some ((e, d), Inr ()) \<and>
     lsm_open learned_ops (snd (wal_sync (e_wal e, d))) lmt_new engine_config_default = Some (d', Inr e') \<and>
     lsm_get learned_ops (e', d') [2] = Inr (Some [6]) \<and> lsm_get learned_ops (e', d') [1] = Inr None"
proof -
  let ?rs = "[WalPut [1] [5], WalPut [2] [6], WalDelete [1]]"
  have "list_all record_fits ?rs" "length ?rs \<le> max_pairs" "run_bytes ?rs < cfg_flush_threshold engine_config_default"
    "run_bytes ?rs < 2 ^ 64"
    by (simp_all add: max_pairs_def record_bytes_def engine_config_default_def default_flush_threshold_def)
  from crash_consistency [OF this] show ?thesis by (fastforce simp: hide_tombstone_def)
qed


text \<open>
  C15: Reopening a directory forgets the tables: once a nonempty memtable was flushed, without
  a compaction, an engine opened on the same directory has no tables and reads every key as
  absent, although opening changes no file and the table with the flushed entries can still be
  read from the directory.
\<close>

theorem reopen_forgets:
  assumes "engine_ok lmt_ok (e, d) lss" "lmt_len (e_memtable e) \<noteq> 0"
    and "flushable (e_manifest e) (fst (lmt_drain_sorted (e_memtable e)))"
  shows "\<exists>e1 d1 t e2. lsm_flush learned_ops (e, d) = Some ((e1, d1), Inr ()) \<and>
    lsm_get learned_ops (e1, d1) = lsm_get learned_ops (e, d) \<and>
    lsm_open learned_ops d1 lmt_new cfg = Some (d1, Inr e2) \<and>
    (\<forall>k. lsm_get learned_ops (e2, d1) k = Inr None) \<and> concat (levels (e_manifest e2)) = [] \<and>
    t \<in> set (levels (e_manifest e1) ! 0) \<and>
    and_then (reader_open (meta_path t) d1) read_all = Inr (fst (lmt_drain_sorted (e_memtable e)))"
proof -
  let ?c = "lmt_content (e_memtable e)" and ?ls = "levels (e_manifest e)"
  have ok: "lmt_ok (e_memtable e)" using assms(1) by (simp add: engine_ok_def)
  have ne: "?c \<noteq> Map.empty" using assms(2) by (simp add: lmt_len_zero [OF ok])
  have fl: "flushable (e_manifest e) es" if "sorted_keys es" "map_of es = ?c" for es
    using assms(3) that by (simp add: lmt_drained [OF ok])
  obtain e1 d1 lss' es t where f: "flush_memtable learned_ops (e, d) = Some ((e1, d1), Inr ())" "engine_ok lmt_ok (e1, d1) lss'"
    "engine_view lmt_content (e1, d1) lss' = engine_view lmt_content (e, d) lss" "d1 wal_name = Some []"
    and es: "sorted_keys es" "map_of es = ?c" "levels (e_manifest e1) = ?ls[0 := ?ls ! 0 @ [t]]" "table_ok d1 t es"
    using learned.flush_memtable_correct [OF assms(1) fl] ne by force
  have log: "wal_recover wal_name d1 = Inr []" using f(4) by (rule recover_empty_log)
  then obtain e2 d2 where o: "lsm_open learned_ops d1 lmt_new cfg = Some (d2, Inr e2)"
    "engine_ok lmt_ok (e2, d2) (replicate num_lsm_levels [])"
    "\<forall>k. engine_view lmt_content (e2, d2) (replicate num_lsm_levels []) k = None"
    using learned.lsm_open_correct [OF lmt_new_ok, of d1 "[]" cfg] by auto
  have same: "d2 = d1" "concat (levels (e_manifest e2)) = []"
    using o(1) log f(4) by (auto simp: lsm_open_def wal_open_def manifest_new_def)
  have "lsm_get learned_ops (e2, d1) k = Inr None" for k
    using learned.lsm_get_correct [OF o(2)] o(3) same(1) by simp
  moreover have "lsm_get learned_ops (e1, d1) = lsm_get learned_ops (e, d)"
    by (rule ext) (simp add: learned.lsm_get_correct [OF f(2)] learned.lsm_get_correct [OF assms(1)] f(3))
  moreover have "0 < length ?ls" using assms(3) by (simp add: flushable_def writable_def)
  moreover have "and_then (reader_open (meta_path t) d1) read_all = Inr (fst (lmt_drain_sorted (e_memtable e)))"
    using table_ok_read [OF es(4)] lmt_drained [OF ok es(1,2)] by simp
  ultimately show ?thesis using f(1) o(1) same es(3)
    by (intro exI [of _ e1] exI [of _ d1] exI [of _ t] exI [of _ e2]) (simp add: lsm_flush_def)
qed

theorem reopen_forgets_witness:
  "\<exists>e d e1 d1 t e2. lsm_get learned_ops (e, d) [1] = Inr (Some [9]) \<and>
     lsm_flush learned_ops (e, d) = Some ((e1, d1), Inr ()) \<and>
     lsm_open learned_ops d1 lmt_new engine_config_default = Some (d1, Inr e2) \<and>
     lsm_get learned_ops (e2, d1) [1] = Inr None \<and> t \<in> set (levels (e_manifest e1) ! 0) \<and>
     and_then (reader_open (meta_path t) d1) read_all = Inr [([1], [9])]"
proof -
  let ?cfg = engine_config_default
  obtain e d where e: "engine_ok lmt_ok (e, d) (replicate num_lsm_levels [])"
    "lmt_content (e_memtable e) = [[1] \<mapsto> [9]]" "e_manifest e = e_manifest (fresh_engine ?cfg)"
    by (rule one_put)
  have ok: "lmt_ok (e_memtable e)" using e(1) by (simp add: engine_ok_def)
  have es: "fst (lmt_drain_sorted (e_memtable e)) = [([1], [9])]" by (rule lmt_drained [OF ok]) (simp_all add: e(2))
  have len: "lmt_len (e_memtable e) \<noteq> 0" by (simp add: lmt_len_zero [OF ok] e(2))
  have fl: "flushable (e_manifest e) (fst (lmt_drain_sorted (e_memtable e)))"
    using fresh_flushable [of "[([1], [9])]" ?cfg "[1]" "[9]"] e(3) by (simp add: fresh_engine_ok(2) es)
  have "lsm_get learned_ops (e, d) [1] = Inr (Some [9])"
    by (simp add: learned.lsm_get_correct [OF e(1)] engine_view_def e(2) hide_tombstone_def)
  moreover obtain e1 d1 t e2 where "lsm_flush learned_ops (e, d) = Some ((e1, d1), Inr ())"
    "lsm_open learned_ops d1 lmt_new ?cfg = Some (d1, Inr e2)" "lsm_get learned_ops (e2, d1) [1] = Inr None"
    "t \<in> set (levels (e_manifest e1) ! 0)" "and_then (reader_open (meta_path t) d1) read_all = Inr [([1], [9])]"
    using reopen_forgets [OF e(1) len fl, of ?cfg] unfolding es by metis
  ultimately show ?thesis by metis
qed


text \<open>
  C16: A flush that fills level 0 loses the newest value of a key: before the flush the key
  reads as the value just written, and after the compaction it triggers as the oldest value on
  the level.
\<close>

theorem flush_loses_update:
  assumes "engine_ok (\<lambda>t. sorted_keys (bt_map t)) (e, d) lss"
    and "bt_get (e_memtable e) k = Some new" "new \<noteq> []"
    and "writable (e_manifest e) (bt_map (e_memtable e))"
    and "weight (concat (lss ! 0)) + weight (bt_map (e_memtable e)) + 20 < 2 ^ 64"
    and "unat (next_id (e_manifest e)) + 2 < 2 ^ 64" "length (lss ! 0) + 1 = max_tables_per_level"
    and "\<And>l. 0 < l \<Longrightarrow> l < length lss \<Longrightarrow> length (lss ! l) + 1 < max_tables_per_level"
    and "map_of (concat (lss ! 0)) k = Some old" "old \<noteq> []"
  shows "lsm_get btree_ops (e, d) k = Inr (Some new) \<and>
    (\<exists>s'. lsm_flush btree_ops (e, d) = Some (s', Inr ()) \<and> lsm_get btree_ops s' k = Inr (Some old))"
proof -
  have sorted: "sorted_keys (bt_map (e_memtable e))" using assms(1) by (simp add: engine_ok_def)
  have bt: "map_of (bt_map (e_memtable e)) k = Some new" using assms(2) by (simp add: bt_get_def)
  have "writable (e_manifest e) es \<and> weight (concat (lss ! 0)) + weight es + 20 < 2 ^ 64"
    if "sorted_keys es" "map_of es = map_of (bt_map (e_memtable e))" for es
    using assms(4,5) sorted_keys_unique [OF that(1) sorted that(2)] by simp
  with btree.flush_oldest [OF assms(1) bt _ assms(6-10)] obtain s' lss' where
    f: "flush_memtable btree_ops (e, d) = Some (s', Inr ())"
    "engine_ok (\<lambda>t. sorted_keys (bt_map t)) s' lss'"
    "engine_view (\<lambda>t. map_of (bt_map t)) s' lss' k = Some old" by blast
  have "lsm_get btree_ops s' k = Inr (Some old)"
    by (simp add: btree.lsm_get_correct [OF f(2)] f(3))
  moreover have "lsm_get btree_ops (e, d) k = Inr (Some new)"
    by (simp add: btree.lsm_get_correct [OF assms(1)] engine_view_def bt hide_tombstone_def assms(3))
  ultimately show ?thesis using f(1) by (simp add: lsm_flush_def)
qed

theorem flush_loses_update_witness:
  "lsm_get btree_ops (sample_engine, sample_disk) [7] = Inr (Some [4]) \<and>
   (\<exists>s'. lsm_flush btree_ops (sample_engine, sample_disk) = Some (s', Inr ()) \<and>
      lsm_get btree_ops s' [7] = Inr (Some [1]))"
proof (rule flush_loses_update [OF sample_engine_ok])
  fix l :: nat assume "0 < l" "l < length sample_runs"
  then show "length (sample_runs ! l) + 1 < max_tables_per_level"
    by (auto simp: max_tables_per_level_def less_Suc_eq)
qed (simp_all add: sample_engine_def bt_get_def writable_def weight_def entry_weight_def entry_fits_def
    max_tables_per_level_def)


text \<open>
  C17: Ingesting a sequence that does not ascend strictly is rejected as corruption and changes
  no lookup. For an ascending one whose entries fit a table and which leaves level 0 below the
  number of tables that triggers a compaction, the number of entries is returned, and its
  entries are read unless the memtable holds the key; unless it is empty, level 0 has one more
  table at its end, whose file holds exactly these entries.
\<close>

theorem ingest_sorted_spec:
  assumes "engine_ok lmt_ok (e, d) lss" "unat (next_id (e_manifest e)) + 1 < 2 ^ 64"
    and "sorted_keys kvs \<Longrightarrow> flushable (e_manifest e) kvs"
  shows "\<exists>s' lss'. engine_ok lmt_ok s' lss' \<and>
    (if \<not> sorted_keys kvs
     then ingest_sorted (e, d) kvs = Some (s', Inl (Corruption ''ingest_sorted: keys not in ascending order'')) \<and>
       lsm_get learned_ops s' = lsm_get learned_ops (e, d)
     else ingest_sorted (e, d) kvs = Some (s', Inr (of_nat (length kvs))) \<and>
       (\<forall>k. lsm_get learned_ops s' k =
         (case (lmt_get (e_memtable e) k, map_of kvs k) of
            (None, Some v) \<Rightarrow> Inr (hide_tombstone v) | _ \<Rightarrow> lsm_get learned_ops (e, d) k)) \<and>
       (kvs \<noteq> [] \<longrightarrow> (\<exists>t. levels (e_manifest (fst s')) = (levels (e_manifest e))[0 := levels (e_manifest e) ! 0 @ [t]] \<and>
          and_then (reader_open (meta_path t) (snd s')) read_all = Inr kvs)))"
proof -
  let ?m = "(e_manifest e)\<lparr>next_id := next_id (e_manifest e) + 1\<rparr>"
  let ?s = "(e\<lparr>e_manifest := ?m\<rparr>, d(sst_name 0 (next_id (e_manifest e)) := None))"
  have skip: "engine_ok lmt_ok ?s lss" by (rule engine_ok_skip_id [OF assms(1,2)])
  have same: "lsm_get learned_ops ?s = lsm_get learned_ops (e, d)"
    by (simp add: fun_eq_iff learned.lsm_get_correct [OF skip] learned.lsm_get_correct [OF assms(1)] engine_view_def)
  consider (unsorted) "\<not> sorted_keys kvs" | (empty) "kvs = []" | (table) "sorted_keys kvs" "kvs \<noteq> []" by blast
  then show ?thesis
  proof cases
    case unsorted
    then show ?thesis using skip same by (intro exI [of _ ?s] exI [of _ lss]) (simp add: ingest_sorted_unsorted)
  next
    case empty
    then show ?thesis using skip same
      by (intro exI [of _ ?s] exI [of _ lss]) (simp add: ingest_sorted_empty split: option.split)
  next
    case table
    obtain e' d' t where i: "ingest_sorted (e, d) kvs = Some ((e', d'), Inr (of_nat (length kvs)))"
      "engine_ok lmt_ok (e', d') (add_run 0 kvs lss)" "e_memtable e' = e_memtable e"
      and t: "levels (e_manifest e') = (levels (e_manifest e))[0 := levels (e_manifest e) ! 0 @ [t]]" "table_ok d' t kvs"
      using ingest_sorted_correct [OF assms(1) table] assms(3) table(1) by blast
    have "0 < length lss"
      using assms(1) assms(3) [OF table(1)] store_lengths(1) [of d "e_manifest e" lss]
      by (simp add: engine_ok_def flushable_def writable_def)
    moreover have "lmt_get (e_memtable e) k = lmt_content (e_memtable e) k" for k
      using learned.get_law [of "e_memtable e" k] assms(1) by (simp add: engine_ok_def learned_ops_def)
    ultimately have "lsm_get learned_ops (e', d') k =
        (case (lmt_get (e_memtable e) k, map_of kvs k) of
           (None, Some v) \<Rightarrow> Inr (hide_tombstone v) | _ \<Rightarrow> lsm_get learned_ops (e, d) k)" for k
      by (auto simp: learned.lsm_get_correct [OF i(2)] learned.lsm_get_correct [OF assms(1)] engine_view_def i(3)
          store_view_add_run map_add_def split: option.split)
    moreover have "\<exists>t. levels (e_manifest e') = (levels (e_manifest e))[0 := levels (e_manifest e) ! 0 @ [t]] \<and>
        and_then (reader_open (meta_path t) d') read_all = Inr kvs"
      using t table_ok_read by blast
    ultimately show ?thesis using table i(1,2)
      by (intro exI [of _ "(e', d')"] exI [of _ "add_run 0 kvs lss"]) simp
  qed
qed

theorem ingest_sorted_spec_witness:
  "\<exists>s'. ingest_sorted (fresh_engine engine_config_default, [wal_name \<mapsto> []]) [([1], [9])] = Some (s', Inr 1) \<and>
     lsm_get learned_ops s' [1] = Inr (Some [9])"
proof -
  have "flushable (e_manifest (fresh_engine engine_config_default)) [([1], [9])]"
    using fresh_flushable [of "[([1], [9])]" engine_config_default "[1]" "[9]"] by (simp add: fresh_engine_ok(2))
  moreover have "unat (next_id (e_manifest (fresh_engine engine_config_default))) + 1 < 2 ^ 64"
    by (simp add: fresh_engine_def manifest_new_def)
  moreover have "lmt_get (e_memtable (fresh_engine engine_config_default)) [1] = None"
    using learned.get_law [OF lmt_new_ok(1)] lmt_new_ok(2) by (simp add: fresh_engine_def learned_ops_def)
  ultimately show ?thesis
    using ingest_sorted_spec [OF fresh_engine_ok(1), of engine_config_default "[([1], [9])]"]
    by (auto simp: hide_tombstone_def)
qed


text \<open>
  Text with one pair per line, key and value separated by a tab, is ingested like the sequence
  of its pairs, for ASCII pairs without separators inside, with the same result and the same
  errors.
\<close>

lemma ingest_reader_roundtrip:
  assumes "list_all tsv_pair kvs"
  shows "ingest_reader ops s (concat (map tsv_line kvs)) = ingest_iter ops s kvs"
  by (simp add: ingest_reader_def ingest_iter_def ingest_lines_tsv [OF assms])

end
